(* ===== verification/Prelude.thy ===== *)
theory Prelude
  imports Main "HOL-Library.Word" "HOL-Library.Monad_Syntax" "HOL-Library.Sublist"
begin

text \<open>
  Vocabulary shared by every component: Go strings as byte lists, Go results as sums
  whose left value is the text of the error, the collections of rewrite rules that the
  component proofs use, and generic facts on lists and on encoders.
\<close>

section \<open>Bytes, results and rule collections\<close>

named_theorems go_defs \<open>definitions of operations, unfolded to compute\<close>

named_theorems go_shrink \<open>sub-parsers return a shorter rest\<close>

type_synonym 'a result = "string + 'a"

abbreviation byte :: "char \<Rightarrow> nat" where
  "byte c \<equiv> of_char c"

abbreviation chr :: "nat \<Rightarrow> char" where
  "chr n \<equiv> char_of n"

abbreviation newline :: char where
  "newline \<equiv> CHR 0x0A"

lemma byte_eq_iff: "byte c = byte d \<longleftrightarrow> c = d"
  by simp

text \<open>The go statement \<open>x, err := m; if err != nil { return err }\<close> on plain results.\<close>

fun and_then :: "'a result \<Rightarrow> ('a \<Rightarrow> 'b result) \<Rightarrow> 'b result" where
  "and_then (Inl e) f = Inl e"
| "and_then (Inr x) f = f x"

lemma and_then_InrE [elim!]:
  assumes "and_then m f = Inr y"
  obtains x where "m = Inr x" and "f x = Inr y"
  using assms by (cases m) auto

section \<open>Lists\<close>

lemma takeWhile_append_stop [simp]:
  "(\<And>x. x \<in> set xs \<Longrightarrow> P x) \<Longrightarrow> \<not> P y \<Longrightarrow> takeWhile P (xs @ y # ys) = xs"
  by (induction xs) auto

lemma dropWhile_append_stop [simp]:
  "(\<And>x. x \<in> set xs \<Longrightarrow> P x) \<Longrightarrow> \<not> P y \<Longrightarrow> dropWhile P (xs @ y # ys) = y # ys"
  by (induction xs) auto

lemma split_at_stop [simp]:
  "d \<notin> set xs \<Longrightarrow> takeWhile (\<lambda>c. c \<noteq> d) (xs @ d # ys) = xs"
  "d \<notin> set xs \<Longrightarrow> dropWhile (\<lambda>c. c \<noteq> d) (xs @ d # ys) = d # ys"
  by (induction xs) auto

section \<open>Encoders with a decoder\<close>

text \<open>
  The contract of a pair of an encoder and a decoder on a set of valid values: decoding
  an encoding gives the value back. Injectivity is what clients use it for.
\<close>

locale codec =
  fixes enc :: "'a \<Rightarrow> 'b"
    and dec :: "'b \<Rightarrow> 'a option"
    and valid :: "'a \<Rightarrow> bool"
  assumes dec_enc: "valid x \<Longrightarrow> dec (enc x) = Some x"
begin

lemma enc_inj: "valid x \<Longrightarrow> valid y \<Longrightarrow> enc x = enc y \<longleftrightarrow> x = y"
  using dec_enc by (metis option.inject)

lemma enc_inj_on: "inj_on enc {x. valid x}"
  by (auto intro!: inj_onI simp: enc_inj)

end

section \<open>Step systems\<close>

text \<open>
  The contract of the step relations of the components: the reachable states are the least set
  with the initial state that is closed under steps. Invariants and runs need no more.
\<close>

locale runs =
  fixes init :: 's
    and step :: "'s \<Rightarrow> 's \<Rightarrow> bool"
    and reach :: "'s \<Rightarrow> bool"
  assumes run_init: "reach init"
    and run_next: "reach s \<Longrightarrow> step s t \<Longrightarrow> reach t"
    and run_least: "reach s \<Longrightarrow> P init \<Longrightarrow> (\<And>s t. reach s \<Longrightarrow> P s \<Longrightarrow> step s t \<Longrightarrow> P t) \<Longrightarrow> P s"
begin

text \<open>A concrete step, with the state it leads to written out.\<close>

lemma run_to: "reach s \<Longrightarrow> step s t \<Longrightarrow> t = s' \<Longrightarrow> reach s'"
  using run_next by blast

lemma run_steps: "step\<^sup>*\<^sup>* s t \<Longrightarrow> reach s \<Longrightarrow> reach t"
  by (induction rule: rtranclp_induct) (auto intro: run_next)

lemma run_induct [consumes 1, case_names start move]:
  "reach s \<Longrightarrow> P init \<Longrightarrow> (\<And>s t. reach s \<Longrightarrow> P s \<Longrightarrow> step s t \<Longrightarrow> P t) \<Longrightarrow> P s"
  by (rule run_least)

lemma run_invariant: "P init \<Longrightarrow> (\<And>s t. step s t \<Longrightarrow> P s \<Longrightarrow> P t) \<Longrightarrow> reach s \<Longrightarrow> P s"
  by (rule run_least)

end

text \<open>A system simulates another when their related states stay related: whatever the first
  reaches is then related to a state the second reaches.\<close>

locale simulation = conc: runs cinit cstep creach + abs: runs ainit astep areach
  for cinit :: 'c and cstep :: "'c \<Rightarrow> 'c \<Rightarrow> bool" and creach :: "'c \<Rightarrow> bool"
    and ainit :: 'a and astep :: "'a \<Rightarrow> 'a \<Rightarrow> bool" and areach :: "'a \<Rightarrow> bool" +
  fixes related :: "'c \<Rightarrow> 'a \<Rightarrow> bool"
  assumes related_init: "related cinit ainit"
    and related_step: "areach a \<Longrightarrow> related c a \<Longrightarrow> cstep c c' \<Longrightarrow> \<exists>a'. related c' a' \<and> astep\<^sup>*\<^sup>* a a'"
begin

lemma reach_related: "creach c \<Longrightarrow> \<exists>a. areach a \<and> related c a"
proof (induction rule: conc.run_induct)
  case start
  show ?case using abs.run_init related_init by blast
next
  case (move c c')
  then obtain a where "areach a" "related c a" by blast
  then show ?case using related_step [OF _ _ move(2)] abs.run_steps by blast
qed

lemma steps_related:
  "cstep\<^sup>*\<^sup>* c c' \<Longrightarrow> areach a \<Longrightarrow> related c a \<Longrightarrow> \<exists>a'. areach a' \<and> related c' a' \<and> astep\<^sup>*\<^sup>* a a'"
proof (induction rule: rtranclp_induct)
  case (step c1 c2)
  then obtain a1 where "areach a1" "related c1 a1" "astep\<^sup>*\<^sup>* a a1" by blast
  moreover from related_step [OF this(1,2) step(2)] obtain a2 where "related c2 a2" "astep\<^sup>*\<^sup>* a1 a2" by blast
  ultimately show ?case using abs.run_steps by (meson rtranclp_trans)
qed blast

end

end
