(* ===== verification/Go_Strings.thy ===== *)
theory Go_Strings
  imports Prelude
begin

text \<open>
  The part of Go's string library that the program calls, on byte strings: UTF-8 decoding
  (\<open>utf8.DecodeRuneInString\<close>), \<open>strings.TrimSpace\<close>, \<open>strings.Split\<close> at one byte,
  \<open>strings.EqualFold\<close>, decimal and hexadecimal printing and \<open>strconv.Quote\<close>.
  Unicode tables beyond ASCII that the library consults are parameters of the operations
  that need them (\<open>uf\<close> for \<open>unicode.SimpleFold\<close>, \<open>isprint\<close> for
  \<open>unicode.IsPrint\<close>); the ASCII part of both tables is written out.
\<close>

section \<open>UTF-8\<close>

definition rune_error :: nat where
  "rune_error = 0xFFFD"

definition is_cont :: "nat \<Rightarrow> bool" where
  "is_cont b \<longleftrightarrow> 0x80 \<le> b \<and> b \<le> 0xBF"

text \<open>The range of the second byte depends on the first, which excludes overlong forms,
  surrogates and values above 10FFFF.\<close>

definition second_ok :: "nat \<Rightarrow> nat \<Rightarrow> bool" where
  "second_ok b0 b1 \<longleftrightarrow>
     (if b0 = 0xE0 then 0xA0 \<le> b1 \<and> b1 \<le> 0xBF
      else if b0 = 0xED then 0x80 \<le> b1 \<and> b1 \<le> 0x9F
      else if b0 = 0xF0 then 0x90 \<le> b1 \<and> b1 \<le> 0xBF
      else if b0 = 0xF4 then 0x80 \<le> b1 \<and> b1 \<le> 0x8F
      else is_cont b1)"

text \<open>\<open>decode_rune s\<close> is the first rune of \<open>s\<close> and its width; an invalid sequence is
  \<open>rune_error\<close> of width 1, the empty string \<open>rune_error\<close> of width 0.\<close>

fun decode_rune :: "string \<Rightarrow> nat \<times> nat" where
  "decode_rune [] = (rune_error, 0)"
| "decode_rune (c # cs) =
     (let b0 = byte c in
      if b0 < 0x80 then (b0, 1)
      else if b0 < 0xC2 then (rune_error, 1)
      else if b0 < 0xE0 then
        (case cs of
           c1 # _ \<Rightarrow> if is_cont (byte c1) then ((b0 - 0xC0) * 64 + (byte c1 - 0x80), 2)
                     else (rune_error, 1)
         | [] \<Rightarrow> (rune_error, 1))
      else if b0 < 0xF0 then
        (case cs of
           c1 # c2 # _ \<Rightarrow>
             if second_ok b0 (byte c1) \<and> is_cont (byte c2)
             then ((b0 - 0xE0) * 4096 + (byte c1 - 0x80) * 64 + (byte c2 - 0x80), 3)
             else (rune_error, 1)
         | _ \<Rightarrow> (rune_error, 1))
      else if b0 < 0xF5 then
        (case cs of
           c1 # c2 # c3 # _ \<Rightarrow>
             if second_ok b0 (byte c1) \<and> is_cont (byte c2) \<and> is_cont (byte c3)
             then ((b0 - 0xF0) * 262144 + (byte c1 - 0x80) * 4096
                     + (byte c2 - 0x80) * 64 + (byte c3 - 0x80), 4)
             else (rune_error, 1)
         | _ \<Rightarrow> (rune_error, 1))
      else (rune_error, 1))"

declare decode_rune.simps(2) [simp del]

lemma decode_rune_width:
  assumes "s \<noteq> []"
  shows "1 \<le> snd (decode_rune s) \<and> snd (decode_rune s) \<le> length s"
  using assms
  by (cases s rule: decode_rune.cases)
    (auto simp: decode_rune.simps(2) Let_def split: list.splits)

lemma decode_rune_pos [simp]: "0 < snd (decode_rune (c # cs))"
  using decode_rune_width [of "c # cs"] by simp

lemma decode_rune_ascii [simp]: "byte c < 0x80 \<Longrightarrow> decode_rune (c # cs) = (byte c, 1)"
  by (simp add: decode_rune.simps(2))

lemma decode_rune_nonascii: "0x80 \<le> byte c \<Longrightarrow> 0x80 \<le> fst (decode_rune (c # cs))"
  by (auto simp: decode_rune.simps(2) Let_def rune_error_def second_ok_def is_cont_def
      split: list.splits if_splits)

text \<open>\<open>utf8.AppendRune\<close>: the encoding of a code point, the replacement character for a
  surrogate or a value out of range.\<close>

definition valid_rune :: "nat \<Rightarrow> bool" where
  "valid_rune r \<longleftrightarrow> r < 0xD800 \<or> 0xDFFF < r \<and> r \<le> 0x10FFFF"

definition encode_valid_rune :: "nat \<Rightarrow> string" where
  "encode_valid_rune r =
     (if r < 0x80 then [chr r]
      else if r < 0x800 then [chr (0xC0 + r div 64), chr (0x80 + r mod 64)]
      else if r < 0x10000 then
        [chr (0xE0 + r div 4096), chr (0x80 + (r div 64) mod 64), chr (0x80 + r mod 64)]
      else [chr (0xF0 + r div 262144), chr (0x80 + (r div 4096) mod 64),
            chr (0x80 + (r div 64) mod 64), chr (0x80 + r mod 64)])"

definition encode_rune :: "nat \<Rightarrow> string" where
  "encode_rune r = encode_valid_rune (if valid_rune r then r else rune_error)"

text \<open>The last rune of a string (\<open>utf8.DecodeLastRuneInString\<close>): step back over at most
  three bytes to one that starts a rune, decode there, and accept only a rune that ends
  at the end.\<close>

definition rune_start :: "char \<Rightarrow> bool" where
  "rune_start c \<longleftrightarrow> \<not> is_cont (byte c)"

definition last_start :: "string \<Rightarrow> nat" where
  "last_start s =
     (let n = length s in
      if 2 \<le> n \<and> rune_start (s ! (n - 2)) then n - 2
      else if 3 \<le> n \<and> rune_start (s ! (n - 3)) then n - 3
      else if 4 \<le> n \<and> rune_start (s ! (n - 4)) then n - 4
      else n - min n 5)"

definition decode_last_rune :: "string \<Rightarrow> nat \<times> nat" where
  "decode_last_rune s =
     (if s = [] then (rune_error, 0)
      else if byte (last s) < 0x80 then (byte (last s), 1)
      else let start = last_start s; (r, w) = decode_rune (drop start s)
           in if start + w = length s then (r, w) else (rune_error, 1))"

lemma decode_last_rune_width:
  assumes "s \<noteq> []"
  shows "1 \<le> snd (decode_last_rune s) \<and> snd (decode_last_rune s) \<le> length s"
proof -
  have "last_start s < length s"
    using assms by (auto simp: last_start_def Let_def min_def)
  then have "drop (last_start s) s \<noteq> []" by simp
  from decode_rune_width [OF this] show ?thesis
    using assms by (auto simp: decode_last_rune_def Let_def Suc_le_eq split: prod.splits)
qed

section \<open>White space and splitting\<close>

definition is_space_rune :: "nat \<Rightarrow> bool" where
  "is_space_rune r \<longleftrightarrow>
     (9 \<le> r \<and> r \<le> 13) \<or> r = 0x20 \<or> r = 0x85 \<or> r = 0xA0 \<or> r = 0x1680
     \<or> (0x2000 \<le> r \<and> r \<le> 0x200A) \<or> r = 0x2028 \<or> r = 0x2029 \<or> r = 0x202F
     \<or> r = 0x205F \<or> r = 0x3000"

function trim_left :: "string \<Rightarrow> string" where
  "trim_left s =
     (if s \<noteq> [] \<and> is_space_rune (fst (decode_rune s))
      then trim_left (drop (snd (decode_rune s)) s) else s)"
  by pat_completeness auto
termination
  by (relation "measure length") (use decode_rune_width in \<open>fastforce+\<close>)

function trim_right :: "string \<Rightarrow> string" where
  "trim_right s =
     (if s \<noteq> [] \<and> is_space_rune (fst (decode_last_rune s))
      then trim_right (take (length s - snd (decode_last_rune s)) s) else s)"
  by pat_completeness auto
termination
proof (relation "measure length", goal_cases)
  case (2 s)
  then show ?case using decode_last_rune_width [of s] by (simp add: min_def) linarith
qed simp

declare trim_left.simps [simp del] trim_right.simps [simp del]

text \<open>\<open>strings.TrimSpace\<close>. The library's fast path over ASCII computes the same.\<close>

definition trim_space :: "string \<Rightarrow> string" where
  "trim_space s = trim_right (trim_left s)"

definition plain_char :: "char \<Rightarrow> bool" where
  "plain_char c \<longleftrightarrow> 0x20 < byte c \<and> byte c < 0x7F"

lemma plain_not_space: "plain_char c \<Longrightarrow> \<not> is_space_rune (byte c)"
  by (auto simp: plain_char_def is_space_rune_def)

lemma trim_left_plain: "plain_char c \<Longrightarrow> trim_left (c # cs) = c # cs"
proof -
  assume c: "plain_char c"
  then have "decode_rune (c # cs) = (byte c, 1)" by (simp add: plain_char_def)
  with c show ?thesis by (subst trim_left.simps) (simp add: plain_not_space)
qed

lemma trim_right_plain: "s \<noteq> [] \<Longrightarrow> plain_char (last s) \<Longrightarrow> trim_right s = s"
  by (subst trim_right.simps)
    (simp add: decode_last_rune_def plain_char_def is_space_rune_def)

lemma trim_space_plain [simp]: "\<forall>c \<in> set s. plain_char c \<Longrightarrow> trim_space s = s"
proof (cases s)
  case Nil
  then show ?thesis by (simp add: trim_space_def trim_left.simps trim_right.simps)
next
  case (Cons c cs)
  assume plain: "\<forall>c \<in> set s. plain_char c"
  from Cons plain have "trim_left s = s" by (simp add: trim_left_plain)
  moreover from Cons plain have "trim_right s = s" by (intro trim_right_plain) auto
  ultimately show ?thesis by (simp add: trim_space_def)
qed

lemma length_trim_left: "length (trim_left s) \<le> length s"
proof (induction s rule: trim_left.induct)
  case (1 s)
  then show ?case by (subst trim_left.simps) (auto intro: le_trans)
qed

text \<open>What remains of a trim has no space at either end: this is what the callers that
  test the remainder for emptiness rely on.\<close>

lemma trim_right_end: "trim_right s = [] \<or> \<not> is_space_rune (fst (decode_last_rune (trim_right s)))"
proof (induction s rule: trim_right.induct)
  case (1 s)
  then show ?case by (subst (1 2) trim_right.simps) auto
qed

text \<open>\<open>strings.Split\<close> at a separator of one byte.\<close>

fun split_on :: "char \<Rightarrow> string \<Rightarrow> string list" where
  "split_on d [] = [[]]"
| "split_on d (c # cs) =
     (if c = d then [] # split_on d cs
      else (case split_on d cs of p # ps \<Rightarrow> (c # p) # ps | [] \<Rightarrow> [[c]]))"

lemma split_on_ne [simp]: "split_on d s \<noteq> []"
  by (cases s) (auto split: list.splits)

lemma split_on_no_sep: "d \<notin> set s \<Longrightarrow> split_on d s = [s]"
  by (induction s) auto

lemma split_on_append: "d \<notin> set s \<Longrightarrow> split_on d (s @ d # t) = s # split_on d t"
  by (induction s) auto

lemma split_on_pieces: "\<forall>p \<in> set (split_on d s). d \<notin> set p \<and> set p \<subseteq> set s"
proof (induction s)
  case (Cons c cs)
  obtain p ps where p: "split_on d cs = p # ps" by (cases "split_on d cs") auto
  with Cons show ?case by auto
qed simp

fun join_with :: "'a \<Rightarrow> 'a list list \<Rightarrow> 'a list" where
  "join_with d [] = []"
| "join_with d [p] = p"
| "join_with d (p # q # ps) = p @ d # join_with d (q # ps)"

lemma split_join: "ps \<noteq> [] \<Longrightarrow> \<forall>p \<in> set ps. d \<notin> set p \<Longrightarrow> split_on d (join_with d ps) = ps"
  by (induction d ps rule: join_with.induct) (auto simp: split_on_append split_on_no_sep)

lemma join_with_Cons: "ps \<noteq> [] \<Longrightarrow> join_with d (p # ps) = p @ d # join_with d ps"
  by (cases ps) auto

lemma join_with_Cons_head: "join_with d ((c # p) # ps) = c # join_with d (p # ps)"
  by (cases ps) auto

lemma join_split: "join_with d (split_on d s) = s"
proof (induction s)
  case (Cons c cs)
  obtain p ps where "split_on d cs = p # ps" by (cases "split_on d cs") auto
  with Cons show ?case by (simp add: join_with_Cons_head join_with_Cons)
qed simp

section \<open>Case folding\<close>

text \<open>
  \<open>unicode.SimpleFold\<close>: the next larger code point with the same folding, or the
  smallest. The orbits with an ASCII member are written out (\<open>K k U+212A\<close> and
  \<open>S s U+017F\<close> have three members, the other letters two); \<open>uf\<close> is the table elsewhere.
\<close>

definition simple_fold :: "(nat \<Rightarrow> nat) \<Rightarrow> nat \<Rightarrow> nat" where
  "simple_fold uf r =
     (if r = 0x6B then 0x212A else if r = 0x212A then 0x4B
      else if r = 0x73 then 0x17F else if r = 0x17F then 0x53
      else if 0x41 \<le> r \<and> r \<le> 0x5A then r + 32
      else if 0x61 \<le> r \<and> r \<le> 0x7A then r - 32
      else if r < 0x80 then r
      else uf r)"

text \<open>The loop \<open>for r != sr && r < tr { r = SimpleFold(r) }\<close>. An orbit of the table has
  four members at most, so eight rounds are more than the loop can make.\<close>

fun fold_loop :: "(nat \<Rightarrow> nat) \<Rightarrow> nat \<Rightarrow> nat \<Rightarrow> nat \<Rightarrow> nat \<Rightarrow> nat" where
  "fold_loop uf 0 sr tr r = r"
| "fold_loop uf (Suc n) sr tr r =
     (if r \<noteq> sr \<and> r < tr then fold_loop uf n sr tr (simple_fold uf r) else r)"

definition rune_fold_eq :: "(nat \<Rightarrow> nat) \<Rightarrow> nat \<Rightarrow> nat \<Rightarrow> bool" where
  "rune_fold_eq uf a b =
     (if a = b then True
      else let sr = min a b; tr = max a b in
        if tr < 0x80 then 0x41 \<le> sr \<and> sr \<le> 0x5A \<and> tr = sr + 32
        else fold_loop uf 8 sr tr (simple_fold uf sr) = tr)"

function equal_fold :: "(nat \<Rightarrow> nat) \<Rightarrow> string \<Rightarrow> string \<Rightarrow> bool" where
  "equal_fold uf s t =
     (if s = [] then t = []
      else if t = [] then False
      else if rune_fold_eq uf (fst (decode_rune s)) (fst (decode_rune t))
      then equal_fold uf (drop (snd (decode_rune s)) s) (drop (snd (decode_rune t)) t)
      else False)"
  by pat_completeness auto
termination
  by (relation "measure (\<lambda>(_, s, _). length s)") (use decode_rune_width in \<open>fastforce+\<close>)

declare equal_fold.simps [simp del]

definition is_ascii :: "string \<Rightarrow> bool" where
  "is_ascii s \<longleftrightarrow> (\<forall>c \<in> set s. byte c < 0x80)"

lemma is_ascii_simps [simp]:
  "is_ascii []"
  "is_ascii (c # s) \<longleftrightarrow> byte c < 0x80 \<and> is_ascii s"
  "is_ascii (s @ t) \<longleftrightarrow> is_ascii s \<and> is_ascii t"
  by (auto simp: is_ascii_def)

definition ascii_lower :: "char \<Rightarrow> char" where
  "ascii_lower c = (if 0x41 \<le> byte c \<and> byte c \<le> 0x5A then chr (byte c + 32) else c)"

lemma rune_fold_eq_refl [simp]: "rune_fold_eq uf r r"
  by (simp add: rune_fold_eq_def)

lemma byte_ascii_lower:
  "byte (ascii_lower c) = (if 0x41 \<le> byte c \<and> byte c \<le> 0x5A then byte c + 32 else byte c)"
  by (simp add: ascii_lower_def)

lemma rune_fold_eq_ascii:
  assumes "byte c < 0x80" "byte d < 0x80"
  shows "rune_fold_eq uf (byte c) (byte d) \<longleftrightarrow> ascii_lower c = ascii_lower d"
proof -
  have "ascii_lower c = ascii_lower d \<longleftrightarrow> byte (ascii_lower c) = byte (ascii_lower d)"
    by (simp only: byte_eq_iff)
  then show ?thesis
    using assms by (auto simp: rune_fold_eq_def Let_def byte_ascii_lower min_def max_def)
qed

lemma equal_fold_refl [simp]: "equal_fold uf s s"
proof (induction "length s" arbitrary: s rule: less_induct)
  case less
  show ?case
  proof (cases "s = []")
    case False
    with decode_rune_width [OF this] less show ?thesis
      by (subst equal_fold.simps) auto
  qed (simp add: equal_fold.simps)
qed

text \<open>On ASCII strings folding equality is equality up to the case of letters.\<close>

lemma equal_fold_ascii:
  "is_ascii s \<Longrightarrow> is_ascii t \<Longrightarrow> equal_fold uf s t \<longleftrightarrow> map ascii_lower s = map ascii_lower t"
proof (induction s arbitrary: t)
  case Nil
  then show ?case by (simp add: equal_fold.simps)
next
  case (Cons c s)
  then show ?case
    by (cases t) (simp_all add: equal_fold.simps [of uf "c # s"] rune_fold_eq_ascii)
qed

end
