(* ===== verification/Go_Filepath.thy ===== *)
theory Go_Filepath
  imports Go_Strings
begin

text \<open>
  \<open>filepath.Join\<close> and \<open>filepath.Clean\<close> of Go 1.22 for Windows, which build every path
  the daemon uses from environment variables. \<open>Clean\<close> keeps the library's lazy buffer,
  because its last step looks at whether the buffer was allocated.
\<close>

section \<open>Separators and volume names\<close>

abbreviation backslash :: char where
  "backslash \<equiv> CHR 0x5C"

definition is_sep :: "char \<Rightarrow> bool" where
  "is_sep c \<longleftrightarrow> c = backslash \<or> c = CHR ''/''"

definition ascii_upper :: "char \<Rightarrow> char" where
  "ascii_upper c = (if 0x61 \<le> byte c \<and> byte c \<le> 0x7A then chr (byte c - 32) else c)"

text \<open>\<open>pathHasPrefixFold\<close>: the prefix matches up to case and kind of slash, and ends at
  an element boundary.\<close>

definition has_prefix_fold :: "string \<Rightarrow> string \<Rightarrow> bool" where
  "has_prefix_fold s p \<longleftrightarrow>
     length p \<le> length s
     \<and> list_all2 (\<lambda>a b. if is_sep b then is_sep a else ascii_upper b = ascii_upper a) (take (length p) s) p
     \<and> (length p < length s \<longrightarrow> is_sep (s ! length p))"

text \<open>\<open>uncLen\<close>: up to the second separator after the prefix.\<close>

fun unc_scan :: "nat \<Rightarrow> nat \<Rightarrow> string \<Rightarrow> nat" where
  "unc_scan i count [] = i"
| "unc_scan i count (c # cs) =
     (if is_sep c then (if count = 1 then i else unc_scan (i + 1) (count + 1) cs)
      else unc_scan (i + 1) count cs)"

definition unc_len :: "string \<Rightarrow> nat \<Rightarrow> nat" where
  "unc_len path n = (if length path \<le> n then length path else unc_scan n 0 (drop n path))"

definition volume_name_len :: "string \<Rightarrow> nat" where
  "volume_name_len path =
     (if 2 \<le> length path \<and> path ! 1 = CHR '':'' then 2
      else if path = [] \<or> \<not> is_sep (hd path) then 0
      else if has_prefix_fold path [backslash, backslash, CHR ''.'', backslash, CHR ''U'', CHR ''N'', CHR ''C'']
      then unc_len path 8
      else if has_prefix_fold path [backslash, backslash, CHR ''.'']
        \<or> has_prefix_fold path [backslash, backslash, CHR ''?'']
        \<or> has_prefix_fold path [backslash, CHR ''?'', CHR ''?'']
      then (if length path = 3 then 3
            else 4 + length (takeWhile (\<lambda>c. \<not> is_sep c) (drop 4 path)))
      else if 2 \<le> length path \<and> is_sep (path ! 1) then unc_len path 2
      else 0)"

section \<open>The lazy buffer\<close>

text \<open>While \<open>lb_buf\<close> is \<open>None\<close> the output is a prefix of the path itself.\<close>

record lazybuf =
  lb_path :: string
  lb_buf :: "string option"
  lb_w :: nat

definition lb_append :: "char \<Rightarrow> lazybuf \<Rightarrow> lazybuf" where
  "lb_append c b =
     (case lb_buf b of
        None \<Rightarrow>
          if lb_w b < length (lb_path b) \<and> lb_path b ! lb_w b = c
          then b\<lparr>lb_w := lb_w b + 1\<rparr>
          else b\<lparr>lb_buf := Some ((take (lb_w b) (lb_path b)
                     @ replicate (length (lb_path b) - lb_w b) (CHR 0x00))[lb_w b := c]),
                 lb_w := lb_w b + 1\<rparr>
      | Some buf \<Rightarrow> b\<lparr>lb_buf := Some (buf[lb_w b := c]), lb_w := lb_w b + 1\<rparr>)"

definition lb_index :: "lazybuf \<Rightarrow> nat \<Rightarrow> char" where
  "lb_index b i = (case lb_buf b of None \<Rightarrow> lb_path b ! i | Some buf \<Rightarrow> buf ! i)"

definition lb_prepend :: "string \<Rightarrow> lazybuf \<Rightarrow> lazybuf" where
  "lb_prepend p b =
     (case lb_buf b of
        None \<Rightarrow> b
      | Some buf \<Rightarrow> b\<lparr>lb_buf := Some (p @ buf), lb_w := lb_w b + length p\<rparr>)"

definition lb_string :: "lazybuf \<Rightarrow> string" where
  "lb_string b = (case lb_buf b of None \<Rightarrow> take (lb_w b) (lb_path b) | Some buf \<Rightarrow> take (lb_w b) buf)"

text \<open>Removing the last element: \<open>out.w--\<close>, then back to a separator.\<close>

fun lb_back :: "nat \<Rightarrow> nat \<Rightarrow> lazybuf \<Rightarrow> nat" where
  "lb_back dotdot 0 b = 0"
| "lb_back dotdot (Suc w) b =
     (if dotdot < Suc w \<and> \<not> is_sep (lb_index b (Suc w)) then lb_back dotdot w b else Suc w)"

section \<open>Clean and Join\<close>

text \<open>The main loop; the string argument is \<open>path[r:]\<close>, the state the buffer and \<open>dotdot\<close>.\<close>

function clean_loop :: "bool \<Rightarrow> string \<Rightarrow> nat \<Rightarrow> lazybuf \<Rightarrow> lazybuf" where
  "clean_loop rooted s dotdot out =
     (case s of
        [] \<Rightarrow> out
      | c # cs \<Rightarrow>
          if is_sep c then clean_loop rooted cs dotdot out
          else if c = CHR ''.'' \<and> (cs = [] \<or> is_sep (hd cs)) then clean_loop rooted cs dotdot out
          else if c = CHR ''.'' \<and> hd cs = CHR ''.'' \<and> (tl cs = [] \<or> is_sep (hd (tl cs))) then
            (if dotdot < lb_w out
             then clean_loop rooted (tl cs) dotdot (out\<lparr>lb_w := lb_back dotdot (lb_w out - 1) out\<rparr>)
             else if \<not> rooted
             then let out1 = (if 0 < lb_w out then lb_append backslash out else out);
                      out2 = lb_append (CHR ''.'') (lb_append (CHR ''.'') out1)
                  in clean_loop rooted (tl cs) (lb_w out2) out2
             else clean_loop rooted (tl cs) dotdot out)
          else
            let out1 = (if rooted \<and> lb_w out \<noteq> 1 \<or> \<not> rooted \<and> lb_w out \<noteq> 0
                        then lb_append backslash out else out)
            in clean_loop rooted (dropWhile (\<lambda>c. \<not> is_sep c) s) dotdot
                 (fold lb_append (takeWhile (\<lambda>c. \<not> is_sep c) s) out1))"
  by pat_completeness auto
termination
  by (relation "measure (\<lambda>(_, s, _, _). length s)")
    (auto simp: less_Suc_eq_le length_dropWhile_le intro: le_trans [OF _ diff_le_self])

declare clean_loop.simps [simp del]

definition post_clean :: "nat \<Rightarrow> lazybuf \<Rightarrow> lazybuf" where
  "post_clean vol out =
     (case lb_buf out of
        None \<Rightarrow> out
      | Some buf \<Rightarrow>
          if vol \<noteq> 0 then out
          else if CHR '':'' \<in> set (takeWhile (\<lambda>c. \<not> is_sep c) buf)
          then lb_prepend [CHR ''.'', backslash] out
          else if 3 \<le> length buf \<and> is_sep (buf ! 0) \<and> buf ! 1 = CHR ''?'' \<and> buf ! 2 = CHR ''?''
          then lb_prepend [backslash, CHR ''.''] out
          else out)"

definition from_slash :: "string \<Rightarrow> string" where
  "from_slash s = map (\<lambda>c. if c = CHR ''/'' then backslash else c) s"

definition path_clean :: "string \<Rightarrow> string" where
  "path_clean orig =
     (let vol = volume_name_len orig;
          path = drop vol orig
      in if path = [] then
           (if 1 < vol \<and> is_sep (orig ! 0) \<and> is_sep (orig ! 1) then from_slash orig
            else orig @ ''.'')
         else
           let rooted = is_sep (hd path);
               out0 = \<lparr>lb_path = path, lb_buf = None, lb_w = 0\<rparr>;
               out1 = (if rooted then lb_append backslash out0 else out0);
               out2 = clean_loop rooted (if rooted then tl path else path) (if rooted then 1 else 0) out1;
               out3 = (if lb_w out2 = 0 then lb_append (CHR ''.'') out2 else out2)
           in from_slash (take vol orig @ lb_string (post_clean vol out3)))"

text \<open>\<open>filepath.Join\<close>: the second argument is the text so far, whose last byte is the
  code's \<open>lastChar\<close>.\<close>

fun join_acc :: "string list \<Rightarrow> string \<Rightarrow> string" where
  "join_acc [] b = b"
| "join_acc (e # es) b =
     (if b = [] then join_acc es e
      else if is_sep (last b) then
        (let e' = dropWhile is_sep e;
             dot = (if length b = 1 \<and> take 2 e' = ''??'' \<and> (length e' = 2 \<or> is_sep (e' ! 2))
                    then [CHR ''.'', backslash] else [])
         in join_acc es (b @ dot @ e'))
      else if last b = CHR '':'' then join_acc es (b @ e)
      else join_acc es (b @ backslash # e))"

definition path_join :: "string list \<Rightarrow> string" where
  "path_join es = (let b = join_acc es [] in if b = [] then [] else path_clean b)"

section \<open>Rooted drive paths\<close>

text \<open>
  A path of a drive letter and plain elements is its own clean form, and joining plain
  elements to it appends them. Every path the daemon builds from an ordinary environment
  has this form.
\<close>

definition plain_elem :: "string \<Rightarrow> bool" where
  "plain_elem e \<longleftrightarrow> e \<noteq> [] \<and> \<not> list_ex is_sep e \<and> e \<noteq> ''.'' \<and> e \<noteq> ''..''"

definition drive_path :: "char \<Rightarrow> string list \<Rightarrow> string" where
  "drive_path d es = d # CHR '':'' # concat (map (Cons backslash) es)"

lemma clean_loop_simps:
  "clean_loop rooted [] dotdot out = out"
  "is_sep c \<Longrightarrow> clean_loop rooted (c # cs) dotdot out = clean_loop rooted cs dotdot out"
  by (simp_all add: clean_loop.simps)

lemma clean_loop_elem:
  assumes "plain_elem e" "rest = [] \<or> is_sep (hd rest)"
  shows "clean_loop rooted (e @ rest) dotdot out
    = clean_loop rooted rest dotdot
        (fold lb_append e (if rooted \<and> lb_w out \<noteq> 1 \<or> \<not> rooted \<and> lb_w out \<noteq> 0
                           then lb_append backslash out else out))"
proof -
  have no_sep: "\<forall>c \<in> set e. \<not> is_sep c" using assms(1) by (auto simp: plain_elem_def list_ex_iff)
  obtain c cs where e: "e = c # cs" using assms(1) by (cases e) (auto simp: plain_elem_def)
  have tw: "takeWhile (\<lambda>c. \<not> is_sep c) (e @ rest) = e" "dropWhile (\<lambda>c. \<not> is_sep c) (e @ rest) = rest"
    using no_sep assms(2) by (cases rest; auto)+
  have A: "(c = CHR ''.'' \<and> (cs @ rest = [] \<or> is_sep (hd (cs @ rest)))) = False"
    using assms(1) e no_sep by (cases cs) (auto simp: plain_elem_def)
  have B: "(c = CHR ''.'' \<and> hd (cs @ rest) = CHR ''.''
      \<and> (tl (cs @ rest) = [] \<or> is_sep (hd (tl (cs @ rest))))) = False"
    using assms e no_sep
    by (cases cs; cases "tl cs") (auto simp: plain_elem_def is_sep_def)
  have "is_sep c = False" using no_sep e by simp
  note eqs = this A B tw [unfolded e append_Cons]
  show ?thesis
    unfolding e append_Cons clean_loop.simps [of rooted "c # cs @ rest"] list.case Let_def
      eqs if_False ..
qed

abbreviation at :: "string \<Rightarrow> nat \<Rightarrow> lazybuf" where
  "at p w \<equiv> \<lparr>lb_path = p, lb_buf = None, lb_w = w\<rparr>"

lemma lb_append_match: "w < length p \<Longrightarrow> p ! w = c \<Longrightarrow> lb_append c (at p w) = at p (Suc w)"
  by (simp add: lb_append_def)

lemma fold_append_match: "fold lb_append e (at (pre @ e @ post) (length pre)) = at (pre @ e @ post) (length pre + length e)"
proof (induction e arbitrary: pre)
  case (Cons c e)
  show ?case
    using Cons [of "pre @ [c]"] by (simp add: lb_append_match nth_append)
qed simp

lemma clean_loop_elems:
  assumes "\<forall>e \<in> set es. plain_elem e" "2 \<le> length pre"
  shows "clean_loop True (concat (map (Cons backslash) es)) dotdot
           (at (pre @ concat (map (Cons backslash) es)) (length pre))
       = at (pre @ concat (map (Cons backslash) es)) (length (pre @ concat (map (Cons backslash) es)))"
  using assms
proof (induction es arbitrary: pre)
  case (Cons e es)
  let ?r = "concat (map (Cons backslash) es)"
  have r: "?r = [] \<or> is_sep (hd ?r)" by (cases es) (auto simp: is_sep_def)
  have ap: "lb_append backslash (at (pre @ backslash # e @ ?r) (length pre))
      = at (pre @ backslash # e @ ?r) (Suc (length pre))"
    by (intro lb_append_match) auto
  have fo: "fold lb_append e (at (pre @ backslash # e @ ?r) (Suc (length pre)))
      = at (pre @ backslash # e @ ?r) (Suc (length pre) + length e)"
    using fold_append_match [of e "pre @ [backslash]" ?r] by simp
  show ?case
    using Cons.prems r ap fo Cons.IH [of "pre @ backslash # e"]
    by (simp add: clean_loop_simps is_sep_def clean_loop_elem)
qed (simp add: clean_loop_simps)

lemma from_slash_id: "CHR ''/'' \<notin> set s \<Longrightarrow> from_slash s = s"
  by (auto simp: from_slash_def intro!: map_idI)

lemma drive_path_no_slash:
  "\<forall>e \<in> set es. plain_elem e \<Longrightarrow> d \<noteq> CHR ''/'' \<Longrightarrow> CHR ''/'' \<notin> set (drive_path d es)"
  by (auto simp: drive_path_def plain_elem_def list_ex_iff is_sep_def)

lemma path_clean_drive:
  assumes es: "\<forall>e \<in> set es. plain_elem e" "es \<noteq> []" and d: "d \<noteq> CHR ''/''"
  shows "path_clean (drive_path d es) = drive_path d es"
proof -
  obtain e es' where e: "es = e # es'" using es(2) by (cases es) auto
  let ?r = "concat (map (Cons backslash) es')"
  let ?p = "backslash # e @ ?r"
  have vol: "volume_name_len (drive_path d es) = 2"
    by (simp add: volume_name_len_def drive_path_def)
  have r: "?r = [] \<or> is_sep (hd ?r)" by (cases es') (auto simp: is_sep_def)
  have ne: "e \<noteq> []" using es(1) e by (simp add: plain_elem_def)
  then have len: "2 \<le> length (backslash # e)" by (cases e) auto
  have a1: "lb_append backslash (at ?p 0) = at ?p (Suc 0)" by (simp add: lb_append_def)
  have fo: "fold lb_append e (at ?p (Suc 0)) = at ?p (Suc (length e))"
    using fold_append_match [of e "[backslash]" ?r] by simp
  have "clean_loop True (e @ ?r) 1 (at ?p (Suc 0)) = at ?p (length ?p)"
    using es(1) e r fo clean_loop_elems [OF _ len, of es' 1] by (simp add: clean_loop_elem)
  then show ?thesis
    using vol a1 e drive_path_no_slash [OF es(1) d]
    by (simp add: path_clean_def Let_def drive_path_def is_sep_def post_clean_def lb_string_def
        from_slash_id)
qed

lemma plain_elem_last:
  "plain_elem e \<Longrightarrow> CHR '':'' \<notin> set e \<Longrightarrow> e \<noteq> [] \<and> \<not> is_sep (last e) \<and> last e \<noteq> CHR '':''"
  by (metis last_in_set list_ex_iff plain_elem_def)

lemma join_acc_plain:
  "\<forall>e \<in> set es. plain_elem e \<Longrightarrow> b \<noteq> [] \<Longrightarrow> \<not> is_sep (last b) \<Longrightarrow> last b \<noteq> CHR '':'' \<Longrightarrow>
   \<forall>e \<in> set es. CHR '':'' \<notin> set e \<Longrightarrow> join_acc es b = b @ concat (map (Cons backslash) es)"
proof (induction es arbitrary: b)
  case (Cons e es)
  have e: "e \<noteq> []" "\<not> is_sep (last e)" "last e \<noteq> CHR '':''"
    using Cons.prems plain_elem_last [of e] by auto
  with Cons show ?case by simp
qed simp

lemma path_join_drive:
  assumes "\<forall>e \<in> set (rs @ es). plain_elem e \<and> CHR '':'' \<notin> set e" "rs \<noteq> []" "d \<noteq> CHR ''/''"
  shows "path_join (drive_path d rs # es) = drive_path d (rs @ es)"
proof -
  obtain qs q where rs: "rs = qs @ [q]" using assms(2) by (cases rs rule: rev_cases) auto
  have q: "q \<noteq> []" "\<not> is_sep (last q)" "last q \<noteq> CHR '':''"
    using assms(1) rs plain_elem_last [of q] by auto
  then have "last (drive_path d rs) = last q" by (simp add: drive_path_def rs)
  then have "join_acc es (drive_path d rs) = drive_path d (rs @ es)"
    using assms(1) q join_acc_plain [of es "drive_path d rs"] by (simp add: drive_path_def)
  moreover have "path_clean (drive_path d (rs @ es)) = drive_path d (rs @ es)"
    using assms by (intro path_clean_drive) auto
  ultimately show ?thesis by (simp add: path_join_def drive_path_def)
qed

lemma drive_path_append: "drive_path d (rs @ es) = drive_path d rs @ concat (map (Cons backslash) es)"
  by (simp add: drive_path_def)

end
