(* ===== verification/Go_Format.thy ===== *)
theory Go_Format
  imports Go_Strings
begin

text \<open>
  Go's printing of numbers and quoted strings: \<open>strconv.Itoa\<close> and \<open>%d\<close>, lower-case
  hexadecimal (\<open>hex.EncodeToString\<close>, \<open>%08x\<close>) and \<open>strconv.Quote\<close> (\<open>%q\<close>), with the
  readers that invert the first two.
\<close>

section \<open>Decimal\<close>

definition is_digit :: "char \<Rightarrow> bool" where
  "is_digit c \<longleftrightarrow> 48 \<le> byte c \<and> byte c \<le> 57"

definition digit_val :: "char \<Rightarrow> nat" where
  "digit_val c = byte c - 48"

definition digit_char :: "nat \<Rightarrow> char" where
  "digit_char n = chr (48 + n)"

lemma digit_char_digit [simp]: "n < 10 \<Longrightarrow> is_digit (digit_char n)"
  by (simp add: is_digit_def digit_char_def)

lemma digit_val_char [simp]: "n < 10 \<Longrightarrow> digit_val (digit_char n) = n"
  by (simp add: digit_val_def digit_char_def)

lemma digit_val_less: "is_digit c \<Longrightarrow> digit_val c < 10"
  by (auto simp: is_digit_def digit_val_def)

lemma digit_char_0_iff: "n < 10 \<Longrightarrow> digit_char n = CHR ''0'' \<longleftrightarrow> n = 0"
proof -
  assume "n < 10"
  then have "byte (digit_char n) = byte (CHR ''0'') \<longleftrightarrow> n = 0" by (simp add: digit_char_def)
  then show ?thesis by (simp only: byte_eq_iff)
qed

fun show_nat :: "nat \<Rightarrow> string" where
  "show_nat n = (if n < 10 then [digit_char n] else show_nat (n div 10) @ [digit_char (n mod 10)])"

declare show_nat.simps [simp del]

lemma show_nat_digits: "\<forall>c \<in> set (show_nat n). is_digit c"
proof (induction n rule: show_nat.induct)
  case (1 n)
  then show ?case by (subst show_nat.simps) auto
qed

lemma show_nat_ne [simp]: "show_nat n \<noteq> []"
  by (subst show_nat.simps) simp

text \<open>Reading decimal digits from the left, as \<open>n = n*10 + int(c-'0')\<close> does.\<close>

definition dec_step :: "nat \<Rightarrow> char \<Rightarrow> nat" where
  "dec_step n c = n * 10 + digit_val c"

definition dec_value :: "string \<Rightarrow> nat" where
  "dec_value s = foldl dec_step 0 s"

lemma dec_value_snoc [simp]: "dec_value (s @ [c]) = dec_value s * 10 + digit_val c"
  by (simp add: dec_value_def dec_step_def)

lemma dec_value_show_nat [simp]: "dec_value (show_nat n) = n"
proof (induction n rule: show_nat.induct)
  case (1 n)
  show ?case
  proof (cases "n < 10")
    case True
    then show ?thesis by (subst show_nat.simps) (simp add: dec_value_def dec_step_def)
  next
    case False
    with 1 show ?thesis by (subst show_nat.simps) simp
  qed
qed

lemma show_nat_inj [simp]: "show_nat m = show_nat n \<longleftrightarrow> m = n"
  by (metis dec_value_show_nat)

lemma show_nat_leading: "hd (show_nat n) = CHR ''0'' \<Longrightarrow> n = 0"
proof (induction n rule: show_nat.induct)
  case (1 n)
  show ?case
  proof (cases "n < 10")
    case True
    with "1.prems" show ?thesis by (subst (asm) show_nat.simps) (simp add: digit_char_0_iff)
  next
    case False
    with 1 have "n div 10 = 0" by (subst (asm) (2) show_nat.simps) (simp add: hd_append)
    with False show ?thesis by simp
  qed
qed

lemma show_nat_one_digit: "n < 10 \<Longrightarrow> show_nat n = [digit_char n]"
  by (subst show_nat.simps) simp

lemma show_nat_long: "10 \<le> n \<Longrightarrow> show_nat n = show_nat (n div 10) @ [digit_char (n mod 10)]"
  by (subst show_nat.simps) simp

definition show_int :: "int \<Rightarrow> string" where
  "show_int i = (if i < 0 then CHR ''-'' # show_nat (nat (- i)) else show_nat (nat i))"

lemma show_int_chars: "\<forall>c \<in> set (show_int i). is_digit c \<or> c = CHR ''-''"
  using show_nat_digits by (auto simp: show_int_def)

lemma digit_plain: "is_digit c \<Longrightarrow> plain_char c"
  by (simp add: is_digit_def plain_char_def)

section \<open>Hexadecimal\<close>

definition hex_char :: "nat \<Rightarrow> char" where
  "hex_char n = (if n < 10 then chr (48 + n) else chr (87 + n))"

definition hex_val :: "char \<Rightarrow> nat option" where
  "hex_val c =
     (let b = byte c in
      if 48 \<le> b \<and> b \<le> 57 then Some (b - 48)
      else if 97 \<le> b \<and> b \<le> 102 then Some (b - 87)
      else if 65 \<le> b \<and> b \<le> 70 then Some (b - 55)
      else None)"

lemma hex_val_char [simp]: "n < 16 \<Longrightarrow> hex_val (hex_char n) = Some n"
  by (auto simp: hex_val_def hex_char_def Let_def)

lemma hex_val_less: "hex_val c = Some v \<Longrightarrow> v < 16"
  by (auto simp: hex_val_def Let_def split: if_splits)

lemma hex_char_plain: "n < 16 \<Longrightarrow> plain_char (hex_char n)"
  by (simp add: plain_char_def hex_char_def)

text \<open>\<open>hex.EncodeToString\<close>: two digits for every byte.\<close>

definition hex_byte :: "char \<Rightarrow> string" where
  "hex_byte c = [hex_char (byte c div 16), hex_char (byte c mod 16)]"

definition hex_encode :: "string \<Rightarrow> string" where
  "hex_encode s = concat (map hex_byte s)"

fun hex_decode :: "string \<Rightarrow> string option" where
  "hex_decode [] = Some []"
| "hex_decode [c] = None"
| "hex_decode (c # d # s) =
     (case (hex_val c, hex_val d, hex_decode s) of
        (Some h, Some l, Some t) \<Rightarrow> Some (chr (16 * h + l) # t)
      | _ \<Rightarrow> None)"

lemma hex_nibbles [simp]: "byte c div 16 < 16" "byte c mod 16 < 16"
proof -
  show "byte c div 16 < 16" by (rule less_mult_imp_div_less) simp
qed simp

lemma hex_encode_simps [simp]:
  "hex_encode [] = []"
  "hex_encode (c # s) = hex_char (byte c div 16) # hex_char (byte c mod 16) # hex_encode s"
  by (simp_all add: hex_encode_def hex_byte_def)

lemma hex_decode_encode: "hex_decode (hex_encode s) = Some s"
  by (induction s) simp_all

lemma length_hex_encode [simp]: "length (hex_encode s) = 2 * length s"
  by (induction s) simp_all

lemma hex_encode_plain: "\<forall>c \<in> set (hex_encode s). plain_char c"
  by (induction s) (simp_all add: hex_char_plain)

interpretation hex: codec hex_encode hex_decode "\<lambda>_. True"
  by unfold_locales (rule hex_decode_encode)

text \<open>\<open>%08x\<close> and the \<open>\\uXXXX\<close> digits: the low hexadecimal digits, most significant first.\<close>

fun hex_digits :: "nat \<Rightarrow> nat \<Rightarrow> string" where
  "hex_digits 0 n = []"
| "hex_digits (Suc k) n = hex_digits k (n div 16) @ [hex_char (n mod 16)]"

lemma length_hex_digits [simp]: "length (hex_digits k n) = k"
  by (induction k arbitrary: n) simp_all

section \<open>Quoted strings\<close>

text \<open>\<open>strconv.Quote\<close>, with \<open>isprint\<close> for \<open>unicode.IsPrint\<close> beyond ASCII.\<close>

definition quote_rune :: "(nat \<Rightarrow> bool) \<Rightarrow> nat \<Rightarrow> string" where
  "quote_rune isprint r =
     (if r = 0x22 \<or> r = 0x5C then [CHR 0x5C, chr r]
      else if 0x20 \<le> r \<and> r < 0x7F \<or> 0x80 \<le> r \<and> isprint r then encode_rune r
      else if r = 7 then CHR 0x5C # ''a''
      else if r = 8 then CHR 0x5C # ''b''
      else if r = 12 then CHR 0x5C # ''f''
      else if r = 10 then CHR 0x5C # ''n''
      else if r = 13 then CHR 0x5C # ''r''
      else if r = 9 then CHR 0x5C # ''t''
      else if r = 11 then CHR 0x5C # ''v''
      else if r < 0x20 \<or> r = 0x7F then CHR 0x5C # CHR ''x'' # hex_digits 2 r
      else if r < 0x10000 then CHR 0x5C # CHR ''u'' # hex_digits 4 r
      else CHR 0x5C # CHR ''U'' # hex_digits 8 r)"

function quote_body :: "(nat \<Rightarrow> bool) \<Rightarrow> string \<Rightarrow> string" where
  "quote_body isprint [] = []"
| "quote_body isprint (c # cs) =
     (let (r, w) = decode_rune (c # cs) in
      if w = 1 \<and> r = rune_error
      then CHR 0x5C # CHR ''x'' # hex_digits 2 (byte c) @ quote_body isprint cs
      else quote_rune isprint r @ quote_body isprint (drop (w - 1) cs))"
  by pat_completeness auto
termination
  by (relation "measure (\<lambda>(_, s). length s)") auto

declare quote_body.simps(2) [simp del]

definition go_quote :: "(nat \<Rightarrow> bool) \<Rightarrow> string \<Rightarrow> string" where
  "go_quote isprint s = CHR 0x22 # quote_body isprint s @ [CHR 0x22]"

lemma quote_body_ascii [simp]:
  "byte c < 0x80 \<Longrightarrow> quote_body isprint (c # cs) = quote_rune isprint (byte c) @ quote_body isprint cs"
  by (simp add: quote_body.simps(2) rune_error_def)

end
