(* ===== verification/Daemon_Exec.thy ===== *)
theory Daemon_Exec
  imports Go_Filepath Go_Format "HOL-Library.State_Monad"
begin

text \<open>
  How the Windows daemon runs console tools (\<open>run\<close> and \<open>system32\<close> of
  windows_daemon/firewall.go). The operating system is an environment record: the process
  environment, the Unicode tables and the outcome of a command, which may depend on every
  command run before it. An operation is a state transformer over the log of commands.
\<close>

section \<open>The environment of the daemon\<close>

record env =
  getenv :: "string \<Rightarrow> string"
  uni_fold :: "nat \<Rightarrow> nat"
  uni_print :: "nat \<Rightarrow> bool"

record command =
  cmd_path :: string
  cmd_args :: "string list"
  cmd_flags :: "32 word"

type_synonym log = "command list"

text \<open>The error of \<open>cmd.Run()\<close>, \<open>None\<close> for nil, given the commands run before.\<close>

record os = env +
  exec_result :: "log \<Rightarrow> command \<Rightarrow> string option"

type_synonym 'a exec = "(log, 'a) state"

abbreviation return :: "'a \<Rightarrow> 'a exec" where
  "return \<equiv> State_Monad.return"

definition create_no_window :: "32 word" where
  "create_no_window = 0x08000000"

text \<open>\<open>run\<close>: start the tool and wait for it.\<close>

definition run :: "os \<Rightarrow> string \<Rightarrow> string list \<Rightarrow> string option exec" where
  "run os name args =
     do { h \<leftarrow> State_Monad.get;
          let c = \<lparr>cmd_path = name, cmd_args = args, cmd_flags = create_no_window\<rparr>;
          _ \<leftarrow> State_Monad.set (h @ [c]);
          return (exec_result os h c) }"

definition system32 :: "'a env_scheme \<Rightarrow> string \<Rightarrow> string" where
  "system32 e name =
     (let root = (if getenv e ''SystemRoot'' = [] then drive_path (CHR ''C'') [''Windows'']
                  else getenv e ''SystemRoot'')
      in path_join [root, ''System32'', name])"

definition tool :: "string \<Rightarrow> string list \<Rightarrow> command" where
  "tool path args = \<lparr>cmd_path = path, cmd_args = args, cmd_flags = create_no_window\<rparr>"

lemma run_state_run [simp]:
  "run_state (run os name args) h = (exec_result os h (tool name args), h @ [tool name args])"
  by (simp add: run_def tool_def Let_def)

lemma tool_simps [simp]:
  "cmd_path (tool p a) = p" "cmd_args (tool p a) = a" "cmd_flags (tool p a) = create_no_window"
  "tool p a = tool q b \<longleftrightarrow> p = q \<and> a = b"
  by (auto simp: tool_def)

text \<open>In an ordinary environment a tool is named by an absolute path below System32, so
  neither \<open>PATH\<close> nor the working directory is consulted.\<close>

lemma system32_default:
  assumes "getenv e ''SystemRoot'' = []" "plain_elem name" "CHR '':'' \<notin> set name"
  shows "system32 e name = drive_path (CHR ''C'') [''Windows'', ''System32'', name]"
  using assms path_join_drive [of "[''Windows'']" "[''System32'', name]" "CHR ''C''"]
  by (simp add: system32_def plain_elem_def is_sep_def)

lemma system32_drive:
  assumes "getenv e ''SystemRoot'' = drive_path d rs" "rs \<noteq> []" "d \<noteq> CHR ''/''"
    and "\<forall>r \<in> set (rs @ [name]). plain_elem r \<and> CHR '':'' \<notin> set r"
  shows "system32 e name = drive_path d (rs @ [''System32'', name])"
proof -
  have "drive_path d rs \<noteq> []" by (simp add: drive_path_def)
  then show ?thesis
    using assms path_join_drive [of rs "[''System32'', name]" d]
    by (simp add: system32_def plain_elem_def is_sep_def)
qed

section \<open>Operations confined to a set of commands\<close>

text \<open>\<open>confined ok m\<close>: whatever the log and the outcomes, \<open>m\<close> only appends commands
  that satisfy \<open>ok\<close>.\<close>

definition confined :: "(command \<Rightarrow> bool) \<Rightarrow> 'a exec \<Rightarrow> bool" where
  "confined ok m \<longleftrightarrow> (\<forall>h. \<exists>cs. snd (run_state m h) = h @ cs \<and> list_all ok cs)"

named_theorems confined_intros \<open>composition of confined operations\<close>

lemma confined_return [confined_intros]: "confined ok (return x)"
  by (simp add: confined_def)

lemma confined_bind [confined_intros]:
  assumes "confined ok m" "\<And>x. confined ok (f x)"
  shows "confined ok (State_Monad.bind m f)"
  unfolding confined_def
proof
  fix h
  obtain x h' where m: "run_state m h = (x, h')" by (cases "run_state m h")
  from assms(1) m obtain cs where cs: "h' = h @ cs" "list_all ok cs"
    unfolding confined_def by (metis snd_conv)
  from assms(2) [of x] obtain ds where "snd (run_state (f x) h') = h' @ ds" "list_all ok ds"
    unfolding confined_def by blast
  with m cs show "\<exists>cs. snd (run_state (State_Monad.bind m f) h) = h @ cs \<and> list_all ok cs"
    by (intro exI [of _ "cs @ ds"]) (simp add: run_state_bind)
qed

lemma confined_run [confined_intros]: "ok (tool name args) \<Longrightarrow> confined ok (run os name args)"
  by (simp add: confined_def)

lemma confined_if [confined_intros]:
  "(b \<Longrightarrow> confined ok m) \<Longrightarrow> (\<not> b \<Longrightarrow> confined ok n) \<Longrightarrow> confined ok (if b then m else n)"
  by simp

lemma confined_case_option [confined_intros]:
  "(x = None \<Longrightarrow> confined ok m) \<Longrightarrow> (\<And>y. x = Some y \<Longrightarrow> confined ok (f y)) \<Longrightarrow>
   confined ok (case x of None \<Rightarrow> m | Some y \<Rightarrow> f y)"
  by (cases x) auto

lemma confined_case_sum [confined_intros]:
  "(\<And>y. x = Inl y \<Longrightarrow> confined ok (f y)) \<Longrightarrow> (\<And>y. x = Inr y \<Longrightarrow> confined ok (g y)) \<Longrightarrow>
   confined ok (case x of Inl y \<Rightarrow> f y | Inr y \<Rightarrow> g y)"
  by (cases x) auto

lemma confined_mono: "confined ok m \<Longrightarrow> (\<And>c. ok c \<Longrightarrow> ok' c) \<Longrightarrow> confined ok' m"
  unfolding confined_def by (metis (mono_tags, lifting) list.pred_mono_strong)

lemma confinedD:
  "confined ok m \<Longrightarrow> run_state m h = (x, h') \<Longrightarrow> \<exists>cs. h' = h @ cs \<and> list_all ok cs"
  unfolding confined_def by (metis snd_conv)

section \<open>Plans: commands in order, stopping at the first failure\<close>

text \<open>The abstract form of a Go function that runs tools one after the other and returns
  the first error.\<close>

fun run_plan :: "os \<Rightarrow> command list \<Rightarrow> log \<Rightarrow> string option \<times> log" where
  "run_plan os [] h = (None, h)"
| "run_plan os (c # cs) h =
     (case exec_result os h c of
        Some e \<Rightarrow> (Some e, h @ [c])
      | None \<Rightarrow> run_plan os cs (h @ [c]))"

text \<open>A plan returns nil exactly when it ran all its commands and all succeeded; it
  returns an error exactly when the commands before one succeeded and that one failed, and
  then nothing after it was run.\<close>

lemma run_plan_None:
  "run_plan os cs h = (None, h') \<longleftrightarrow>
     h' = h @ cs \<and> (\<forall>i < length cs. exec_result os (h @ take i cs) (cs ! i) = None)"
proof (induction cs arbitrary: h)
  case (Cons c cs)
  then show ?case
    by (auto simp: All_less_Suc2 split: option.splits)
qed auto

lemma run_plan_Some:
  "run_plan os cs h = (Some e, h') \<longleftrightarrow>
     (\<exists>pre c post. cs = pre @ c # post \<and> run_plan os pre h = (None, h @ pre)
        \<and> exec_result os (h @ pre) c = Some e \<and> h' = h @ pre @ [c])"
proof (induction cs arbitrary: h)
  case (Cons c cs)
  show ?case
  proof (cases "exec_result os h c")
    case None
    have "(\<exists>pre d post. c # cs = pre @ d # post \<and> run_plan os pre h = (None, h @ pre)
          \<and> exec_result os (h @ pre) d = Some e \<and> h' = h @ pre @ [d])
      \<longleftrightarrow> (\<exists>pre d post. cs = pre @ d # post \<and> run_plan os (c # pre) h = (None, h @ c # pre)
          \<and> exec_result os (h @ c # pre) d = Some e \<and> h' = h @ c # pre @ [d])"
      using None by (fastforce simp: Cons_eq_append_conv)
    with None Cons show ?thesis by simp
  next
    case (Some e')
    then show ?thesis by (force simp: Cons_eq_append_conv split: option.splits)
  qed
qed simp

end
