(* ===== verification/Data_Dir.thy ===== *)
theory Data_Dir
  imports Daemon_Exec
begin

text \<open>
  The data directory of the daemon and the shared secret in it (windows_daemon/acl.go and
  \<open>fastflowDir\<close>, \<open>loadOrCreateToken\<close> of security.go). The disk keeps the owner of a
  directory and whether it carries the daemon's protected DACL; the outcome of every
  Windows call is a field of an environment.
\<close>

section \<open>Paths\<close>

definition fastflow_dir :: "'a env_scheme \<Rightarrow> string" where
  "fastflow_dir e =
     (let base = (if getenv e ''ProgramData'' = [] then drive_path (CHR ''C'') [''ProgramData'']
                  else getenv e ''ProgramData'')
      in path_join [base, ''FastFlow''])"

definition token_path :: "'a env_scheme \<Rightarrow> string" where
  "token_path e = path_join [fastflow_dir e, ''daemon.token'']"

definition client_allowlist_path :: "'a env_scheme \<Rightarrow> string" where
  "client_allowlist_path e = path_join [fastflow_dir e, ''client_allowlist.txt'']"

section \<open>The disk and the calls that act on it\<close>

datatype principal = LocalSystem | Administrators | OtherSid string

text \<open>An object of the file system: its owner, whether it carries the daemon's protected DACL,
  and its bytes, \<open>None\<close> for a directory.\<close>

record fs_obj =
  o_owner :: principal
  o_protected :: bool
  o_data :: "string option"

type_synonym disk = "string \<rightharpoonup> fs_obj"

text \<open>Outcomes the daemon does not control: the error of a call, or \<open>None\<close>. \<open>remove_ok\<close> says
  whether an object can be deleted, which another process that holds it open can prevent;
  \<open>write_part\<close> that a write fails after some bytes.\<close>

record api = env +
  sddl_err :: "string \<Rightarrow> string option"
  sddl_owner_err :: "string \<Rightarrow> string option"
  sddl_dacl_err :: "string \<Rightarrow> string option"
  mkdir_err :: "string \<Rightarrow> string option"
  get_sec_err :: "string \<Rightarrow> string option"
  sec_owner_err :: "string \<Rightarrow> string option"
  system_sid_err :: "string option"
  admins_sid_err :: "string option"
  set_sec_err :: "string \<Rightarrow> string option"
  remove_ok :: "string \<Rightarrow> bool"
  read_err :: "string \<Rightarrow> string option"
  write_err :: "string \<Rightarrow> string option"
  write_part :: "string \<Rightarrow> (nat \<times> string) option"
  rand_read :: "string result"

text \<open>\<open>UTF16PtrFromString\<close> fails on a string with a NUL byte.\<close>

definition utf16_ptr :: "string \<Rightarrow> string option" where
  "utf16_ptr s = (if CHR 0x00 \<in> set s then Some ''invalid argument'' else None)"

datatype mkdir_result = Created disk | AlreadyExists | MkdirFailed string

definition create_directory :: "'a api_scheme \<Rightarrow> string \<Rightarrow> disk \<Rightarrow> mkdir_result" where
  "create_directory a dir d =
     (if d dir \<noteq> None then AlreadyExists
      else case mkdir_err a dir of
          Some e \<Rightarrow> MkdirFailed e
        | None \<Rightarrow> Created (d(dir \<mapsto> \<lparr>o_owner = Administrators, o_protected = True, o_data = None\<rparr>)))"

definition set_named_security :: "'a api_scheme \<Rightarrow> string \<Rightarrow> disk \<Rightarrow> string option \<times> disk" where
  "set_named_security a dir d =
     (case set_sec_err a dir of
        Some e \<Rightarrow> (Some e, d)
      | None \<Rightarrow> (case d dir of
            None \<Rightarrow> (Some ''file not found'', d)
          | Some ob \<Rightarrow> (None, d(dir \<mapsto> ob\<lparr>o_owner := Administrators, o_protected := True\<rparr>))))"

definition remove_obj :: "'a api_scheme \<Rightarrow> string \<Rightarrow> disk \<Rightarrow> disk" where
  "remove_obj a p d = (if remove_ok a p then d(p := None) else d)"

definition read_file_at :: "'a api_scheme \<Rightarrow> string \<Rightarrow> disk \<Rightarrow> string result" where
  "read_file_at a p d =
     (case read_err a p of
        Some e \<Rightarrow> Inl e
      | None \<Rightarrow> (case Option.bind (d p) o_data of None \<Rightarrow> Inl ''cannot read'' | Some b \<Rightarrow> Inr b))"

text \<open>\<open>os.WriteFile\<close> opens and truncates the file, then writes: an existing file keeps its owner,
  a new one belongs to the service account, and a write that fails half-way leaves what it wrote.\<close>

definition write_file_at :: "'a api_scheme \<Rightarrow> string \<Rightarrow> string \<Rightarrow> disk \<Rightarrow> string option \<times> disk" where
  "write_file_at a p b d =
     (case write_err a p of
        Some e \<Rightarrow> (Some e, d)
      | None \<Rightarrow>
          (let (err, written) = (case write_part a p of None \<Rightarrow> (None, b) | Some (n, e) \<Rightarrow> (Some e, take n b))
           in case d p of
                None \<Rightarrow> (err, d(p \<mapsto> \<lparr>o_owner = LocalSystem, o_protected = False, o_data = Some written\<rparr>))
              | Some ob \<Rightarrow> (if o_data ob = None then (Some ''is a directory'', d)
                           else (err, d(p \<mapsto> ob\<lparr>o_data := Some written\<rparr>)))))"

section \<open>Securing the directory\<close>

definition sid_string :: "principal \<Rightarrow> string" where
  "sid_string p = (case p of LocalSystem \<Rightarrow> ''S-1-5-18'' | Administrators \<Rightarrow> ''S-1-5-32-544'' | OtherSid s \<Rightarrow> s)"

definition trusted :: "principal \<Rightarrow> bool" where
  "trusted p \<longleftrightarrow> p = LocalSystem \<or> p = Administrators"

definition verify_dir_trusted :: "'a api_scheme \<Rightarrow> string \<Rightarrow> disk \<Rightarrow> string option" where
  "verify_dir_trusted a dir d =
     (case (get_sec_err a dir, d dir) of
        (Some e, _) \<Rightarrow> Some e
      | (None, None) \<Rightarrow> Some ''file not found''
      | (None, Some ob) \<Rightarrow>
          (case (sec_owner_err a dir, system_sid_err a, admins_sid_err a) of
             (Some e, _, _) \<Rightarrow> Some e
           | (None, Some e, _) \<Rightarrow> Some e
           | (None, None, Some e) \<Rightarrow> Some e
           | (None, None, None) \<Rightarrow>
               if o_owner ob = LocalSystem \<or> o_owner ob = Administrators then None
               else Some (''untrusted owner on '' @ go_quote (uni_print a) dir @ '': ''
                          @ sid_string (o_owner ob))))"

text \<open>The security descriptor of the daemon, parsed first; each of its parts can fail.\<close>

definition fastflow_sddl :: string where
  "fastflow_sddl = ''O:BAG:BAD:P(A;OICI;FA;;;SY)(A;OICI;FA;;;BA)(A;OICI;FR;;;BU)''"

definition descriptor_err :: "'a api_scheme \<Rightarrow> string \<Rightarrow> string option" where
  "descriptor_err a dir =
     (case (sddl_err a fastflow_sddl, sddl_owner_err a fastflow_sddl, sddl_dacl_err a fastflow_sddl) of
        (Some e, _, _) \<Rightarrow> Some (''parse sddl: '' @ e)
      | (None, Some e, _) \<Rightarrow> Some (''read sddl owner: '' @ e)
      | (None, None, Some e) \<Rightarrow> Some (''read sddl dacl: '' @ e)
      | (None, None, None) \<Rightarrow> utf16_ptr dir)"

definition ensure_secure_dir :: "'a api_scheme \<Rightarrow> string \<Rightarrow> disk \<Rightarrow> string option \<times> disk" where
  "ensure_secure_dir a dir d =
     (case descriptor_err a dir of
        Some e \<Rightarrow> (Some e, d)
      | None \<Rightarrow>
          (case create_directory a dir d of
             Created d' \<Rightarrow> (None, d')
           | MkdirFailed e \<Rightarrow> (Some (''create '' @ go_quote (uni_print a) dir @ '': '' @ e), d)
           | AlreadyExists \<Rightarrow>
               if verify_dir_trusted a dir d = None then (None, d)
               else case set_named_security a dir d of
                   (Some e, d') \<Rightarrow> (Some (''reclaim '' @ go_quote (uni_print a) dir @ '': '' @ e), d')
                 | (None, d') \<Rightarrow>
                     (None, remove_obj a (client_allowlist_path a) (remove_obj a (token_path a) d'))))"

section \<open>The shared secret\<close>

text \<open>\<open>rand.Read(buf)\<close> fills a buffer of 32 bytes.\<close>

definition rand_buf :: "string \<Rightarrow> string" where
  "rand_buf b = take 32 (b @ replicate 32 (CHR 0x00))"

definition load_or_create_token :: "'a api_scheme \<Rightarrow> disk \<Rightarrow> string result \<times> disk" where
  "load_or_create_token a d =
     (case ensure_secure_dir a (fastflow_dir a) d of
        (Some e, d1) \<Rightarrow> (Inl (''secure data dir: '' @ e), d1)
      | (None, d1) \<Rightarrow>
          (let p = token_path a;
               fresh = (case rand_read a of
                   Inl e \<Rightarrow> (Inl e, d1)
                 | Inr b \<Rightarrow>
                     (let tok = hex_encode (rand_buf b) in
                      case write_file_at a p tok d1 of
                        (Some e, d2) \<Rightarrow> (Inl e, d2)
                      | (None, d2) \<Rightarrow> (Inr tok, d2)))
           in case read_file_at a p d1 of
                Inr b \<Rightarrow> (let t = trim_space b in if 32 \<le> length t then (Inr t, d1) else fresh)
              | Inl _ \<Rightarrow> fresh))"

section \<open>Lemmas\<close>

lemma ensure_secure_other:
  "ensure_secure_dir a dir d = (r, d') \<Longrightarrow> p \<notin> {dir, token_path a, client_allowlist_path a} \<Longrightarrow> d' p = d p"
  by (auto simp: ensure_secure_dir_def create_directory_def set_named_security_def remove_obj_def
      split: option.splits if_splits)

lemma verify_trusted: "verify_dir_trusted a dir d = None \<Longrightarrow> \<exists>ob. d dir = Some ob \<and> trusted (o_owner ob)"
  by (auto simp: verify_dir_trusted_def trusted_def split: option.splits if_splits)

text \<open>The data directory is not one of the files below it.\<close>

definition dir_apart :: "'a env_scheme \<Rightarrow> bool" where
  "dir_apart e \<longleftrightarrow> fastflow_dir e \<notin> {token_path e, client_allowlist_path e}"

lemma ensure_secure_owner:
  assumes "ensure_secure_dir a dir d = (None, d')" "dir \<notin> {token_path a, client_allowlist_path a}"
  shows "\<exists>ob. d' dir = Some ob \<and> trusted (o_owner ob)"
  using assms
  by (auto simp: ensure_secure_dir_def create_directory_def set_named_security_def remove_obj_def
      trusted_def dest!: verify_trusted split: option.splits if_splits)

lemma length_rand_buf [simp]: "length (rand_buf b) = 32"
  by (simp add: rand_buf_def)

lemma load_token_cases:
  assumes "load_or_create_token a d = (Inr t, d')"
  obtains (kept) b where "ensure_secure_dir a (fastflow_dir a) d = (None, d')"
      "read_file_at a (token_path a) d' = Inr b" "t = trim_space b" "32 \<le> length t"
  | (fresh) d1 b where "ensure_secure_dir a (fastflow_dir a) d = (None, d1)"
      "\<not> (\<exists>b. read_file_at a (token_path a) d1 = Inr b \<and> 32 \<le> length (trim_space b))"
      "rand_read a = Inr b" "t = hex_encode (rand_buf b)"
      "write_file_at a (token_path a) t d1 = (None, d')"
  using assms
  by (auto simp: load_or_create_token_def Let_def split: prod.splits option.splits sum.splits if_splits)

lemma write_file_read:
  "write_file_at a p b d = (None, d') \<Longrightarrow> \<exists>ob. d' p = Some ob \<and> o_data ob = Some b"
  by (auto simp: write_file_at_def split: option.splits if_splits)

lemma write_file_owner:
  "write_file_at a p b d = (None, d') \<Longrightarrow> \<exists>ob. d q = Some ob \<and> trusted (o_owner ob) \<Longrightarrow>
   \<exists>ob. d' q = Some ob \<and> trusted (o_owner ob)"
  by (auto simp: write_file_at_def split: option.splits if_splits)

lemma trim_space_hex: "trim_space (hex_encode s) = hex_encode s"
  by (rule trim_space_plain) (rule hex_encode_plain)

text \<open>A run in which Windows refuses nothing that reading the token needs.\<close>

definition healthy :: "'a api_scheme \<Rightarrow> bool" where
  "healthy a \<longleftrightarrow> descriptor_err a (fastflow_dir a) = None \<and> get_sec_err a (fastflow_dir a) = None
     \<and> sec_owner_err a (fastflow_dir a) = None \<and> system_sid_err a = None \<and> admins_sid_err a = None
     \<and> read_err a (token_path a) = None"

lemma healthy_reload:
  assumes "healthy a" "d (fastflow_dir a) = Some ob" "trusted (o_owner ob)"
    and "Option.bind (d (token_path a)) o_data = Some b" "32 \<le> length (trim_space b)"
  shows "load_or_create_token a d = (Inr (trim_space b), d)"
proof -
  have "ensure_secure_dir a (fastflow_dir a) d = (None, d)"
    using assms(1-3)
    by (auto simp: ensure_secure_dir_def create_directory_def verify_dir_trusted_def healthy_def trusted_def)
  then show ?thesis
    using assms by (simp add: load_or_create_token_def read_file_at_def healthy_def)
qed

lemma paths_of_getenv:
  "getenv a' = getenv a \<Longrightarrow> fastflow_dir a' = fastflow_dir a \<and> token_path a' = token_path a"
  by (simp add: fastflow_dir_def token_path_def)

lemma fastflow_dir_default:
  "getenv e ''ProgramData'' = [] \<Longrightarrow> fastflow_dir e = drive_path (CHR ''C'') [''ProgramData'', ''FastFlow'']"
  using path_join_drive [of "[''ProgramData'']" "[''FastFlow'']" "CHR ''C''"]
  by (simp add: fastflow_dir_def plain_elem_def is_sep_def)

lemma paths_default:
  assumes "getenv e ''ProgramData'' = []"
  shows "token_path e = drive_path (CHR ''C'') [''ProgramData'', ''FastFlow'', ''daemon.token'']"
    and "client_allowlist_path e = drive_path (CHR ''C'') [''ProgramData'', ''FastFlow'', ''client_allowlist.txt'']"
    and "dir_apart e"
  using assms path_join_drive [of "[''ProgramData'', ''FastFlow'']" "[''daemon.token'']" "CHR ''C''"]
    path_join_drive [of "[''ProgramData'', ''FastFlow'']" "[''client_allowlist.txt'']" "CHR ''C''"]
  by (simp_all add: token_path_def client_allowlist_path_def dir_apart_def fastflow_dir_default
      plain_elem_def is_sep_def drive_path_def)

text \<open>Windows calls that all succeed, for the witnesses; the random bytes are zero.\<close>

definition calm_api :: api where
  "calm_api = \<lparr>getenv = (\<lambda>_. []), uni_fold = (\<lambda>r. r), uni_print = (\<lambda>_. False),
     sddl_err = (\<lambda>_. None), sddl_owner_err = (\<lambda>_. None), sddl_dacl_err = (\<lambda>_. None), mkdir_err = (\<lambda>_. None),
     get_sec_err = (\<lambda>_. None), sec_owner_err = (\<lambda>_. None), system_sid_err = None,
     admins_sid_err = None, set_sec_err = (\<lambda>_. None), remove_ok = (\<lambda>_. True),
     read_err = (\<lambda>_. None), write_err = (\<lambda>_. None), write_part = (\<lambda>_. None), rand_read = Inr []\<rparr>"

lemma calm_api_sel [simp]:
  "getenv calm_api = (\<lambda>_. [])" "sddl_err calm_api = (\<lambda>_. None)" "sddl_owner_err calm_api = (\<lambda>_. None)"
  "sddl_dacl_err calm_api = (\<lambda>_. None)" "mkdir_err calm_api = (\<lambda>_. None)"
  "get_sec_err calm_api = (\<lambda>_. None)" "sec_owner_err calm_api = (\<lambda>_. None)"
  "system_sid_err calm_api = None" "admins_sid_err calm_api = None" "set_sec_err calm_api = (\<lambda>_. None)"
  "remove_ok calm_api = (\<lambda>_. True)" "read_err calm_api = (\<lambda>_. None)"
  "write_err calm_api = (\<lambda>_. None)" "write_part calm_api = (\<lambda>_. None)" "rand_read calm_api = Inr []"
  by (simp_all add: calm_api_def)

lemma calm_paths:
  "fastflow_dir calm_api = drive_path (CHR ''C'') [''ProgramData'', ''FastFlow'']"
  "token_path calm_api = drive_path (CHR ''C'') [''ProgramData'', ''FastFlow'', ''daemon.token'']"
  "client_allowlist_path calm_api = drive_path (CHR ''C'') [''ProgramData'', ''FastFlow'', ''client_allowlist.txt'']"
  "dir_apart calm_api"
  by (rule fastflow_dir_default paths_default; simp)+

lemma calm_ptr: "utf16_ptr (fastflow_dir calm_api) = None"
  by (simp add: calm_paths utf16_ptr_def drive_path_def)

lemma calm_healthy: "healthy calm_api"
  using calm_ptr by (simp add: healthy_def descriptor_err_def)

text \<open>A first start on an empty disk.\<close>

lemma calm_first_start:
  "\<exists>d. load_or_create_token calm_api Map.empty = (Inr (hex_encode (rand_buf [])), d)"
  using calm_ptr
  by (simp add: load_or_create_token_def ensure_secure_dir_def descriptor_err_def create_directory_def
      read_file_at_def write_file_at_def calm_paths drive_path_def Let_def)

text \<open>A disk on which someone else made the directory and planted a token.\<close>

definition planted_token :: string where
  "planted_token = replicate 32 (CHR ''x'')"

definition squatted :: disk where
  "squatted = [fastflow_dir calm_api \<mapsto> \<lparr>o_owner = OtherSid ''S-1-5-21-7'', o_protected = False, o_data = None\<rparr>,
     token_path calm_api \<mapsto> \<lparr>o_owner = OtherSid ''S-1-5-21-7'', o_protected = False, o_data = Some planted_token\<rparr>]"

lemma squatted_sel:
  "squatted (fastflow_dir calm_api) = Some \<lparr>o_owner = OtherSid ''S-1-5-21-7'', o_protected = False, o_data = None\<rparr>"
  "squatted (token_path calm_api) = Some \<lparr>o_owner = OtherSid ''S-1-5-21-7'', o_protected = False, o_data = Some planted_token\<rparr>"
  using calm_paths(4) by (simp_all add: squatted_def dir_apart_def)

lemma planted_token_facts: "trim_space planted_token = planted_token" "length planted_token = 32"
  by (simp_all add: planted_token_def plain_char_def)

lemma squatted_start:
  "\<exists>d. load_or_create_token calm_api squatted = (Inr (hex_encode (rand_buf [])), d)"
proof -
  have "verify_dir_trusted calm_api (fastflow_dir calm_api) squatted \<noteq> None"
    using squatted_sel by (simp add: verify_dir_trusted_def)
  then have e: "ensure_secure_dir calm_api (fastflow_dir calm_api) squatted
      = (None, (squatted(fastflow_dir calm_api \<mapsto> \<lparr>o_owner = Administrators, o_protected = True, o_data = None\<rparr>))
           (token_path calm_api := None, client_allowlist_path calm_api := None))"
    using calm_ptr squatted_sel
    by (auto simp: ensure_secure_dir_def descriptor_err_def create_directory_def set_named_security_def
        remove_obj_def)
  show ?thesis
    using e by (simp add: load_or_create_token_def read_file_at_def write_file_at_def Let_def)
qed

lemma load_token_on_disk:
  assumes "load_or_create_token a d = (Inr t, d')"
  shows "32 \<le> length t \<and> (\<exists>b. Option.bind (d' (token_path a)) o_data = Some b \<and> t = trim_space b)
    \<and> (Option.bind (d (token_path a)) o_data = Option.bind (d' (token_path a)) o_data
       \<or> (\<exists>b. rand_read a = Inr b \<and> t = hex_encode (rand_buf b)))"
  using assms
proof (cases rule: load_token_cases)
  case (kept b)
  then have "Option.bind (d' (token_path a)) o_data = Some b"
    by (simp add: read_file_at_def split: option.splits)
  moreover from this have "Option.bind (d (token_path a)) o_data = Some b"
    using kept(1)
    by (auto simp: ensure_secure_dir_def create_directory_def set_named_security_def remove_obj_def
        bind_eq_Some_conv split: option.splits if_splits)
  ultimately show ?thesis using kept by auto
next
  case (fresh d1 b)
  then show ?thesis using write_file_read [OF fresh(5)] by (force simp: trim_space_hex)
qed

section \<open>Properties\<close>

text \<open>A token the daemon starts with has at least 32 bytes, is the trimmed content of the
  token file afterwards, and is either what that file held before or 32 fresh random bytes in
  hexadecimal.\<close>

lemma token_on_disk:
  assumes "load_or_create_token a d = (Inr t, d')"
  shows "32 \<le> length t \<and> (\<exists>b. Option.bind (d' (token_path a)) o_data = Some b \<and> t = trim_space b)
    \<and> (Option.bind (d (token_path a)) o_data = Option.bind (d' (token_path a)) o_data
       \<or> (\<exists>b. rand_read a = Inr b \<and> t = hex_encode (rand_buf b)))"
  using assms by (rule load_token_on_disk)

text \<open>C6. A restart keeps the secret: once the daemon has started with a token, every later
  healthy start in the same environment returns the same token and leaves the disk alone,
  whatever random bytes it could draw.\<close>

theorem token_survives_restart:
  assumes "load_or_create_token a d = (Inr t, d')" "dir_apart a"
    and "healthy a'" "getenv a' = getenv a"
  shows "load_or_create_token a' d' = (Inr t, d')"
proof -
  note p = paths_of_getenv [OF assms(4)]
  show ?thesis
    using assms(1)
  proof (cases rule: load_token_cases)
    case (kept b)
    obtain ob where "d' (fastflow_dir a) = Some ob" "trusted (o_owner ob)"
      using ensure_secure_owner [OF kept(1)] assms(2) by (auto simp: dir_apart_def)
    moreover have "Option.bind (d' (token_path a)) o_data = Some b"
      using kept(2) by (simp add: read_file_at_def split: option.splits)
    ultimately show ?thesis using healthy_reload [OF assms(3)] kept p by metis
  next
    case (fresh d1 b)
    have "\<exists>ob. d1 (fastflow_dir a) = Some ob \<and> trusted (o_owner ob)"
      using ensure_secure_owner [OF fresh(1)] assms(2) by (auto simp: dir_apart_def)
    then obtain ob where "d' (fastflow_dir a) = Some ob" "trusted (o_owner ob)"
      using write_file_owner [OF fresh(5)] by blast
    moreover have "Option.bind (d' (token_path a)) o_data = Some t"
      using write_file_read [OF fresh(5)] by auto
    moreover have "trim_space t = t" "32 \<le> length t" using fresh(4) by (simp_all add: trim_space_hex)
    ultimately show ?thesis using healthy_reload [OF assms(3)] p by metis
  qed
qed

theorem token_survives_restart_witness:
  "\<exists>d. load_or_create_token calm_api Map.empty = (Inr (hex_encode (rand_buf [])), d)
     \<and> load_or_create_token (calm_api\<lparr>rand_read := Inl ''no entropy''\<rparr>) d = (Inr (hex_encode (rand_buf [])), d)"
proof -
  obtain d where d: "load_or_create_token calm_api Map.empty = (Inr (hex_encode (rand_buf [])), d)"
    using calm_first_start by blast
  let ?a = "calm_api\<lparr>rand_read := Inl ''no entropy''\<rparr>"
  have "getenv ?a = getenv calm_api" by simp
  moreover have "healthy ?a"
    using calm_healthy paths_of_getenv [OF calculation] by (simp add: healthy_def descriptor_err_def)
  ultimately show ?thesis
    using token_survives_restart [OF d calm_paths(4), of ?a] d by blast
qed

text \<open>When the directory was made by someone else and the token file can be deleted, a
  token that was planted in it is never used: the daemon draws a fresh one.\<close>

lemma reclaim_fresh:
  assumes "d (fastflow_dir a) = Some ob" "\<not> trusted (o_owner ob)" "remove_ok a (token_path a)"
    and "load_or_create_token a d = (Inr t, d')"
  shows "\<exists>b. rand_read a = Inr b \<and> t = hex_encode (rand_buf b)"
  using assms(4)
proof (cases rule: load_token_cases)
  case (kept b)
  have "verify_dir_trusted a (fastflow_dir a) d \<noteq> None"
    using assms(1,2) verify_trusted by fastforce
  then have "d' (token_path a) = None"
    using kept(1) assms(1,3)
    by (auto simp: ensure_secure_dir_def create_directory_def set_named_security_def remove_obj_def
        split: option.splits if_splits)
  with kept(2) show ?thesis by (simp add: read_file_at_def split: option.splits)
qed auto

text \<open>C30. When the deletion fails, because the squatter still holds the file open, the error is
  dropped and the token the squatter chose becomes the secret of the daemon.\<close>

theorem reclaim_keeps_held_token:
  assumes "healthy a" "set_sec_err a (fastflow_dir a) = None" "dir_apart a"
    and "d (fastflow_dir a) = Some ob" "\<not> trusted (o_owner ob)"
    and "\<not> remove_ok a (token_path a)" "token_path a \<noteq> client_allowlist_path a"
    and "Option.bind (d (token_path a)) o_data = Some b" "32 \<le> length (trim_space b)"
  shows "fst (load_or_create_token a d) = Inr (trim_space b)"
proof -
  have v: "verify_dir_trusted a (fastflow_dir a) d \<noteq> None"
    using assms(4,5) verify_trusted by fastforce
  obtain d1 where d1: "ensure_secure_dir a (fastflow_dir a) d = (None, d1)" "d1 (token_path a) = d (token_path a)"
    using assms v
    by (auto simp: ensure_secure_dir_def create_directory_def set_named_security_def remove_obj_def
        healthy_def dir_apart_def)
  have "read_file_at a (token_path a) d1 = Inr b"
    using assms(1,8) d1(2) by (simp add: read_file_at_def healthy_def)
  with d1 assms(9) show ?thesis by (simp add: load_or_create_token_def)
qed

theorem reclaim_keeps_held_token_witness:
  "fst (load_or_create_token (calm_api\<lparr>remove_ok := \<lambda>_. False\<rparr>) squatted) = Inr planted_token"
proof -
  let ?a = "calm_api\<lparr>remove_ok := \<lambda>_. False\<rparr>"
  have g: "getenv ?a = getenv calm_api" by simp
  have c: "client_allowlist_path ?a = client_allowlist_path calm_api"
    using paths_of_getenv [OF g] by (simp add: client_allowlist_path_def)
  have h: "healthy ?a"
    using calm_healthy paths_of_getenv [OF g] by (simp add: healthy_def descriptor_err_def)
  have da: "dir_apart ?a"
    using calm_paths(4) c paths_of_getenv [OF g] by (simp add: dir_apart_def)
  have ne: "token_path ?a \<noteq> client_allowlist_path ?a"
    unfolding c using paths_of_getenv [OF g] by (simp add: calm_paths drive_path_def)
  show ?thesis
    using reclaim_keeps_held_token [OF h _ da, of squatted _ planted_token] ne
      squatted_sel paths_of_getenv [OF g] planted_token_facts
    by (simp add: trusted_def)
qed

text \<open>Securing the directory succeeds only with a directory that LocalSystem or the
  administrators own, and touches nothing but the directory, the token and the allow list.\<close>

lemma ensure_secure_dir_owner:
  assumes "ensure_secure_dir a dir d = (None, d')" "dir \<notin> {token_path a, client_allowlist_path a}"
  shows "(\<exists>ob. d' dir = Some ob \<and> trusted (o_owner ob))
    \<and> (\<forall>p. p \<notin> {dir, token_path a, client_allowlist_path a} \<longrightarrow> d' p = d p)"
  using ensure_secure_owner [OF assms] ensure_secure_other [OF assms(1)] by simp

text \<open>C29. A start that could not write the whole token fails and leaves what it wrote. The next
  healthy start takes the beginning of the token for the secret when at least 32 of its digits
  were written, and draws a fresh token otherwise; a shorter secret is never used.\<close>

theorem interrupted_token_write:
  assumes "ensure_secure_dir a (fastflow_dir a) d = (None, d1)" "d1 (token_path a) = None" "dir_apart a"
    and "rand_read a = Inr b" "write_err a (token_path a) = None" "write_part a (token_path a) = Some (n, e)"
    and "healthy a'" "getenv a' = getenv a"
  shows "fst (load_or_create_token a d) = Inl e
    \<and> (32 \<le> n \<longrightarrow> load_or_create_token a' (snd (load_or_create_token a d))
          = (Inr (take n (hex_encode (rand_buf b))), snd (load_or_create_token a d)))
    \<and> (n < 32 \<longrightarrow> rand_read a' = Inr b' \<longrightarrow> write_err a' (token_path a) = None \<longrightarrow>
          write_part a' (token_path a) = None \<longrightarrow>
          fst (load_or_create_token a' (snd (load_or_create_token a d))) = Inr (hex_encode (rand_buf b')))"
proof -
  let ?p = "token_path a" and ?t = "hex_encode (rand_buf b)"
  let ?d = "d1(?p \<mapsto> \<lparr>o_owner = LocalSystem, o_protected = False, o_data = Some (take n ?t)\<rparr>)"
  note paths = paths_of_getenv [OF assms(8)]
  have first: "load_or_create_token a d = (Inl e, ?d)"
    using assms(1,2,4-6) by (simp add: load_or_create_token_def read_file_at_def write_file_at_def Let_def split: option.splits)
  obtain ob where "d1 (fastflow_dir a) = Some ob" "trusted (o_owner ob)"
    using ensure_secure_owner [OF assms(1)] assms(3) by (auto simp: dir_apart_def)
  then have dir: "?d (fastflow_dir a') = Some ob" "trusted (o_owner ob)"
    using assms(3) paths by (simp_all add: dir_apart_def)
  have data: "Option.bind (?d (token_path a')) o_data = Some (take n ?t)" by (simp add: paths)
  have trim: "trim_space (take n ?t) = take n ?t"
    using hex_encode_plain [of "rand_buf b"] by (intro trim_space_plain) (auto dest: in_set_takeD)
  have len: "length ?t = 64" by simp
  have "ensure_secure_dir a' (fastflow_dir a') ?d = (None, ?d)"
    using assms(7) dir
    by (auto simp: ensure_secure_dir_def create_directory_def verify_dir_trusted_def healthy_def trusted_def)
  then have "fst (load_or_create_token a' ?d) = Inr (hex_encode (rand_buf b'))"
    if "n < 32" "rand_read a' = Inr b'" "write_err a' ?p = None" "write_part a' ?p = None"
    using that assms(7) trim by (simp add: load_or_create_token_def read_file_at_def write_file_at_def healthy_def paths Let_def)
  moreover have "load_or_create_token a' ?d = (Inr (take n ?t), ?d)" if "32 \<le> n"
  proof -
    have "32 \<le> length (trim_space (take n ?t))" unfolding trim using len that by simp
    from healthy_reload [OF assms(7) dir data this] show ?thesis unfolding trim .
  qed
  ultimately show ?thesis by (simp add: first)
qed

theorem interrupted_token_write_witness:
  "\<exists>d. load_or_create_token (calm_api\<lparr>write_part := \<lambda>_. Some (40, ''disk full'')\<rparr>) Map.empty = (Inl ''disk full'', d)
     \<and> load_or_create_token calm_api d = (Inr (replicate 40 (CHR ''0'')), d)"
proof -
  let ?a = "calm_api\<lparr>write_part := \<lambda>_. Some (40, ''disk full'')\<rparr>"
  have g: "getenv ?a = getenv calm_api" by simp
  note p = paths_of_getenv [OF g]
  let ?d1 = "[fastflow_dir calm_api \<mapsto> \<lparr>o_owner = Administrators, o_protected = True, o_data = None\<rparr>]"
  have e: "ensure_secure_dir ?a (fastflow_dir ?a) Map.empty = (None, ?d1)"
    using calm_ptr p by (simp add: ensure_secure_dir_def descriptor_err_def create_directory_def)
  have da: "dir_apart ?a" "?d1 (token_path ?a) = None"
    using calm_paths(4) p by (auto simp: dir_apart_def client_allowlist_path_def)
  have t: "take 40 (hex_encode (rand_buf [])) = replicate 40 (CHR ''0'')" by code_simp
  from interrupted_token_write [OF e da(2,1) _ _ _ calm_healthy, of "[]" 40 "''disk full''"] t show ?thesis
    by (intro exI [of _ "snd (load_or_create_token ?a Map.empty)"]) (simp add: prod_eq_iff)
qed

end
