(* ===== verification/Peer.thy ===== *)
theory Peer
  imports Data_Dir
begin

text \<open>
  Who may drive the daemon (\<open>verifyClient\<close> and \<open>processImagePath\<close> of
  windows_daemon/security.go): the process that connected must run the installed client, by
  the path of its image. The signature checks of Authenticode.thy are not called by the code.
\<close>

section \<open>Model\<close>

definition expected_client_name :: string where
  "expected_client_name = ''fastflow_vpn.exe''"

definition program_files_dir :: "'a env_scheme \<Rightarrow> string" where
  "program_files_dir e =
     (if getenv e ''ProgramFiles'' \<noteq> [] then getenv e ''ProgramFiles''
      else drive_path (CHR ''C'') [''Program Files''])"

definition expected_client_path :: "'a env_scheme \<Rightarrow> string" where
  "expected_client_path e = path_join [program_files_dir e, ''FastFlow'', expected_client_name]"

text \<open>The process calls: opening a process gives a handle, and the image name of a handle is
  read into a buffer of so many characters.\<close>

record process_api = env +
  open_process :: "32 word \<Rightarrow> string + nat"
  image_name :: "nat \<Rightarrow> nat \<Rightarrow> string result"

datatype process_call =
    OpenProcess "32 word"
  | QueryFullProcessImageName nat nat
  | CloseProcess nat

definition max_path :: nat where
  "max_path = 260"

definition process_image_path :: "'a process_api_scheme \<Rightarrow> 32 word \<Rightarrow> string result \<times> process_call list" where
  "process_image_path a pid =
     (case open_process a pid of
        Inl e \<Rightarrow> (Inl e, [OpenProcess pid])
      | Inr h \<Rightarrow> (image_name a h max_path,
                  [OpenProcess pid, QueryFullProcessImageName h max_path, CloseProcess h]))"

definition verify_client :: "'a process_api_scheme \<Rightarrow> 32 word \<Rightarrow> string result \<times> process_call list" where
  "verify_client a pid =
     (case process_image_path a pid of
        (Inl e, cs) \<Rightarrow> (Inl (''resolve image for pid '' @ show_nat (unat pid) @ '': '' @ e), cs)
      | (Inr path, cs) \<Rightarrow>
          (if \<not> equal_fold (uni_fold a) path (expected_client_path a)
           then (Inl (''client '' @ go_quote (uni_print a) path @ '' is not the installed GUI''), cs)
           else (Inr path, cs)))"

section \<open>Folding a long path\<close>

lemma equal_fold_ascii_prefix: "is_ascii p \<Longrightarrow> equal_fold uf (p @ s) (p @ t) \<longleftrightarrow> equal_fold uf s t"
  by (induction p) (simp_all add: equal_fold.simps [of uf "_ # _"])

text \<open>The long s, U+017F, folds to s.\<close>

definition long_s :: string where
  "long_s = [CHR 0xC5, CHR 0xBF]"

lemma decode_long_s: "decode_rune (long_s @ s) = (0x17F, 2)"
  by (simp add: long_s_def decode_rune.simps(2) is_cont_def)

lemma rune_fold_long_s: "rune_fold_eq uf 0x17F 0x73"
  by (simp add: rune_fold_eq_def Let_def simple_fold_def fold_loop.simps eval_nat_numeral)

lemma equal_fold_long_s: "equal_fold uf (long_s @ s) (CHR ''s'' # t) \<longleftrightarrow> equal_fold uf s t"
proof -
  have "equal_fold uf (long_s @ s) (CHR ''s'' # t)
      = equal_fold uf (drop 2 (long_s @ s)) (drop 1 (CHR ''s'' # t))"
    using rune_fold_long_s [of uf] decode_long_s [of s]
    by (subst equal_fold.simps) (simp add: long_s_def)
  then show ?thesis by (simp add: long_s_def)
qed

lemma expected_path_default:
  assumes "getenv e ''ProgramFiles'' = []"
  shows "expected_client_path e = drive_path (CHR ''C'') [''Program Files'', ''FastFlow'', ''fastflow_vpn.exe'']"
  using assms path_join_drive [of "[''Program Files'']" "[''FastFlow'', ''fastflow_vpn.exe'']" "CHR ''C''"]
  by (simp add: expected_client_path_def program_files_dir_def expected_client_name_def
      plain_elem_def is_sep_def)

section \<open>Verified peers\<close>

text \<open>The contract of a peer check: it passes only peers whose path is acceptable.\<close>

locale peer_check =
  fixes verify :: "32 word \<Rightarrow> string result"
    and acceptable :: "string \<Rightarrow> bool"
  assumes verify_acceptable: "verify pid = Inr path \<Longrightarrow> acceptable path"

lemma verify_client_Inr:
  "fst (verify_client a pid) = Inr path \<longleftrightarrow>
     (\<exists>h. open_process a pid = Inr h \<and> image_name a h max_path = Inr path)
     \<and> equal_fold (uni_fold a) path (expected_client_path a)"
  by (auto simp: verify_client_def process_image_path_def split: sum.splits prod.splits if_splits)

definition client_path_ok :: "'a process_api_scheme \<Rightarrow> string \<Rightarrow> bool" where
  "client_path_ok a path \<longleftrightarrow> equal_fold (uni_fold a) path (expected_client_path a)"

interpretation gui: peer_check "\<lambda>pid. fst (verify_client a pid)" "client_path_ok a"
  by unfold_locales (simp add: verify_client_Inr client_path_ok_def)

section \<open>Properties\<close>

text \<open>A process is accepted exactly when it can be opened, its image name can be read, and
  the name equals the path of the installed client under case folding; the path returned is
  that image name. The process handle is closed once whenever it was opened.\<close>

lemma verify_client_accepts:
  "(fst (verify_client a pid) = Inr path \<longleftrightarrow>
     (\<exists>h. open_process a pid = Inr h \<and> image_name a h max_path = Inr path)
     \<and> equal_fold (uni_fold a) path (expected_client_path a))
   \<and> (case open_process a pid of
        Inl _ \<Rightarrow> snd (verify_client a pid) = [OpenProcess pid]
      | Inr h \<Rightarrow> snd (verify_client a pid)
            = [OpenProcess pid, QueryFullProcessImageName h max_path, CloseProcess h])"
  by (simp add: verify_client_Inr)
    (auto simp: verify_client_def process_image_path_def split: sum.splits)

text \<open>In an environment that leaves \<open>ProgramFiles\<close> unset, a peer with an ASCII path is
  accepted only when that path is the installed one up to the case of its letters.\<close>

lemma verify_client_ascii_path:
  assumes "getenv a ''ProgramFiles'' = []" "is_ascii path" "fst (verify_client a pid) = Inr path"
  shows "map ascii_lower path
    = map ascii_lower (drive_path (CHR ''C'') [''Program Files'', ''FastFlow'', ''fastflow_vpn.exe''])"
proof -
  have "is_ascii (drive_path (CHR ''C'') [''Program Files'', ''FastFlow'', ''fastflow_vpn.exe''])"
    by (simp add: drive_path_def)
  with assms show ?thesis
    using equal_fold_ascii [OF assms(2)] by (simp add: verify_client_Inr expected_path_default)
qed

text \<open>A process whose image is at the given path.\<close>

definition peer_at :: "string \<Rightarrow> process_api" where
  "peer_at path = \<lparr>getenv = (\<lambda>_. []), uni_fold = (\<lambda>r. r), uni_print = (\<lambda>_. False),
     open_process = (\<lambda>_. Inr 1), image_name = (\<lambda>_ _. Inr path)\<rparr>"

lemma peer_at_accepted:
  "fst (verify_client (peer_at (expected_client_path calm_api)) pid) = Inr (expected_client_path calm_api)"
proof -
  let ?p = "expected_client_path calm_api" and ?a = "peer_at (expected_client_path calm_api)"
  have p: "expected_client_path ?a = ?p"
    by (simp add: expected_client_path_def program_files_dir_def) (simp add: peer_at_def)
  have "open_process ?a pid = Inr 1" "image_name ?a 1 max_path = Inr ?p" unfolding peer_at_def by simp_all
  then show ?thesis by (simp add: verify_client_Inr p)
qed

text \<open>C31. The folding of \<open>strings.EqualFold\<close> is not that of the file system: an executable in
  the directory whose name ends in U+017F instead of the last s of \<open>Program Files\<close>, which is
  another directory of the drive, is accepted as the installed client.\<close>

theorem verify_client_accepts_other_directory:
  assumes "getenv a ''ProgramFiles'' = []" "open_process a pid = Inr h"
    and "path = ''C:'' @ backslash # ''Program File'' @ long_s @ backslash # ''FastFlow'' @ backslash # ''fastflow_vpn.exe''"
    and "image_name a h max_path = Inr path"
  shows "fst (verify_client a pid) = Inr path \<and> path \<noteq> expected_client_path a
    \<and> map ascii_lower path \<noteq> map ascii_lower (expected_client_path a)"
proof -
  let ?pre = "''C:'' @ backslash # ''Program File''"
  let ?post = "backslash # ''FastFlow'' @ backslash # ''fastflow_vpn.exe''"
  have exp: "expected_client_path a = ?pre @ CHR ''s'' # ?post"
    using expected_path_default [OF assms(1)] by (simp add: drive_path_def)
  have path: "path = ?pre @ long_s @ ?post" using assms(3) by simp
  have "is_ascii ?pre" by simp
  then have "equal_fold (uni_fold a) path (expected_client_path a)"
    unfolding exp path by (simp only: equal_fold_ascii_prefix equal_fold_long_s equal_fold_refl)
  moreover have "length path \<noteq> length (expected_client_path a)"
    unfolding exp path by (simp add: long_s_def)
  ultimately show ?thesis
    using assms(2,4) by (auto simp: verify_client_Inr dest: map_eq_imp_length_eq)
qed

theorem verify_client_accepts_other_directory_witness:
  "fst (verify_client (peer_at (''C:'' @ backslash # ''Program File'' @ long_s @ backslash # ''FastFlow'' @ backslash # ''fastflow_vpn.exe'')) 4)
   = Inr (''C:'' @ backslash # ''Program File'' @ long_s @ backslash # ''FastFlow'' @ backslash # ''fastflow_vpn.exe'')"
proof -
  let ?p = "''C:'' @ backslash # ''Program File'' @ long_s @ backslash # ''FastFlow'' @ backslash # ''fastflow_vpn.exe''"
  have "getenv (peer_at ?p) ''ProgramFiles'' = []" "open_process (peer_at ?p) 4 = Inr 1"
    "image_name (peer_at ?p) 1 max_path = Inr ?p"
    unfolding peer_at_def by simp_all
  from verify_client_accepts_other_directory [OF this(1,2) refl this(3)] show ?thesis by (rule conjunct1)
qed

end
