(* ===== verification/Go_Utf8.thy ===== *)
theory Go_Utf8
  imports Go_Strings
begin

text \<open>
  Encoding and decoding of runes are inverse, and replacing the invalid bytes of a string
  leaves a valid string alone. The JSON codec rests on these facts.
\<close>

section \<open>Runes by their groups of six bits\<close>

lemma enc2: "r = p * 64 + c \<Longrightarrow> c < 64 \<Longrightarrow> 2 \<le> p \<Longrightarrow> p < 32 \<Longrightarrow>
  encode_valid_rune r = [chr (192 + p), chr (128 + c)]"
  by (simp add: encode_valid_rune_def)

lemma divmod_64: "(r::nat) = p * 64 + c \<Longrightarrow> c < 64 \<Longrightarrow> r div 64 = p \<and> r mod 64 = c"
  by simp

lemma div_4096: "(r::nat) div 4096 = r div 64 div 64"
  by (simp flip: div_mult2_eq)

lemma div_262144: "(r::nat) div 262144 = r div 64 div 64 div 64"
  by (simp flip: div_mult2_eq)

lemma enc3:
  assumes "r = (q * 64 + b) * 64 + c" "b < 64" "c < 64" "0x800 \<le> r" "r < 0x10000"
  shows "encode_valid_rune r = [chr (224 + q), chr (128 + b), chr (128 + c)]"
  using assms(4,5) divmod_64 [OF assms(1,3)] divmod_64 [OF refl assms(2), of q]
  by (simp add: encode_valid_rune_def div_4096)

lemma enc4:
  assumes "r = ((q * 64 + a) * 64 + b) * 64 + c" "a < 64" "b < 64" "c < 64" "0x10000 \<le> r"
  shows "encode_valid_rune r = [chr (240 + q), chr (128 + a), chr (128 + b), chr (128 + c)]"
  using assms(5) divmod_64 [OF assms(1,4)] divmod_64 [OF refl assms(3), of "q * 64 + a"]
    divmod_64 [OF refl assms(2), of q]
  by (simp add: encode_valid_rune_def div_4096 div_262144)

lemma dec2: "c < 64 \<Longrightarrow> 2 \<le> p \<Longrightarrow> p < 32 \<Longrightarrow>
  decode_rune (chr (192 + p) # chr (128 + c) # s) = (p * 64 + c, 2)"
  by (simp add: decode_rune.simps(2) is_cont_def)

lemma dec3: "q < 16 \<Longrightarrow> b < 64 \<Longrightarrow> c < 64 \<Longrightarrow> second_ok (224 + q) (128 + b) \<Longrightarrow>
  decode_rune (chr (224 + q) # chr (128 + b) # chr (128 + c) # s) = ((q * 64 + b) * 64 + c, 3)"
  by (simp add: decode_rune.simps(2) is_cont_def algebra_simps)

lemma dec4: "q < 5 \<Longrightarrow> a < 64 \<Longrightarrow> b < 64 \<Longrightarrow> c < 64 \<Longrightarrow> second_ok (240 + q) (128 + a) \<Longrightarrow>
  decode_rune (chr (240 + q) # chr (128 + a) # chr (128 + b) # chr (128 + c) # s)
    = (((q * 64 + a) * 64 + b) * 64 + c, 4)"
  by (simp add: decode_rune.simps(2) is_cont_def algebra_simps)

lemma second3: "q < 16 \<Longrightarrow> b < 64 \<Longrightarrow>
  second_ok (224 + q) (128 + b) \<longleftrightarrow> (q = 0 \<longrightarrow> 32 \<le> b) \<and> (q = 13 \<longrightarrow> b < 32)"
  unfolding second_ok_def is_cont_def by (auto split: if_splits)

lemma second4: "q < 5 \<Longrightarrow> a < 64 \<Longrightarrow>
  second_ok (240 + q) (128 + a) \<longleftrightarrow> (q = 0 \<longrightarrow> 16 \<le> a) \<and> (q = 4 \<longrightarrow> a < 16)"
  unfolding second_ok_def is_cont_def by (auto split: if_splits)

text \<open>The shapes of a valid rune and of a valid multi-byte sequence.\<close>

lemma split64: "\<exists>p c. (r::nat) = p * 64 + c \<and> c < 64"
  by (intro exI [of _ "r div 64"] exI [of _ "r mod 64"]) simp

section \<open>Decoding an encoded rune\<close>

lemma decode_encode_valid:
  assumes "valid_rune r"
  shows "decode_rune (encode_valid_rune r @ s) = (r, length (encode_valid_rune r))"
proof -
  obtain p c where p: "r = p * 64 + c" "c < 64" using split64 by blast
  obtain q b where q: "p = q * 64 + b" "b < 64" using split64 by blast
  obtain t a where t: "q = t * 64 + a" "a < 64" using split64 by blast
  consider "r < 0x80" | "0x80 \<le> r" "r < 0x800" | "0x800 \<le> r" "r < 0x10000" | "0x10000 \<le> r"
    by linarith
  then show ?thesis
  proof cases
    case 1
    then show ?thesis by (simp add: encode_valid_rune_def)
  next
    case 2
    then have "2 \<le> p" "p < 32" using p by linarith+
    with enc2 [OF p] dec2 [OF p(2)] p(1) show ?thesis by simp
  next
    case 3
    have len: "q < 16" using 3 p q by linarith
    have "second_ok (224 + q) (128 + b)"
      unfolding second3 [OF len q(2)] using 3 assms p q unfolding valid_rune_def by linarith
    moreover have r: "r = (q * 64 + b) * 64 + c" using p q by simp
    ultimately show ?thesis
      using enc3 [OF r q(2) p(2) 3] dec3 [OF len q(2) p(2), folded r] by simp
  next
    case 4
    have len: "t < 5" using 4 assms p q t unfolding valid_rune_def by linarith
    have "second_ok (240 + t) (128 + a)"
      unfolding second4 [OF len t(2)] using 4 assms p q t unfolding valid_rune_def by linarith
    moreover have r: "r = ((t * 64 + a) * 64 + b) * 64 + c" using p q t by simp
    ultimately show ?thesis
      using enc4 [OF r t(2) q(2) p(2) 4] dec4 [OF len t(2) q(2) p(2), folded r] by simp
  qed
qed

lemma decode_encode:
  "valid_rune r \<Longrightarrow> decode_rune (encode_rune r @ s) = (r, length (encode_rune r))"
  by (simp add: encode_rune_def decode_encode_valid)

section \<open>Encoding a decoded rune\<close>

lemma cont_byte: "is_cont (byte d) \<Longrightarrow> \<exists>x < 64. d = chr (128 + x)"
  unfolding is_cont_def
  by (intro exI [of _ "byte d - 128"]) auto

lemma second_cont: "second_ok b0 b1 \<Longrightarrow> is_cont b1"
  unfolding second_ok_def is_cont_def by (auto split: if_splits)

lemma lead_byte: "lo \<le> byte d \<Longrightarrow> byte d < lo + n \<Longrightarrow> \<exists>x < n. d = chr (lo + x)"
  by (intro exI [of _ "byte d - lo"]) auto

lemma decoded_three:
  assumes "decode_rune (d # cs) \<noteq> (rune_error, 1)" "0xE0 \<le> byte d" "byte d < 0xF0"
  shows "valid_rune (fst (decode_rune (d # cs))) \<and>
         encode_valid_rune (fst (decode_rune (d # cs))) = take (snd (decode_rune (d # cs))) (d # cs)"
proof -
  from assms obtain e f ds where e: "cs = e # f # ds" "second_ok (byte d) (byte e)" "is_cont (byte f)"
    by (auto simp: decode_rune.simps(2) Let_def split: list.splits if_splits)
  obtain b where b: "e = chr (128 + b)" "b < 64" using cont_byte second_cont e(2) by blast
  obtain c where c: "f = chr (128 + c)" "c < 64" using cont_byte [OF e(3)] by blast
  obtain q where q: "d = chr (224 + q)" "q < 16" using lead_byte [of 224 d 16] assms(2,3) by auto
  have ok: "second_ok (224 + q) (128 + b)" using e(2) b q by simp
  let ?r = "(q * 64 + b) * 64 + c"
  have r: "0x800 \<le> ?r" "?r < 0x10000"
    using ok b(2) c(2) q(2) unfolding second3 [OF q(2) b(2)] by (cases q; simp)+
  have "?r < 0xD800 \<or> 0xDFFF < ?r"
    using ok b(2) c(2) unfolding second3 [OF q(2) b(2)] by (cases "q < 13"; cases "q = 13") auto
  then have v: "valid_rune ?r" using r(2) by (simp add: valid_rune_def)
  show ?thesis
    using e(1) b c q v enc3 [OF refl b(2) c(2) r(1,2)] dec3 [OF q(2) b(2) c(2) ok, of ds] by simp
qed

lemma decoded_four:
  assumes "decode_rune (d # cs) \<noteq> (rune_error, 1)" "0xF0 \<le> byte d" "byte d < 0xF5"
  shows "valid_rune (fst (decode_rune (d # cs))) \<and>
         encode_valid_rune (fst (decode_rune (d # cs))) = take (snd (decode_rune (d # cs))) (d # cs)"
proof -
  from assms obtain e f g ds where e: "cs = e # f # g # ds"
      "second_ok (byte d) (byte e)" "is_cont (byte f)" "is_cont (byte g)"
    by (auto simp: decode_rune.simps(2) Let_def split: list.splits if_splits)
  obtain a where a: "e = chr (128 + a)" "a < 64" using cont_byte second_cont e(2) by blast
  obtain b where b: "f = chr (128 + b)" "b < 64" using cont_byte [OF e(3)] by blast
  obtain c where c: "g = chr (128 + c)" "c < 64" using cont_byte [OF e(4)] by blast
  obtain q where q: "d = chr (240 + q)" "q < 5" using lead_byte [of 240 d 5] assms(2,3) by auto
  have ok: "second_ok (240 + q) (128 + a)" using e(2) a q by simp
  let ?r = "((q * 64 + a) * 64 + b) * 64 + c"
  have r: "0x10000 \<le> ?r" "?r \<le> 0x10FFFF"
    using ok a(2) b(2) c(2) q(2) unfolding second4 [OF q(2) a(2)] by (cases q; cases "q = 4"; simp)+
  then have v: "valid_rune ?r" by (simp add: valid_rune_def)
  show ?thesis
    using e(1) a b c q v enc4 [OF refl a(2) b(2) c(2) r(1)] dec4 [OF q(2) a(2) b(2) c(2) ok, of ds]
    by simp
qed

lemma decoded_valid:
  assumes "s \<noteq> []" "decode_rune s \<noteq> (rune_error, 1)"
  shows "valid_rune (fst (decode_rune s)) \<and>
         encode_valid_rune (fst (decode_rune s)) = take (snd (decode_rune s)) s"
proof -
  obtain d cs where s: "s = d # cs" using assms(1) by (cases s) auto
  consider (ascii) "byte d < 0x80" | (two) "0xC2 \<le> byte d" "byte d < 0xE0"
    | (three) "0xE0 \<le> byte d" "byte d < 0xF0" | (four) "0xF0 \<le> byte d" "byte d < 0xF5"
    using assms s by (fastforce simp: decode_rune.simps(2) Let_def)
  then show ?thesis
  proof cases
    case ascii
    then show ?thesis using s by (simp add: valid_rune_def encode_valid_rune_def)
  next
    case two
    with assms s obtain e ds where e: "cs = e # ds" "is_cont (byte e)"
      by (auto simp: decode_rune.simps(2) Let_def split: list.splits if_splits)
    obtain c where c: "e = chr (128 + c)" "c < 64" using cont_byte [OF e(2)] by blast
    obtain p where "d = chr (194 + p)" "p < 30" using lead_byte [of 194 d 30] two by auto
    then have p: "d = chr (192 + (p + 2))" "2 \<le> p + 2" "p + 2 < 32" by auto
    show ?thesis
      using s e(1) c p enc2 [OF refl c(2) p(2,3)] dec2 [OF c(2) p(2,3), of ds]
      by (simp add: valid_rune_def)
  next
    case three
    with assms(2) s decoded_three show ?thesis by simp
  next
    case four
    with assms(2) s decoded_four show ?thesis by simp
  qed
qed

lemma decoded_encode:
  assumes "s \<noteq> []" "decode_rune s = (r, w)" "\<not> (r = rune_error \<and> w = 1)"
  shows "valid_rune r" "encode_rune r = take w s" "w = length (encode_rune r)"
proof -
  from decoded_valid [of s] assms have r: "valid_rune r" "encode_valid_rune r = take w s" by auto
  then show "valid_rune r" "encode_rune r = take w s" by (simp_all add: encode_rune_def)
  with decode_rune_width [OF assms(1)] assms(2) show "w = length (encode_rune r)" by simp
qed

text \<open>Every byte of a multi-byte rune has its high bit set.\<close>

lemma encode_rune_high: "0x80 \<le> r \<Longrightarrow> \<forall>c \<in> set (encode_rune r). 0x80 \<le> byte c"
proof -
  assume r: "0x80 \<le> r"
  define v where "v = (if valid_rune r then r else rune_error)"
  have v: "0x80 \<le> v" "v \<le> 0x10FFFF"
    using r by (auto simp: v_def valid_rune_def rune_error_def)
  have "128 + n mod 64 < 256" "192 + m div 64 < 256 \<or> 0x800 \<le> m" for n m :: nat
    by (use mod_less_divisor [of 64 n] in linarith) linarith
  moreover have "v < 0x10000 \<Longrightarrow> 224 + v div 4096 < 256" "240 + v div 262144 < 256"
    using v(2) by linarith+
  ultimately show ?thesis
    using v(1) by (auto simp: encode_rune_def v_def [symmetric] encode_valid_rune_def)
qed

section \<open>Replacing invalid bytes\<close>

function utf8_fix :: "string \<Rightarrow> string" where
  "utf8_fix s =
     (case s of
        [] \<Rightarrow> []
      | c # cs \<Rightarrow> encode_rune (fst (decode_rune s)) @ utf8_fix (drop (snd (decode_rune s)) s))"
  by pat_completeness auto
termination
  by (relation "measure length") (auto simp: diff_less)

declare utf8_fix.simps [simp del]

definition valid_utf8 :: "string \<Rightarrow> bool" where
  "valid_utf8 s \<longleftrightarrow> utf8_fix s = s"

lemma utf8_fix_Nil [simp]: "utf8_fix [] = []"
  by (simp add: utf8_fix.simps)

lemma encode_rune_ascii [simp]: "r < 0x80 \<Longrightarrow> encode_rune r = [chr r]"
  by (simp add: encode_rune_def valid_rune_def encode_valid_rune_def)

lemma utf8_fix_ascii [simp]: "byte c < 0x80 \<Longrightarrow> utf8_fix (c # cs) = c # utf8_fix cs"
  by (subst utf8_fix.simps) simp

lemma ascii_valid_utf8: "is_ascii s \<Longrightarrow> valid_utf8 s"
  unfolding valid_utf8_def by (induction s) auto

end
