(* ===== verification/Go_Json.thy ===== *)
theory Go_Json
  imports Go_Format Go_Utf8
begin

text \<open>
  Go's \<open>encoding/json\<close> as the daemon uses it: the scanner with its stack of open
  containers, string unquoting and the encoder with HTML escaping. A parsed document is a
  tree; objects keep their fields in order and with duplicates, because the decoder
  applies them in turn. Numbers keep their text.
\<close>

section \<open>Documents and tokens\<close>

datatype json =
    JNull
  | JBool bool
  | JNum string
  | JStr string
  | JArr "json list"
  | JObj "(string \<times> json) list"

datatype token =
    TLBrace | TRBrace | TLBrack | TRBrack | TColon | TComma
  | TVal json

section \<open>Strings\<close>

definition is_hex :: "char \<Rightarrow> bool" where
  "is_hex c \<longleftrightarrow> hex_val c \<noteq> None"

definition quote_char :: char where
  "quote_char = CHR 0x22"

definition bslash :: char where
  "bslash = CHR 0x5C"

text \<open>The scanner's pass over a string: the raw body up to the closing quote, and the rest.
  Control bytes are refused and escapes are checked, not yet decoded.\<close>

fun scan_string :: "string \<Rightarrow> (string \<times> string) option" where
  "scan_string [] = None"
| "scan_string (c # cs) =
     (if c = quote_char then Some ([], cs)
      else if c = bslash then
        (case cs of
           [] \<Rightarrow> None
         | e # r \<Rightarrow>
             if e \<in> set ''bfnrt/'' \<or> e = bslash \<or> e = quote_char
             then map_option (\<lambda>(b, t). (c # e # b, t)) (scan_string r)
             else if e = CHR ''u'' then
               (case r of
                  h1 # h2 # h3 # h4 # r' \<Rightarrow>
                    if is_hex h1 \<and> is_hex h2 \<and> is_hex h3 \<and> is_hex h4
                    then map_option (\<lambda>(b, t). (c # e # h1 # h2 # h3 # h4 # b, t)) (scan_string r')
                    else None
                | _ \<Rightarrow> None)
             else None)
      else if byte c < 0x20 then None
      else map_option (\<lambda>(b, t). (c # b, t)) (scan_string cs))"

lemma scan_string_length: "scan_string s = Some (b, t) \<Longrightarrow> length t < length s"
proof (induction "length s" arbitrary: s b t rule: less_induct)
  case less
  have step: "length t < length s" if "scan_string r = Some (b, t)" "length r < length s" for r b
    using less(1) [OF that(2,1)] that(2) by simp
  show ?case
    using less(2) by (cases s) (auto split: if_splits list.splits dest!: step)
qed

text \<open>\<open>getu4\<close>: the value of \<open>\\uXXXX\<close> at the start, \<open>None\<close> for -1.\<close>

fun hex4 :: "char \<Rightarrow> char \<Rightarrow> char \<Rightarrow> char \<Rightarrow> nat option" where
  "hex4 a b c d =
     (case (hex_val a, hex_val b, hex_val c, hex_val d) of
        (Some w, Some x, Some y, Some z) \<Rightarrow> Some (w * 4096 + x * 256 + y * 16 + z)
      | _ \<Rightarrow> None)"

fun getu4 :: "string \<Rightarrow> nat option" where
  "getu4 (b # u # h1 # h2 # h3 # h4 # _) =
     (if b = bslash \<and> u = CHR ''u'' then hex4 h1 h2 h3 h4 else None)"
| "getu4 _ = None"

definition is_surrogate :: "nat \<Rightarrow> bool" where
  "is_surrogate r \<longleftrightarrow> 0xD800 \<le> r \<and> r < 0xE000"

text \<open>\<open>utf16.DecodeRune\<close>, \<open>None\<close> for the replacement character.\<close>

definition utf16_pair :: "nat \<Rightarrow> nat \<Rightarrow> nat option" where
  "utf16_pair r1 r2 =
     (if 0xD800 \<le> r1 \<and> r1 < 0xDC00 \<and> 0xDC00 \<le> r2 \<and> r2 < 0xE000
      then Some ((r1 - 0xD800) * 1024 + (r2 - 0xDC00) + 0x10000) else None)"

definition simple_escape :: "char \<Rightarrow> char" where
  "simple_escape e =
     (if e = CHR ''b'' then CHR 0x08 else if e = CHR ''f'' then CHR 0x0C
      else if e = CHR ''n'' then CHR 0x0A else if e = CHR ''r'' then CHR 0x0D
      else if e = CHR ''t'' then CHR 0x09 else e)"

text \<open>\<open>unquote\<close> on a scanned body: escapes decoded, a lone surrogate and every invalid byte
  replaced by U+FFFD.\<close>

function unquote :: "string \<Rightarrow> string option" where
  "unquote s =
     (case s of
        [] \<Rightarrow> Some []
      | c # cs \<Rightarrow>
          if c = bslash then
            (case cs of
               [] \<Rightarrow> None
             | e # r \<Rightarrow>
                 if e = CHR ''u'' then
                   (case getu4 s of
                      None \<Rightarrow> None
                    | Some rr \<Rightarrow>
                        if is_surrogate rr then
                          (case Option.bind (getu4 (drop 6 s)) (utf16_pair rr) of
                             Some d \<Rightarrow> map_option ((@) (encode_rune d)) (unquote (drop 12 s))
                           | None \<Rightarrow> map_option ((@) (encode_rune rune_error)) (unquote (drop 6 s)))
                        else map_option ((@) (encode_rune rr)) (unquote (drop 6 s)))
                 else if e \<in> set ''bfnrt/'' \<or> e = bslash \<or> e = quote_char \<or> e = CHR 0x27
                 then map_option (Cons (simple_escape e)) (unquote r)
                 else None)
          else if c = quote_char \<or> byte c < 0x20 then None
          else if byte c < 0x80 then map_option (Cons c) (unquote cs)
          else map_option ((@) (encode_rune (fst (decode_rune s))))
                 (unquote (drop (snd (decode_rune s)) s)))"
  by pat_completeness auto
termination
  by (relation "measure length") (auto simp: diff_less)

declare unquote.simps [simp del]

section \<open>Numbers\<close>

text \<open>A number of the JSON grammar, as long as possible: its text and the rest.\<close>

definition lex_digits :: "string \<Rightarrow> string \<times> string" where
  "lex_digits s = (takeWhile is_digit s, dropWhile is_digit s)"

definition lex_int :: "string \<Rightarrow> (string \<times> string) option" where
  "lex_int s =
     (case s of
        [] \<Rightarrow> None
      | c # r \<Rightarrow> if c = CHR ''0'' then Some ([c], r)
                 else if is_digit c then Some (lex_digits s) else None)"

definition lex_frac :: "string \<Rightarrow> (string \<times> string) option" where
  "lex_frac s =
     (if s \<noteq> [] \<and> hd s = CHR ''.'' then
        (case lex_digits (tl s) of (ds, r) \<Rightarrow> if ds = [] then None else Some (CHR ''.'' # ds, r))
      else Some ([], s))"

definition lex_exp :: "string \<Rightarrow> (string \<times> string) option" where
  "lex_exp s =
     (if s \<noteq> [] \<and> hd s \<in> set ''eE'' then
        (let sg = (if tl s \<noteq> [] \<and> hd (tl s) \<in> set ''+-'' then [hd (tl s)] else []) in
         case lex_digits (drop (length sg) (tl s)) of
           (ds, r) \<Rightarrow> if ds = [] then None else Some (hd s # sg @ ds, r))
      else Some ([], s))"

definition lex_number :: "string \<Rightarrow> (string \<times> string) option" where
  "lex_number s =
     (let sg = (if s \<noteq> [] \<and> hd s = CHR ''-'' then ''-'' else []) in
      case lex_int (drop (length sg) s) of
        None \<Rightarrow> None
      | Some (i, r1) \<Rightarrow>
          (case lex_frac r1 of
             None \<Rightarrow> None
           | Some (f, r2) \<Rightarrow>
               (case lex_exp r2 of
                  None \<Rightarrow> None
                | Some (e, r3) \<Rightarrow> Some (sg @ i @ f @ e, r3))))"

lemma lex_digits_append: "lex_digits s = (ds, r) \<Longrightarrow> s = ds @ r"
  by (auto simp: lex_digits_def)

lemma lex_int_append: "lex_int s = Some (i, r) \<Longrightarrow> s = i @ r \<and> i \<noteq> []"
  by (auto simp: lex_int_def lex_digits_def split: list.splits if_splits)

lemma lex_frac_append: "lex_frac s = Some (f, r) \<Longrightarrow> s = f @ r"
  by (cases s) (auto simp: lex_frac_def split: if_splits prod.splits dest: lex_digits_append)

lemma lex_exp_append: "lex_exp s = Some (e, r) \<Longrightarrow> s = e @ r"
proof (cases s)
  case (Cons c cs)
  assume "lex_exp s = Some (e, r)"
  with Cons show ?thesis
    by (cases cs) (auto simp: lex_exp_def Let_def split: if_splits prod.splits dest: lex_digits_append)
qed (simp add: lex_exp_def)

lemma lex_number_append: "lex_number s = Some (t, r) \<Longrightarrow> s = t @ r \<and> t \<noteq> []"
proof -
  assume a: "lex_number s = Some (t, r)"
  define sg where "sg = (if s \<noteq> [] \<and> hd s = CHR ''-'' then ''-'' else [])"
  from a obtain i f e r1 r2 where p: "lex_int (drop (length sg) s) = Some (i, r1)"
      "lex_frac r1 = Some (f, r2)" "lex_exp r2 = Some (e, r)" "t = sg @ i @ f @ e"
    by (auto simp: lex_number_def sg_def [symmetric] Let_def split: option.splits)
  have "s = sg @ drop (length sg) s" by (cases s) (auto simp: sg_def)
  then show ?thesis
    using p lex_int_append [OF p(1)] lex_frac_append [OF p(2)] lex_exp_append [OF p(3)] by simp
qed

lemma lex_number_length: "lex_number s = Some (t, r) \<Longrightarrow> length r < length s"
  using lex_number_append [of s t r] by auto

section \<open>Lexer\<close>

definition is_ws :: "char \<Rightarrow> bool" where
  "is_ws c \<longleftrightarrow> c = CHR 0x20 \<or> c = CHR 0x09 \<or> c = CHR 0x0A \<or> c = CHR 0x0D"

text \<open>Tokens are as long as possible. No two values may follow each other in a document, so
  this cuts a text as the scanner does.\<close>

function lex :: "string \<Rightarrow> token list option" where
  "lex s =
     (case s of
        [] \<Rightarrow> Some []
      | c # cs \<Rightarrow>
          if is_ws c then lex cs
          else if c = CHR ''{'' then map_option (Cons TLBrace) (lex cs)
          else if c = CHR ''}'' then map_option (Cons TRBrace) (lex cs)
          else if c = CHR ''['' then map_option (Cons TLBrack) (lex cs)
          else if c = CHR '']'' then map_option (Cons TRBrack) (lex cs)
          else if c = CHR '':'' then map_option (Cons TColon) (lex cs)
          else if c = CHR '','' then map_option (Cons TComma) (lex cs)
          else if c = quote_char then
            (case scan_string cs of
               None \<Rightarrow> None
             | Some (raw, r) \<Rightarrow>
                 (case unquote raw of
                    None \<Rightarrow> None
                  | Some t \<Rightarrow> map_option (Cons (TVal (JStr t))) (lex r)))
          else if take 4 s = ''true'' then map_option (Cons (TVal (JBool True))) (lex (drop 4 s))
          else if take 5 s = ''false'' then map_option (Cons (TVal (JBool False))) (lex (drop 5 s))
          else if take 4 s = ''null'' then map_option (Cons (TVal JNull)) (lex (drop 4 s))
          else
            (case lex_number s of
               None \<Rightarrow> None
             | Some (t, r) \<Rightarrow> map_option (Cons (TVal (JNum t))) (lex r)))"
  by pat_completeness auto
termination
  by (relation "measure length")
    (auto dest!: scan_string_length lex_number_length)

declare lex.simps [simp del]

section \<open>The stack machine\<close>

text \<open>Open containers that wait for a value: an array with its elements so far, or an object
  with its fields so far and the current key, both in reverse.\<close>

datatype frame = FArr "json list" | FObj "(string \<times> json) list" string

datatype pstate =
    PVal "frame list"
  | PArr0 "frame list"
  | PObj0 "frame list"
  | PKey "(string \<times> json) list" "frame list"
  | PColon "(string \<times> json) list" string "frame list"
  | PDone json "frame list"

definition max_nesting_depth :: nat where
  "max_nesting_depth = 10000"

text \<open>A value may begin: a literal, or a container if the depth limit allows one more.\<close>

fun begin_value :: "frame list \<Rightarrow> token \<Rightarrow> pstate option" where
  "begin_value st (TVal v) = Some (PDone v st)"
| "begin_value st TLBrack = (if length st < max_nesting_depth then Some (PArr0 st) else None)"
| "begin_value st TLBrace = (if length st < max_nesting_depth then Some (PObj0 st) else None)"
| "begin_value st _ = None"

fun pstep :: "pstate \<Rightarrow> token \<Rightarrow> pstate option" where
  "pstep (PVal st) t = begin_value st t"
| "pstep (PArr0 st) t = (if t = TRBrack then Some (PDone (JArr []) st) else begin_value (FArr [] # st) t)"
| "pstep (PObj0 st) t =
     (case t of
        TRBrace \<Rightarrow> Some (PDone (JObj []) st)
      | TVal (JStr k) \<Rightarrow> Some (PColon [] k st)
      | _ \<Rightarrow> None)"
| "pstep (PKey fs st) t = (case t of TVal (JStr k) \<Rightarrow> Some (PColon fs k st) | _ \<Rightarrow> None)"
| "pstep (PColon fs k st) t = (if t = TColon then Some (PVal (FObj fs k # st)) else None)"
| "pstep (PDone v (FArr vs # st)) t =
     (if t = TComma then Some (PVal (FArr (v # vs) # st))
      else if t = TRBrack then Some (PDone (JArr (rev (v # vs))) st) else None)"
| "pstep (PDone v (FObj fs k # st)) t =
     (if t = TComma then Some (PKey ((k, v) # fs) st)
      else if t = TRBrace then Some (PDone (JObj (rev ((k, v) # fs))) st) else None)"
| "pstep (PDone v []) t = None"

fun prun :: "token list \<Rightarrow> pstate \<Rightarrow> pstate option" where
  "prun [] p = Some p"
| "prun (t # ts) p = Option.bind (pstep p t) (prun ts)"

definition json_parse :: "string \<Rightarrow> json option" where
  "json_parse s =
     (case Option.bind (lex s) (\<lambda>ts. prun ts (PVal [])) of
        Some (PDone v []) \<Rightarrow> Some v
      | _ \<Rightarrow> None)"

lemma prun_append: "prun (ts @ us) p = Option.bind (prun ts p) (prun us)"
proof (induction ts arbitrary: p)
  case (Cons t ts)
  then show ?case by (cases "pstep p t") simp_all
qed simp

section \<open>Encoder\<close>

text \<open>\<open>appendString\<close> with HTML escaping.\<close>

definition html_safe :: "char \<Rightarrow> bool" where
  "html_safe c \<longleftrightarrow> 0x20 \<le> byte c \<and> byte c < 0x80 \<and> c \<noteq> quote_char \<and> c \<noteq> bslash
     \<and> c \<notin> set ''&<>''"

definition esc_ascii :: "char \<Rightarrow> string" where
  "esc_ascii c =
     (if html_safe c then [c]
      else if c = bslash \<or> c = quote_char then [bslash, c]
      else if c = CHR 0x08 then bslash # ''b''
      else if c = CHR 0x0C then bslash # ''f''
      else if c = CHR 0x0A then bslash # ''n''
      else if c = CHR 0x0D then bslash # ''r''
      else if c = CHR 0x09 then bslash # ''t''
      else bslash # ''u00'' @ hex_byte c)"

function esc_string :: "string \<Rightarrow> string" where
  "esc_string s =
     (case s of
        [] \<Rightarrow> []
      | c # cs \<Rightarrow>
          if byte c < 0x80 then esc_ascii c @ esc_string cs
          else if decode_rune s = (rune_error, 1) then bslash # ''ufffd'' @ esc_string cs
          else if fst (decode_rune s) = 0x2028 \<or> fst (decode_rune s) = 0x2029
          then bslash # ''u202'' @ hex_char (fst (decode_rune s) mod 16)
                 # esc_string (drop (snd (decode_rune s)) s)
          else take (snd (decode_rune s)) s @ esc_string (drop (snd (decode_rune s)) s))"
  by pat_completeness auto
termination
  by (relation "measure length") (auto simp: diff_less)

declare esc_string.simps [simp del]

lemma esc_string_Nil [simp]: "esc_string [] = []"
  by (simp add: esc_string.simps)

lemma esc_string_ascii [simp]: "byte c < 0x80 \<Longrightarrow> esc_string (c # cs) = esc_ascii c @ esc_string cs"
  by (simp add: esc_string.simps [of "c # cs"])

lemma esc_string_high:
  assumes "0x80 \<le> byte c"
  shows "esc_string (c # cs) =
    (if decode_rune (c # cs) = (rune_error, 1) then bslash # ''ufffd'' @ esc_string cs
     else if fst (decode_rune (c # cs)) = 0x2028 \<or> fst (decode_rune (c # cs)) = 0x2029
     then bslash # ''u202'' @ hex_char (fst (decode_rune (c # cs)) mod 16)
            # esc_string (drop (snd (decode_rune (c # cs))) (c # cs))
     else take (snd (decode_rune (c # cs))) (c # cs)
            @ esc_string (drop (snd (decode_rune (c # cs))) (c # cs)))"
  using assms by (simp add: esc_string.simps [of "c # cs"])

text \<open>Induction along the encoder: an ASCII byte, an invalid byte or a whole rune.\<close>

lemma esc_induct [case_names Nil ascii bad rune]:
  assumes "P []"
    and "\<And>c cs. byte c < 0x80 \<Longrightarrow> P cs \<Longrightarrow> P (c # cs)"
    and "\<And>c cs. 0x80 \<le> byte c \<Longrightarrow> decode_rune (c # cs) = (rune_error, 1) \<Longrightarrow> P cs \<Longrightarrow> P (c # cs)"
    and "\<And>c cs. 0x80 \<le> byte c \<Longrightarrow> decode_rune (c # cs) \<noteq> (rune_error, 1) \<Longrightarrow>
           P (drop (snd (decode_rune (c # cs))) (c # cs)) \<Longrightarrow> P (c # cs)"
  shows "P s"
proof (induction "length s" arbitrary: s rule: less_induct)
  case less
  show ?case
  proof (cases s)
    case (Cons c cs)
    have "length (drop (snd (decode_rune (c # cs))) (c # cs)) < length s"
      using Cons by (simp add: diff_less)
    then have "P (drop (snd (decode_rune (c # cs))) (c # cs))" by (rule less)
    moreover have "P cs" using Cons by (intro less) simp
    ultimately show ?thesis
      using assms(2-4) [of c cs] Cons by (cases "byte c < 0x80") auto
  qed (simp add: assms(1))
qed

definition enc_string :: "string \<Rightarrow> string" where
  "enc_string s = quote_char # esc_string s @ [quote_char]"

fun json_encode :: "json \<Rightarrow> string" where
  "json_encode JNull = ''null''"
| "json_encode (JBool b) = (if b then ''true'' else ''false'')"
| "json_encode (JNum t) = t"
| "json_encode (JStr s) = enc_string s"
| "json_encode (JArr vs) = CHR ''['' # join_with (CHR '','') (map json_encode vs) @ '']''"
| "json_encode (JObj fs) =
     CHR ''{'' # join_with (CHR '','') (map (\<lambda>(k, v). enc_string k @ CHR '':'' # json_encode v) fs) @ ''}''"

end
