(* ===== verification/Go_Json_Roundtrip.thy ===== *)
theory Go_Json_Roundtrip
  imports Go_Json
begin

text \<open>
  The encoder and the parser agree: the text of a document parses to the document, with
  invalid UTF-8 in its strings replaced, and holds no byte below 20 hex. The first is what
  lets the two ends of the pipe exchange documents, the second what lets a newline end a
  message.
\<close>

section \<open>Encoded strings\<close>

definition pre :: "string \<Rightarrow> (string \<times> string) option \<Rightarrow> (string \<times> string) option" where
  "pre xs m = map_option (\<lambda>(b, t). (xs @ b, t)) m"

lemma pre_simps [simp]:
  "pre xs None = None" "pre xs (Some (b, t)) = Some (xs @ b, t)" "pre xs (pre ys m) = pre (xs @ ys) m"
  "pre [] m = m"
  by (cases m; auto simp: pre_def)+

definition body_char :: "char \<Rightarrow> bool" where
  "body_char c \<longleftrightarrow> c \<noteq> quote_char \<and> c \<noteq> bslash \<and> 0x20 \<le> byte c"

lemma scan_char: "body_char c \<Longrightarrow> scan_string (c # t) = pre [c] (scan_string t)"
  by (simp add: body_char_def pre_def)

lemma scan_quote [simp]: "scan_string (quote_char # t) = Some ([], t)"
  by simp

lemma bslash_neq [simp]: "bslash \<noteq> quote_char" "quote_char \<noteq> bslash"
  by (simp_all add: bslash_def quote_char_def)

lemma scan_escape: "e \<in> set ''bfnrt/'' \<or> e = bslash \<or> e = quote_char \<Longrightarrow>
  scan_string (bslash # e # t) = pre [bslash, e] (scan_string t)"
  by (simp add: scan_string.simps(2) pre_def)

lemma scan_unicode: "is_hex a \<Longrightarrow> is_hex b \<Longrightarrow> is_hex c \<Longrightarrow> is_hex d \<Longrightarrow>
  scan_string (bslash # CHR ''u'' # a # b # c # d # t)
    = pre [bslash, CHR ''u'', a, b, c, d] (scan_string t)"
  by (simp add: scan_string.simps(2) pre_def bslash_def quote_char_def)

declare scan_string.simps(2) [simp del]

lemma scan_plain: "\<forall>c \<in> set xs. body_char c \<Longrightarrow> scan_string (xs @ t) = pre xs (scan_string t)"
proof (induction xs)
  case Nil
  then show ?case by simp
next
  case (Cons c xs)
  then show ?case by (simp add: scan_char)
qed

lemma is_hex_char [simp]: "n < 16 \<Longrightarrow> is_hex (hex_char n)"
  by (simp add: is_hex_def)

lemma html_safe_body: "html_safe c \<Longrightarrow> body_char c"
  by (simp add: html_safe_def body_char_def)

lemma hex_char_zero: "CHR ''0'' = hex_char 0"
  unfolding hex_char_def byte_eq_iff [symmetric] by simp

lemma scan_esc_ascii: "scan_string (esc_ascii c @ t) = pre (esc_ascii c) (scan_string t)"
proof (cases "html_safe c")
  case True
  then show ?thesis
    using scan_plain [of "[c]" t] html_safe_body by (simp add: esc_ascii_def)
next
  case False
  have u: "scan_string (bslash # ''u00'' @ hex_byte c @ t) = pre (bslash # ''u00'' @ hex_byte c) (scan_string t)"
    using scan_unicode [of "CHR ''0''" "CHR ''0''" "hex_char (byte c div 16)" "hex_char (byte c mod 16)" t]
    by (simp add: hex_byte_def hex_char_zero)
  consider "c = bslash \<or> c = quote_char" | "c \<in> {CHR 0x08, CHR 0x0C, CHR 0x0A, CHR 0x0D, CHR 0x09}"
    | "esc_ascii c = bslash # ''u00'' @ hex_byte c"
    using False
    by (cases "c = bslash \<or> c = quote_char";
        cases "c \<in> {CHR 0x08, CHR 0x0C, CHR 0x0A, CHR 0x0D, CHR 0x09}")
      (auto simp: esc_ascii_def)
  then show ?thesis
  proof cases
    case 1
    with False show ?thesis using scan_escape [of c t] by (auto simp: esc_ascii_def)
  next
    case 2
    have "scan_string (bslash # e # t) = pre [bslash, e] (scan_string t)" if "e \<in> set ''bfnrt''" for e
      using that by (intro scan_escape) auto
    with 2 False show ?thesis
      by (auto simp: esc_ascii_def bslash_def quote_char_def)
  next
    case 3
    with u show ?thesis by (simp)
  qed
qed

lemma is_hex_lits: "is_hex (CHR ''f'')" "is_hex (CHR ''d'')" "is_hex (CHR ''2'')" "is_hex (CHR ''0'')"
  by (simp_all add: is_hex_def hex_val_def)

lemma rune_bytes_body:
  assumes "0x80 \<le> byte c" "decode_rune (c # cs) \<noteq> (rune_error, 1)"
  shows "\<forall>d \<in> set (take (snd (decode_rune (c # cs))) (c # cs)). body_char d"
proof -
  have "encode_rune (fst (decode_rune (c # cs))) = take (snd (decode_rune (c # cs))) (c # cs)"
    using decoded_encode(2) [of "c # cs" "fst (decode_rune (c # cs))" "snd (decode_rune (c # cs))"] assms(2)
    by (auto simp: prod_eq_iff)
  with encode_rune_high [OF decode_rune_nonascii [OF assms(1), of cs]]
  show ?thesis by (auto simp: body_char_def quote_char_def bslash_def)
qed

lemma scan_esc_string: "scan_string (esc_string s @ t) = pre (esc_string s) (scan_string t)"
proof (induction s rule: esc_induct)
  case Nil
  then show ?case by simp
next
  case (ascii c cs)
  then show ?case by (simp add: scan_esc_ascii)
next
  case (bad c cs)
  with scan_unicode [of "CHR ''f''" "CHR ''f''" "CHR ''f''" "CHR ''d''" "esc_string cs @ t"]
  show ?case by (simp add: esc_string_high is_hex_lits)
next
  case (rune c cs)
  let ?r = "fst (decode_rune (c # cs))" and ?d = "drop (snd (decode_rune (c # cs))) (c # cs)"
  show ?case
    using rune rune_bytes_body [of c cs]
      scan_unicode [of "CHR ''2''" "CHR ''0''" "CHR ''2''" "hex_char (?r mod 16)" "esc_string ?d @ t"]
    by (simp add: esc_string_high is_hex_lits scan_plain)
qed

section \<open>Unquoting what was escaped\<close>

lemma append_fun: "(@) [c] = Cons c" "(@) [] = (\<lambda>a. a)" "(@) (c # ds) = (\<lambda>a. c # ds @ a)"
  by auto

declare append_fun(1,2) [simp]

lemma unquote_Nil [simp]: "unquote [] = Some []"
  by (simp add: unquote.simps)

lemma unquote_plain: "body_char c \<Longrightarrow> byte c < 0x80 \<Longrightarrow> unquote (c # t) = map_option (Cons c) (unquote t)"
  by (simp add: unquote.simps [of "c # t"] body_char_def)

lemma escape_not_u: "e \<in> set ''bfnrt/'' \<or> e = bslash \<or> e = quote_char \<Longrightarrow> e \<noteq> CHR ''u''"
  by (auto simp: bslash_def quote_char_def)

lemma unquote_escape: "e \<in> set ''bfnrt/'' \<or> e = bslash \<or> e = quote_char \<Longrightarrow>
  unquote (bslash # e # t) = map_option (Cons (simple_escape e)) (unquote t)"
  using escape_not_u [of e] by (auto simp: unquote.simps [of "bslash # e # t"])

lemma unquote_unicode:
  assumes "hex4 a b c d = Some r" "\<not> is_surrogate r"
  shows "unquote (bslash # CHR ''u'' # a # b # c # d # t) = map_option ((@) (encode_rune r)) (unquote t)"
  using assms by (simp add: unquote.simps [of "bslash # CHR ''u'' # a # b # c # d # t"])

lemma unquote_rune:
  assumes "0x80 \<le> byte c" "decode_rune (c # cs) = (r, w)" "(r, w) \<noteq> (rune_error, 1)"
  shows "unquote (take w (c # cs) @ t) = map_option ((@) (encode_rune r)) (unquote t)"
proof -
  have enc: "valid_rune r" "encode_rune r = take w (c # cs)" "w = length (encode_rune r)"
    using decoded_encode [of "c # cs" r w] assms by auto
  have "0 < w" using decode_rune_pos [of c cs] assms(2) by simp
  then obtain ds where ds: "encode_rune r = c # ds" using enc(2) by (cases w) auto
  have c: "c \<noteq> bslash" "c \<noteq> quote_char" "\<not> byte c < 0x20"
    using assms(1) by (auto simp: bslash_def quote_char_def)
  have "decode_rune (c # ds @ t) = (r, w)"
    using decode_encode [OF enc(1), of t] enc(3) ds by simp
  then have "unquote (c # ds @ t) = map_option ((@) (encode_rune r)) (unquote (drop w (c # ds @ t)))"
    using c assms(1) by (simp add: unquote.simps [of "c # ds @ t"])
  also have "drop w (c # ds @ t) = t" using enc(3) ds by simp
  finally show ?thesis by (simp add: enc(2) [symmetric] ds append_fun(3))
qed

lemma simple_escape_id: "e = bslash \<or> e = quote_char \<Longrightarrow> simple_escape e = e"
  by (auto simp: simple_escape_def bslash_def quote_char_def)

lemma unquote_esc_ascii:
  assumes "byte c < 0x80"
  shows "unquote (esc_ascii c @ t) = map_option (Cons c) (unquote t)"
proof -
  have h: "byte c div 16 < 16" "byte c mod 16 < 16" by simp_all
  have "hex4 (CHR ''0'') (CHR ''0'') (hex_char (byte c div 16)) (hex_char (byte c mod 16)) = Some (byte c)"
    by (simp add: hex_char_zero)
  from unquote_unicode [OF this, of t]
  have u: "unquote (bslash # ''u00'' @ hex_byte c @ t) = map_option (Cons c) (unquote t)"
    using assms unfolding hex_byte_def by (simp add: is_surrogate_def del: hex4.simps)
  consider "html_safe c" | "c = bslash \<or> c = quote_char" | "c \<in> {CHR 0x08, CHR 0x0C, CHR 0x0A, CHR 0x0D, CHR 0x09}"
    | "esc_ascii c = bslash # ''u00'' @ hex_byte c"
    by (cases "html_safe c"; cases "c = bslash \<or> c = quote_char";
        cases "c \<in> {CHR 0x08, CHR 0x0C, CHR 0x0A, CHR 0x0D, CHR 0x09}")
      (auto simp: esc_ascii_def)
  then show ?thesis
  proof cases
    case 1
    then show ?thesis using assms html_safe_body unquote_plain by (simp add: esc_ascii_def)
  next
    case 2
    then show ?thesis
      using unquote_escape [of c t] simple_escape_id [of c]
      by (auto simp: esc_ascii_def html_safe_def)
  next
    case 3
    have "unquote (bslash # e # t) = map_option (Cons (simple_escape e)) (unquote t)" if "e \<in> set ''bfnrt''" for e
      using that by (intro unquote_escape) auto
    with 3 show ?thesis
      by (auto simp: esc_ascii_def html_safe_def simple_escape_def bslash_def quote_char_def)
  next
    case 4
    with u show ?thesis by simp
  qed
qed

lemma utf8_fix_bad:
  "decode_rune (c # cs) = (rune_error, 1) \<Longrightarrow> utf8_fix (c # cs) = encode_rune rune_error @ utf8_fix cs"
  by (subst utf8_fix.simps) simp

lemma utf8_fix_rune: "utf8_fix (c # cs) = encode_rune (fst (decode_rune (c # cs)))
    @ utf8_fix (drop (snd (decode_rune (c # cs))) (c # cs))"
  by (subst utf8_fix.simps) simp

lemma hex4_lits:
  "hex4 (CHR ''f'') (CHR ''f'') (CHR ''f'') (CHR ''d'') = Some rune_error"
  "hex4 (CHR ''2'') (CHR ''0'') (CHR ''2'') (hex_char 8) = Some 0x2028"
  "hex4 (CHR ''2'') (CHR ''0'') (CHR ''2'') (hex_char 9) = Some 0x2029"
  by (simp_all add: hex_val_def rune_error_def hex_char_def)

text \<open>Unquoting an escaped string gives the string with its invalid bytes replaced.\<close>

lemma unquote_esc_string: "unquote (esc_string s) = Some (utf8_fix s)"
proof (induction s rule: esc_induct)
  case (ascii c cs)
  then show ?case by (simp add: unquote_esc_ascii)
next
  case (bad c cs)
  then show ?case
    using unquote_unicode [OF hex4_lits(1), of "esc_string cs"]
    by (simp add: esc_string_high utf8_fix_bad is_surrogate_def rune_error_def)
next
  case (rune c cs)
  let ?r = "fst (decode_rune (c # cs))" and ?w = "snd (decode_rune (c # cs))"
  have u: "unquote (take ?w (c # cs) @ t) = map_option ((@) (encode_rune ?r)) (unquote t)" for t
    using rune(1,2) by (intro unquote_rune) auto
  consider "?r = 0x2028" | "?r = 0x2029" | "?r \<noteq> 0x2028" "?r \<noteq> 0x2029" by blast
  then show ?case
  proof cases
    case 1
    then show ?thesis
      using rune unquote_unicode [OF hex4_lits(2), of "esc_string (drop ?w (c # cs))"]
      by (simp add: esc_string_high utf8_fix_rune [of c cs] is_surrogate_def)
  next
    case 2
    then show ?thesis
      using rune unquote_unicode [OF hex4_lits(3), of "esc_string (drop ?w (c # cs))"]
      by (simp add: esc_string_high utf8_fix_rune [of c cs] is_surrogate_def)
  next
    case 3
    then show ?thesis using rune u by (simp add: esc_string_high utf8_fix_rune [of c cs])
  qed
qed simp

lemma lex_enc_string:
  "lex (enc_string s @ r) = map_option (Cons (TVal (JStr (utf8_fix s)))) (lex r)"
proof -
  have "scan_string (esc_string s @ quote_char # r) = Some (esc_string s, r)"
    by (simp add: scan_esc_string)
  then show ?thesis
    by (simp add: lex.simps [of "quote_char # esc_string s @ quote_char # r"] enc_string_def
        unquote_esc_string is_ws_def) (simp add: quote_char_def)
qed

section \<open>Encoded numbers\<close>

text \<open>What may follow a value in an encoded document.\<close>

definition delim :: "string \<Rightarrow> bool" where
  "delim r \<longleftrightarrow> (case r of [] \<Rightarrow> True | c # _ \<Rightarrow> is_ws c \<or> c \<in> set '',]}:'')"

lemma delim_simps [simp]:
  "delim []" "delim (CHR '','' # r)" "delim (CHR '']'' # r)" "delim (CHR ''}'' # r)" "delim (CHR '':'' # r)"
  by (simp_all add: delim_def)

lemma delim_hd: "delim r \<Longrightarrow> r \<noteq> [] \<Longrightarrow>
  \<not> is_digit (hd r) \<and> hd r \<notin> set ''.eE+-''"
  by (cases r) (auto simp: delim_def is_digit_def is_ws_def)

lemma lex_digits_ext:
  "delim r \<Longrightarrow> lex_digits s = (ds, q) \<Longrightarrow> lex_digits (s @ r) = (ds, q @ r)"
proof (induction s arbitrary: ds)
  case Nil
  then show ?case using delim_hd [of r] by (cases r) (auto simp: lex_digits_def)
next
  case (Cons c s)
  then show ?case by (cases "is_digit c") (auto simp: lex_digits_def)
qed

lemma lex_int_ext: "delim r \<Longrightarrow> lex_int s = Some (i, q) \<Longrightarrow> lex_int (s @ r) = Some (i, q @ r)"
proof (cases s)
  case (Cons c cs)
  assume "delim r" "lex_int s = Some (i, q)"
  with Cons show ?thesis
    using lex_digits_ext [of r "c # cs" i q] by (auto simp: lex_int_def split: if_splits)
qed (simp add: lex_int_def)

lemma lex_frac_ext:
  assumes "delim r" "lex_frac s = Some (f, q)"
  shows "lex_frac (s @ r) = Some (f, q @ r)"
proof (cases s)
  case Nil
  with assms show ?thesis using delim_hd [of r] by (cases r) (auto simp: lex_frac_def)
next
  case (Cons c cs)
  obtain ds p where d: "lex_digits cs = (ds, p)" by fastforce
  with lex_digits_ext [OF assms(1) d] assms(2) Cons show ?thesis
    by (simp add: lex_frac_def split: if_splits)
qed

text \<open>The exponent read without its sign.\<close>

lemma lex_exp_Cons: "c \<in> set ''eE'' \<Longrightarrow> lex_exp (c # cs) =
  (case cs of
     [] \<Rightarrow> None
   | d # ds \<Rightarrow>
       (if d \<in> set ''+-'' then
          (case lex_digits ds of (p, r) \<Rightarrow> if p = [] then None else Some (c # d # p, r))
        else (case lex_digits cs of (p, r) \<Rightarrow> if p = [] then None else Some (c # p, r))))"
  by (cases cs) (simp_all add: lex_exp_def lex_digits_def)

lemma lex_exp_other: "c \<notin> set ''eE'' \<Longrightarrow> lex_exp (c # cs) = Some ([], c # cs)"
  by (simp add: lex_exp_def)

lemma lex_exp_ext:
  assumes "delim r" "lex_exp s = Some (e, q)"
  shows "lex_exp (s @ r) = Some (e, q @ r)"
proof (cases s)
  case Nil
  with assms show ?thesis using delim_hd [of r] by (cases r) (auto simp: lex_exp_def)
next
  case (Cons c cs)
  show ?thesis
  proof (cases "c \<in> set ''eE''")
    case True
    with assms(2) Cons obtain d ds where cs: "cs = d # ds"
      by (cases cs) (simp_all add: lex_exp_Cons)
    obtain p p' where p: "lex_digits ds = (p, p')" by fastforce
    obtain o1 o2 where o: "lex_digits (d # ds) = (o1, o2)" by fastforce
    from assms(2) Cons cs True p o lex_digits_ext [OF assms(1) p] lex_digits_ext [OF assms(1) o]
    show ?thesis
      by (cases "d \<in> set ''+-''") (simp_all add: lex_exp_Cons split: if_splits)
  next
    case False
    with assms(2) Cons lex_exp_other [of c "cs @ r"] show ?thesis by (auto simp: lex_exp_other)
  qed
qed

lemma lex_number_ext:
  assumes "delim r" "lex_number s = Some (t, q)"
  shows "lex_number (s @ r) = Some (t, q @ r)"
proof -
  define sg where "sg = (if s \<noteq> [] \<and> hd s = CHR ''-'' then ''-'' else [])"
  from assms(2) obtain i f e r1 r2 where p: "lex_int (drop (length sg) s) = Some (i, r1)"
      "lex_frac r1 = Some (f, r2)" "lex_exp r2 = Some (e, q)" "t = sg @ i @ f @ e"
    by (auto simp: lex_number_def sg_def [symmetric] Let_def split: option.splits)
  have ne: "s \<noteq> []" using assms(2) by (auto simp: lex_number_def lex_int_def)
  then have "drop (length sg) (s @ r) = drop (length sg) s @ r"
    and "(if s @ r \<noteq> [] \<and> hd (s @ r) = CHR ''-'' then ''-'' else []) = sg"
    by (cases s; simp add: sg_def)+
  with p assms(1) show ?thesis
    by (simp add: lex_number_def lex_int_ext lex_frac_ext lex_exp_ext)
qed

lemma lex_number_hd: "lex_number (c # cs) \<noteq> None \<Longrightarrow> is_digit c \<or> c = CHR ''-''"
  by (auto simp: lex_number_def lex_int_def Let_def is_digit_def split: option.splits if_splits)

lemma lex_number_start:
  assumes "is_digit c \<or> c = CHR ''-''"
  shows "lex (c # cs) = (case lex_number (c # cs) of
           None \<Rightarrow> None | Some (t, r) \<Rightarrow> map_option (Cons (TVal (JNum t))) (lex r))"
proof -
  have "\<not> is_ws c" "c \<noteq> quote_char" using assms by (auto simp: is_ws_def quote_char_def is_digit_def)
  moreover have "c \<notin> set ''{}[]:,tfn''" using assms by (auto simp: is_digit_def)
  ultimately show ?thesis by (subst lex.simps) simp
qed

lemma lex_num:
  assumes "lex_number t = Some (t, [])" "delim r"
  shows "lex (t @ r) = map_option (Cons (TVal (JNum t))) (lex r)"
proof (cases t)
  case (Cons c cs)
  have n: "lex_number (c # cs @ r) = Some (c # cs, r)"
    using lex_number_ext [OF assms(2,1)] Cons by simp
  then have "is_digit c \<or> c = CHR ''-''" by (intro lex_number_hd [of c "cs @ r"]) simp
  from lex_number_start [OF this, of "cs @ r"] n Cons show ?thesis by simp
qed (use assms in \<open>simp add: lex_number_def lex_int_def\<close>)

section \<open>Encoded documents\<close>

text \<open>Documents that encode: their numbers are of the JSON grammar and they nest at most
  \<open>n\<close> containers deep.\<close>

fun json_ok :: "nat \<Rightarrow> json \<Rightarrow> bool" where
  "json_ok n (JNum t) \<longleftrightarrow> lex_number t = Some (t, [])"
| "json_ok n (JArr vs) \<longleftrightarrow> n > 0 \<and> list_all (json_ok (n - 1)) vs"
| "json_ok n (JObj fs) \<longleftrightarrow> n > 0 \<and> list_all (\<lambda>(k, v). json_ok (n - 1) v) fs"
| "json_ok n _ \<longleftrightarrow> True"

fun json_fix :: "json \<Rightarrow> json" where
  "json_fix (JStr s) = JStr (utf8_fix s)"
| "json_fix (JArr vs) = JArr (map json_fix vs)"
| "json_fix (JObj fs) = JObj (map (\<lambda>(k, v). (utf8_fix k, json_fix v)) fs)"
| "json_fix v = v"

fun toks :: "json \<Rightarrow> token list" where
  "toks (JStr s) = [TVal (JStr (utf8_fix s))]"
| "toks (JArr vs) = TLBrack # join_with TComma (map toks vs) @ [TRBrack]"
| "toks (JObj fs) = TLBrace
     # join_with TComma (map (\<lambda>(k, v). TVal (JStr (utf8_fix k)) # TColon # toks v) fs) @ [TRBrace]"
| "toks v = [TVal v]"

lemma lex_punct [simp]:
  "lex (CHR ''{'' # r) = map_option (Cons TLBrace) (lex r)"
  "lex (CHR ''}'' # r) = map_option (Cons TRBrace) (lex r)"
  "lex (CHR ''['' # r) = map_option (Cons TLBrack) (lex r)"
  "lex (CHR '']'' # r) = map_option (Cons TRBrack) (lex r)"
  "lex (CHR '':'' # r) = map_option (Cons TColon) (lex r)"
  "lex (CHR '','' # r) = map_option (Cons TComma) (lex r)"
  by (simp_all add: lex.simps [of "_ # r"] is_ws_def)

lemma lex_Nil [simp]: "lex [] = Some []"
  by (simp add: lex.simps)

lemma lex_words [simp]:
  "lex (''null'' @ r) = map_option (Cons (TVal JNull)) (lex r)"
  "lex (''true'' @ r) = map_option (Cons (TVal (JBool True))) (lex r)"
  "lex (''false'' @ r) = map_option (Cons (TVal (JBool False))) (lex r)"
  by (simp_all add: lex.simps [of "_ # _ # _ # _ # r"] lex.simps [of "_ # _ # _ # _ # _ # r"]
      is_ws_def quote_char_def)

text \<open>The lexer cuts a list of encoded items at the commas.\<close>

lemma lex_join:
  assumes "\<And>x r. x \<in> set xs \<Longrightarrow> delim r \<Longrightarrow> lex (f x @ r) = map_option ((@) (g x)) (lex r)"
    and "delim r"
  shows "lex (join_with (CHR '','') (map f xs) @ r) = map_option ((@) (join_with TComma (map g xs))) (lex r)"
  using assms
proof (induction xs)
  case (Cons x xs)
  show ?case
  proof (cases xs)
    case Nil
    with Cons.prems show ?thesis by simp
  next
    case (Cons y ys)
    let ?j = "join_with (CHR '','') (map f xs)"
    have IH: "lex (?j @ r) = map_option ((@) (join_with TComma (map g xs))) (lex r)"
      using Cons.prems Cons.IH by simp
    have "lex (f x @ CHR '','' # ?j @ r) = map_option ((@) (g x)) (lex (CHR '','' # ?j @ r))"
      by (rule Cons.prems) simp_all
    with IH show ?thesis
      using Cons by (simp add: join_with_Cons option.map_comp comp_def)
  qed
qed (simp add: option.map_ident)

lemma lex_encode:
  "json_ok n v \<Longrightarrow> delim r \<Longrightarrow> lex (json_encode v @ r) = map_option ((@) (toks v)) (lex r)"
proof (induction v arbitrary: n r)
  case (JNum t)
  then show ?case by (simp add: lex_num)
next
  case (JStr s)
  then show ?case by (simp add: lex_enc_string)
next
  case (JArr vs)
  have "lex (join_with (CHR '','') (map json_encode vs) @ CHR '']'' # r)
      = map_option ((@) (join_with TComma (map toks vs))) (lex (CHR '']'' # r))"
    using JArr by (intro lex_join) (auto simp: list_all_iff)
  then show ?case by (simp add: option.map_comp comp_def)
next
  case (JObj fs)
  have "lex (join_with (CHR '','') (map (\<lambda>(k, v). enc_string k @ CHR '':'' # json_encode v) fs) @ CHR ''}'' # r)
      = map_option ((@) (join_with TComma (map (\<lambda>(k, v). TVal (JStr (utf8_fix k)) # TColon # toks v) fs)))
          (lex (CHR ''}'' # r))"
  proof (rule lex_join)
    fix f q
    assume "f \<in> set fs" "delim q"
    moreover obtain k v where "f = (k, v)" by (cases f)
    moreover from calculation JObj.prems have "json_ok (n - 1) v" by (auto simp: list_all_iff)
    moreover have "lex (json_encode v @ q) = map_option ((@) (toks v)) (lex q)"
      using JObj.IH [of f v "n - 1" q] calculation by (simp add: snds.intros)
    ultimately show "lex ((case f of (k, v) \<Rightarrow> enc_string k @ CHR '':'' # json_encode v) @ q)
      = map_option ((@) (case f of (k, v) \<Rightarrow> TVal (JStr (utf8_fix k)) # TColon # toks v)) (lex q)"
      by (simp add: lex_enc_string option.map_comp comp_def append_fun(3))
  qed simp
  then show ?case by (simp add: option.map_comp comp_def)
next
  case (JBool b)
  then show ?case using lex_words [of r] by (cases b) auto
next
  case JNull
  then show ?case using lex_words [of r] by simp
qed

lemma toks_ne: "toks v \<noteq> []" "hd (toks v) \<noteq> TRBrack"
  by (cases v; simp)+

text \<open>Running the tokens of a value from any state that waits for one.\<close>

definition takes_value :: "pstate \<Rightarrow> frame list \<Rightarrow> bool" where
  "takes_value p st \<longleftrightarrow> (\<forall>t. t \<noteq> TRBrack \<longrightarrow> pstep p t = begin_value st t)"

definition runs_to :: "nat \<Rightarrow> json \<Rightarrow> bool" where
  "runs_to n v \<longleftrightarrow> (\<forall>p st ts. takes_value p st \<longrightarrow> length st + n \<le> max_nesting_depth \<longrightarrow>
     prun (toks v @ ts) p = prun ts (PDone (json_fix v) st))"

lemma takes_value_simps [simp]:
  "takes_value (PVal st) st" "takes_value (PArr0 st) (FArr [] # st)"
  by (simp_all add: takes_value_def)

lemma runs_toD: "runs_to n v \<Longrightarrow> takes_value p st \<Longrightarrow> length st + n \<le> max_nesting_depth \<Longrightarrow>
  prun (toks v @ ts) p = prun ts (PDone (json_fix v) st)"
  by (simp add: runs_to_def)

lemma prun_array:
  assumes "list_all (runs_to n) (v # vs)" "takes_value p (FArr acc # st)"
    and "length st + Suc n \<le> max_nesting_depth"
  shows "prun (join_with TComma (map toks (v # vs)) @ TRBrack # ts) p
    = prun ts (PDone (JArr (rev acc @ map json_fix (v # vs))) st)"
  using assms
proof (induction vs arbitrary: v acc p)
  case Nil
  then show ?case using runs_toD [of n v p "FArr acc # st"] by simp
next
  case (Cons w ws)
  have "prun (toks v @ TComma # join_with TComma (map toks (w # ws)) @ TRBrack # ts) p
      = prun (join_with TComma (map toks (w # ws)) @ TRBrack # ts) (PVal (FArr (json_fix v # acc) # st))"
    using Cons.prems runs_toD [of n v p "FArr acc # st"] by simp
  also have "\<dots> = prun ts (PDone (JArr (rev (json_fix v # acc) @ map json_fix (w # ws))) st)"
    using Cons.prems by (intro Cons.IH) simp_all
  finally show ?case by simp
qed

definition field_toks :: "string \<times> json \<Rightarrow> token list" where
  "field_toks = (\<lambda>(k, v). TVal (JStr (utf8_fix k)) # TColon # toks v)"

definition field_fix :: "string \<times> json \<Rightarrow> string \<times> json" where
  "field_fix = (\<lambda>(k, v). (utf8_fix k, json_fix v))"

definition takes_key :: "pstate \<Rightarrow> (string \<times> json) list \<Rightarrow> frame list \<Rightarrow> bool" where
  "takes_key p acc st \<longleftrightarrow> (\<forall>k. pstep p (TVal (JStr k)) = Some (PColon acc k st))"

lemma takes_key_simps [simp]: "takes_key (PKey acc st) acc st" "takes_key (PObj0 st) [] st"
  by (simp_all add: takes_key_def)

lemma prun_object:
  assumes "list_all (\<lambda>(k, v). runs_to n v) (f # fs)" "takes_key p acc st"
    and "length st + Suc n \<le> max_nesting_depth"
  shows "prun (join_with TComma (map field_toks (f # fs)) @ TRBrace # ts) p
    = prun ts (PDone (JObj (rev acc @ map field_fix (f # fs))) st)"
  using assms
proof (induction fs arbitrary: f acc p)
  case Nil
  obtain k v where f: "f = (k, v)" by (cases f)
  then show ?case
    using Nil runs_toD [of n v "PVal (FObj acc (utf8_fix k) # st)" "FObj acc (utf8_fix k) # st"]
    by (simp add: takes_key_def field_toks_def field_fix_def)
next
  case (Cons g gs)
  obtain k v where f: "f = (k, v)" by (cases f)
  have "prun (field_toks f @ TComma # join_with TComma (map field_toks (g # gs)) @ TRBrace # ts) p
      = prun (join_with TComma (map field_toks (g # gs)) @ TRBrace # ts) (PKey (field_fix f # acc) st)"
    using Cons.prems f runs_toD [of n v "PVal (FObj acc (utf8_fix k) # st)" "FObj acc (utf8_fix k) # st"]
    by (simp add: takes_key_def field_toks_def field_fix_def)
  also have "\<dots> = prun ts (PDone (JObj (rev (field_fix f # acc) @ map field_fix (g # gs))) st)"
    using Cons.prems by (intro Cons.IH) simp_all
  finally show ?case by simp
qed

lemma json_runs_to: "json_ok n v \<Longrightarrow> runs_to n v"
proof (induction v arbitrary: n)
  case (JArr vs)
  have all: "list_all (runs_to (n - 1)) vs" using JArr by (auto simp: list_all_iff)
  have "prun (toks (JArr vs) @ ts) p = prun ts (PDone (json_fix (JArr vs)) st)"
    if "takes_value p st" "length st + n \<le> max_nesting_depth" for p st ts
  proof -
    have b: "pstep p TLBrack = Some (PArr0 st)"
      using that JArr.prems by (simp add: takes_value_def)
    show ?thesis
    proof (cases vs)
      case Nil
      with b show ?thesis by simp
    next
      case (Cons w ws)
      then show ?thesis
        using b all that JArr.prems prun_array [of "n - 1" w ws "PArr0 st" "[]" st ts] by simp
    qed
  qed
  then show ?case by (simp add: runs_to_def)
next
  case (JObj fs)
  have all: "list_all (\<lambda>(k, v). runs_to (n - 1) v) fs"
    using JObj.prems JObj.IH by (fastforce simp: list_all_iff)
  have fix_eq: "json_fix (JObj fs) = JObj (map field_fix fs)"
    "toks (JObj fs) = TLBrace # join_with TComma (map field_toks fs) @ [TRBrace]"
    by (simp_all add: field_fix_def field_toks_def)
  have "prun (toks (JObj fs) @ ts) p = prun ts (PDone (json_fix (JObj fs)) st)"
    if "takes_value p st" "length st + n \<le> max_nesting_depth" for p st ts
  proof -
    have b: "pstep p TLBrace = Some (PObj0 st)"
      using that JObj.prems by (simp add: takes_value_def)
    show ?thesis
    proof (cases fs)
      case Nil
      with b show ?thesis by simp
    next
      case (Cons g gs)
      then show ?thesis
        using b all that JObj.prems prun_object [of "n - 1" g gs "PObj0 st" "[]" st ts]
        unfolding fix_eq by simp
    qed
  qed
  then show ?case by (simp add: runs_to_def)
qed (simp_all add: runs_to_def takes_value_def)

text \<open>Parsing an encoded document that white space may follow.\<close>

lemma lex_ws: "list_all is_ws r \<Longrightarrow> lex r = Some []"
proof (induction r)
  case (Cons c r)
  then show ?case by (simp add: lex.simps [of "c # r"])
qed simp

lemma json_parse_encode_ws:
  assumes "json_ok max_nesting_depth v" "list_all is_ws r"
  shows "json_parse (json_encode v @ r) = Some (json_fix v)"
proof -
  have "delim r" using assms(2) by (cases r) (simp_all add: delim_def)
  then have "lex (json_encode v @ r) = Some (toks v)"
    using lex_encode [OF assms(1), of r] assms(2) by (simp add: lex_ws)
  moreover have "prun (toks v @ []) (PVal []) = Some (PDone (json_fix v) [])"
    using runs_toD [OF json_runs_to [OF assms(1)], of "PVal []" "[]" "[]"] by simp
  ultimately show ?thesis by (simp add: json_parse_def)
qed

lemma json_parse_encode: "json_ok max_nesting_depth v \<Longrightarrow> json_parse (json_encode v) = Some (json_fix v)"
  using json_parse_encode_ws [of v "[]"] by simp

section \<open>Encoded documents hold no control byte\<close>

definition printable :: "char \<Rightarrow> bool" where
  "printable c \<longleftrightarrow> 0x20 \<le> byte c"

lemma printable_digit: "is_digit c \<Longrightarrow> printable c"
  by (simp add: is_digit_def printable_def)

lemma lex_digits_printable: "lex_digits s = (ds, r) \<Longrightarrow> list_all printable ds"
  by (auto simp: lex_digits_def list_all_iff dest: set_takeWhileD intro: printable_digit)

lemma lex_number_printable: "lex_number s = Some (t, r) \<Longrightarrow> list_all printable t"
proof -
  assume a: "lex_number s = Some (t, r)"
  define sg where "sg = (if s \<noteq> [] \<and> hd s = CHR ''-'' then ''-'' else [])"
  from a obtain i f e r1 r2 where p: "lex_int (drop (length sg) s) = Some (i, r1)"
      "lex_frac r1 = Some (f, r2)" "lex_exp r2 = Some (e, r)" "t = sg @ i @ f @ e"
    by (auto simp: lex_number_def sg_def [symmetric] Let_def split: option.splits)
  have "list_all printable sg" by (simp add: sg_def printable_def)
  moreover have "list_all printable i"
    using p(1) by (auto simp: lex_int_def printable_def split: list.splits if_splits
        dest: lex_digits_printable)
  moreover have "list_all printable f"
    using p(2) by (auto simp: lex_frac_def printable_def split: prod.splits if_splits
        dest: lex_digits_printable)
  moreover have "list_all printable e"
    using p(3) by (auto simp: lex_exp_def Let_def printable_def split: prod.splits if_splits
        dest: lex_digits_printable)
  ultimately show ?thesis using p(4) by simp
qed

lemma hex_char_printable: "n < 16 \<Longrightarrow> printable (hex_char n)"
  by (simp add: hex_char_def printable_def)

lemma printable_lits [simp]:
  "printable bslash" "printable quote_char" "list_all printable ''ufffd202''"
  "list_all printable ''{}[]:,nulltruefalse''" "list_all printable ''bfnrtu0''"
  by (simp_all add: printable_def bslash_def quote_char_def)

lemma printable_lit_chars [simp]:
  "\<forall>c \<in> set ''{}[]:,nulltruefalsebd02''. printable c"
  by (simp add: printable_def)

lemma esc_ascii_printable: "list_all printable (esc_ascii c)"
proof -
  have hex: "list_all printable (hex_byte c)"
    by (simp add: hex_byte_def hex_char_printable)
  have lits: "printable (CHR ''b'')" "printable (CHR ''f'')" "printable (CHR ''n'')"
    "printable (CHR ''r'')" "printable (CHR ''t'')" "printable (CHR ''u'')" "printable (CHR ''0'')"
    by (simp_all add: printable_def)
  have "printable c" if "html_safe c" using that by (simp add: html_safe_def printable_def)
  with hex lits show ?thesis
    unfolding esc_ascii_def by (simp split: if_split)
qed

lemma esc_string_printable: "list_all printable (esc_string s)"
proof (induction s rule: esc_induct)
  case (ascii c cs)
  then show ?case by (simp add: esc_ascii_printable)
next
  case (bad c cs)
  then show ?case by (simp add: esc_string_high)
next
  case (rune c cs)
  let ?w = "snd (decode_rune (c # cs))"
  have "list_all printable (take ?w (c # cs))"
    using rune_bytes_body [OF rune(1,2)] by (auto simp: list_all_iff body_char_def printable_def)
  moreover have "printable (hex_char (n mod 16))" for n by (simp add: hex_char_printable)
  moreover have "list_all printable ''u202''" by (simp add: printable_def)
  ultimately show ?case using rune by (simp add: esc_string_high)
qed simp

lemma enc_string_printable: "list_all printable (enc_string s)"
  by (simp add: enc_string_def esc_string_printable)

lemma join_printable: "list_all (list_all printable) ps \<Longrightarrow> printable d \<Longrightarrow>
  list_all printable (join_with d ps)"
  by (induction d ps rule: join_with.induct) auto

lemma json_encode_printable: "json_ok n v \<Longrightarrow> list_all printable (json_encode v)"
proof (induction v arbitrary: n)
  case (JNum t)
  then show ?case by (simp add: lex_number_printable)
next
  case (JStr s)
  then show ?case by (simp add: enc_string_printable)
next
  case (JArr vs)
  have "list_all printable (json_encode v)" if "v \<in> set vs" for v
    using JArr that by (fastforce simp: list_all_iff)
  then have "list_all (list_all printable) (map json_encode vs)" by (simp add: list_all_iff)
  then show ?case by (simp add: join_printable)
next
  case (JObj fs)
  have "list_all printable (json_encode v)" if "(k, v) \<in> set fs" for k v
    using JObj that by (fastforce simp: list_all_iff)
  then have "list_all (list_all printable) (map (\<lambda>(k, v). enc_string k @ CHR '':'' # json_encode v) fs)"
    using enc_string_printable by (auto simp: list_all_iff)
  then show ?case by (simp add: join_printable)
qed simp_all

lemma json_encode_one_line: "json_ok n v \<Longrightarrow> newline \<notin> set (json_encode v)"
  using json_encode_printable [of n v] by (auto simp: list_all_iff printable_def)

lemma lex_show_int: "lex_number (show_int i) = Some (show_int i, [])"
proof -
  have "lex_int (show_nat n) = Some (show_nat n, [])" for n
  proof (cases "show_nat n")
    case (Cons c cs)
    have "is_digit c" "list_all is_digit cs"
      using show_nat_digits [of n] Cons by (auto simp: list_all_iff)
    moreover have "cs = []" if "c = CHR ''0''"
      using show_nat_leading [of n] Cons that show_nat_one_digit [of 0] by simp
    ultimately show ?thesis
      using Cons by (auto simp: lex_int_def lex_digits_def list_all_iff takeWhile_eq_all_conv)
  qed simp
  moreover have "hd (show_nat n) \<noteq> CHR ''-''" for n
    using show_nat_digits [of n] by (cases "show_nat n") (auto simp: is_digit_def)
  ultimately show ?thesis
    by (auto simp: lex_number_def show_int_def lex_frac_def lex_exp_def Let_def)
qed

end
