(* ===== verification/Wire.thy ===== *)
theory Wire
  imports Go_Json_Roundtrip "HOL-Library.Char_ord" "HOL-Library.List_Lexorder"
begin

text \<open>
  The messages of the daemon's pipe (\<open>request\<close> and \<open>response\<close> of windows_daemon/ipc.go):
  how \<open>json.Unmarshal\<close> fills a request and \<open>json.Marshal\<close> writes a response, and the
  contract of a protocol that sends one document per line.
\<close>

section \<open>Requests\<close>

text \<open>An \<open>int\<close> of the 64-bit daemon is a word read with \<open>sint\<close>. A nil map and an empty one
  cannot be told apart by the lookups made in it.\<close>

record request =
  req_id :: "64 word"
  req_token :: string
  req_method :: string
  req_params :: "string \<rightharpoonup> json"

definition zero_request :: request where
  "zero_request = \<lparr>req_id = 0, req_token = [], req_method = [], req_params = Map.empty\<rparr>"

text \<open>\<open>strconv.ParseInt(s, 10, 64)\<close> on a JSON number.\<close>

definition parse_int64 :: "string \<Rightarrow> 64 word option" where
  "parse_int64 t =
     (let neg = (t \<noteq> [] \<and> hd t = CHR ''-'');
          ds = (if neg then tl t else t)
      in if ds = [] \<or> \<not> list_all is_digit ds then None
         else if neg then
           (if dec_value ds \<le> 2 ^ 63 then Some (word_of_int (- int (dec_value ds))) else None)
         else (if dec_value ds < 2 ^ 63 then Some (word_of_nat (dec_value ds)) else None))"

text \<open>\<open>strconv.ParseFloat(s, 64)\<close> fails on a JSON number only when it rounds to an
  infinity. The exponent stops growing at 10000, as in \<open>readFloat\<close>.\<close>

definition exp_digits :: "string \<Rightarrow> nat" where
  "exp_digits ds = foldl (\<lambda>n c. if n < 10000 then dec_step n c else n) 0 ds"

definition exp_value :: "string \<Rightarrow> int" where
  "exp_value s =
     (if s = [] then 0
      else if tl s \<noteq> [] \<and> hd (tl s) = CHR ''-'' then - int (exp_digits (drop 2 s))
      else if tl s \<noteq> [] \<and> hd (tl s) = CHR ''+'' then int (exp_digits (drop 2 s))
      else int (exp_digits (tl s)))"

definition float_overflows :: "string \<Rightarrow> bool" where
  "float_overflows t =
     (let body = (if t \<noteq> [] \<and> hd t = CHR ''-'' then tl t else t);
          ip = takeWhile is_digit body;
          r = dropWhile is_digit body;
          dot = (r \<noteq> [] \<and> hd r = CHR ''.'');
          fp = (if dot then takeWhile is_digit (tl r) else []);
          e = exp_value (if dot then dropWhile is_digit (tl r) else r) - int (length fp);
          m = dec_value (ip @ fp)
      in if e < 0 then (2 ^ 1024 - 2 ^ 970) * 10 ^ nat (- e) \<le> m
         else 2 ^ 1024 - 2 ^ 970 \<le> m * 10 ^ nat e)"

text \<open>Storing a value in an \<open>interface{}\<close>: every number in it becomes a float.\<close>

fun iface_ok :: "json \<Rightarrow> bool" where
  "iface_ok (JNum t) \<longleftrightarrow> \<not> float_overflows t"
| "iface_ok (JArr vs) \<longleftrightarrow> list_all iface_ok vs"
| "iface_ok (JObj fs) \<longleftrightarrow> list_all (\<lambda>(k, v). iface_ok v) fs"
| "iface_ok _ \<longleftrightarrow> True"

text \<open>The field a key names: the one of that name, else the one whose folded name is the
  folded key (\<open>foldName\<close>: every rune becomes the smallest of its case orbit).\<close>

fun fold_rune :: "(nat \<Rightarrow> nat) \<Rightarrow> nat \<Rightarrow> nat \<Rightarrow> nat" where
  "fold_rune uf 0 r = r"
| "fold_rune uf (Suc n) r =
     (let r2 = simple_fold uf r in if r2 \<le> r then r2 else fold_rune uf n r2)"

function fold_name :: "(nat \<Rightarrow> nat) \<Rightarrow> string \<Rightarrow> string" where
  "fold_name uf s =
     (case s of
        [] \<Rightarrow> []
      | c # cs \<Rightarrow>
          if byte c < 0x80
          then (if 0x61 \<le> byte c \<and> byte c \<le> 0x7A then chr (byte c - 32) else c) # fold_name uf cs
          else encode_rune (fold_rune uf 8 (fst (decode_rune s)))
               @ fold_name uf (drop (snd (decode_rune s)) s))"
  by pat_completeness auto
termination
  by (relation "measure (\<lambda>(_, s). length s)") (auto simp: diff_less)

declare fold_name.simps [simp del]

datatype field = FId | FToken | FMethod | FParams

definition field_names :: "(string \<times> field) list" where
  "field_names = [(''id'', FId), (''token'', FToken), (''method'', FMethod), (''params'', FParams)]"

definition folded_names :: "(string \<times> field) list" where
  "folded_names = [(''ID'', FId), (''TOKEN'', FToken), (''METHOD'', FMethod), (''PARAMS'', FParams)]"

definition field_of :: "(nat \<Rightarrow> nat) \<Rightarrow> string \<Rightarrow> field option" where
  "field_of uf k =
     (case map_of field_names k of
        Some f \<Rightarrow> Some f
      | None \<Rightarrow> map_of folded_names (fold_name uf k))"

text \<open>Storing a value in a field. \<open>null\<close> leaves a scalar alone and empties the map; an object
  adds to the map. \<open>None\<close> is an error, which the decoder keeps until the end; the caller
  drops the request on any error.\<close>

fun store_field :: "field \<Rightarrow> json \<Rightarrow> request \<Rightarrow> request option" where
  "store_field FParams JNull r = Some (r\<lparr>req_params := Map.empty\<rparr>)"
| "store_field _ JNull r = Some r"
| "store_field FId (JNum t) r = map_option (\<lambda>w. r\<lparr>req_id := w\<rparr>) (parse_int64 t)"
| "store_field FToken (JStr s) r = Some (r\<lparr>req_token := s\<rparr>)"
| "store_field FMethod (JStr s) r = Some (r\<lparr>req_method := s\<rparr>)"
| "store_field FParams (JObj fs) r =
     (if list_all (\<lambda>(k, v). iface_ok v) fs
      then Some (r\<lparr>req_params := foldl (\<lambda>m (k, v). m(k \<mapsto> v)) (req_params r) fs\<rparr>) else None)"
| "store_field _ _ r = None"

fun store_fields :: "(nat \<Rightarrow> nat) \<Rightarrow> (string \<times> json) list \<Rightarrow> request \<Rightarrow> request option" where
  "store_fields uf [] r = Some r"
| "store_fields uf ((k, v) # fs) r =
     Option.bind (case field_of uf k of None \<Rightarrow> Some r | Some f \<Rightarrow> store_field f v r)
       (store_fields uf fs)"

definition decode_request :: "(nat \<Rightarrow> nat) \<Rightarrow> string \<Rightarrow> request option" where
  "decode_request uf line =
     (case json_parse line of
        Some JNull \<Rightarrow> Some zero_request
      | Some (JObj fs) \<Rightarrow> store_fields uf fs zero_request
      | _ \<Rightarrow> None)"

section \<open>Responses\<close>

text \<open>A result is a list of the entries of the map; \<open>json.Marshal\<close> sorts them by key and
  leaves an empty map and an empty error out.\<close>

record response =
  resp_id :: "64 word"
  resp_ok :: bool
  resp_result :: "(string \<times> json) list"
  resp_error :: string

definition response_doc :: "response \<Rightarrow> json" where
  "response_doc r = JObj
     ([(''id'', JNum (show_int (sint (resp_id r)))), (''ok'', JBool (resp_ok r))]
      @ (if resp_result r = [] then [] else [(''result'', JObj (sort_key fst (resp_result r)))])
      @ (if resp_error r = [] then [] else [(''error'', JStr (resp_error r))]))"

definition encode_response :: "response \<Rightarrow> string" where
  "encode_response r = json_encode (response_doc r)"

definition write_resp :: "response \<Rightarrow> string" where
  "write_resp r = encode_response r @ [newline]"

section \<open>One document per line\<close>

text \<open>The contract of a line protocol: a codec whose encodings hold no newline. A stream of
  encodings, each ended by a newline, is cut back into the messages.\<close>

locale line_protocol = codec enc dec valid
  for enc :: "'a \<Rightarrow> string" and dec :: "string \<Rightarrow> 'a option" and valid :: "'a \<Rightarrow> bool" +
  assumes one_line: "valid x \<Longrightarrow> newline \<notin> set (enc x)"
begin

definition stream :: "'a list \<Rightarrow> string" where
  "stream ms = concat (map (\<lambda>m. enc m @ [newline]) ms)"

lemma split_stream: "list_all valid ms \<Longrightarrow> split_on newline (stream ms @ t) = map enc ms @ split_on newline t"
  by (induction ms) (simp_all add: stream_def split_on_append one_line)

lemma stream_messages:
  assumes "list_all valid ms"
  shows "map dec (butlast (split_on newline (stream ms))) = map Some ms"
proof -
  have "butlast (split_on newline (stream ms)) = map enc ms"
    using split_stream [OF assms, of "[]"] by simp
  then show ?thesis using assms by (simp add: list_all_iff dec_enc)
qed

end

text \<open>Encoded documents whose strings are valid UTF-8 keep the contract.\<close>

definition wire_doc :: "json \<Rightarrow> bool" where
  "wire_doc v \<longleftrightarrow> json_ok max_nesting_depth v \<and> json_fix v = v"

interpretation wire: line_protocol json_encode json_parse wire_doc
  by unfold_locales (auto simp: wire_doc_def json_parse_encode dest: json_encode_one_line)

section \<open>Round trips\<close>

lemma show_nat_all_digits: "list_all is_digit (show_nat n)"
  using show_nat_digits by (simp add: list_all_iff)

lemma show_nat_hd: "hd (show_nat n) \<noteq> CHR ''-''"
  using show_nat_digits [of n] by (cases "show_nat n") (auto simp: is_digit_def)

lemma sint_range64: "- (2 ^ 63) \<le> sint (w :: 64 word)" "sint (w :: 64 word) < 2 ^ 63"
  using sint_greater_eq [of w] sint_less [of w] by simp_all

lemma parse_show_int64: "parse_int64 (show_int (sint w)) = Some w"
proof (cases "sint w < 0")
  case True
  moreover have "nat (- sint w) \<le> 2 ^ 63" using sint_range64(1) [of w] by simp
  ultimately show ?thesis
    using show_nat_all_digits by (simp add: parse_int64_def show_int_def Let_def)
next
  case False
  moreover have "nat (sint w) < 2 ^ 63" using sint_range64(2) [of w] False by simp
  moreover have "word_of_nat (nat (sint w)) = w"
  proof -
    have "word_of_nat (nat (sint w)) = (word_of_int (int (nat (sint w))) :: 64 word)"
      by (rule of_int_of_nat_eq [symmetric])
    with False show ?thesis by simp
  qed
  ultimately show ?thesis
    using show_nat_all_digits show_nat_hd by (simp add: parse_int64_def show_int_def Let_def)
qed

lemma parse_int64_bounds:
  "parse_int64 t = Some w \<Longrightarrow> sint w = (if hd t = CHR ''-'' then - int (dec_value (tl t)) else int (dec_value t))"
proof -
  have neg: "sint (word_of_int (- int n) :: 64 word) = - int n" if "n \<le> 2 ^ 63" for n
    unfolding sint_sbintrunc' using that by (simp add: signed_take_bit_int_eq_self)
  have pos: "sint (word_of_nat n :: 64 word) = int n" if "n < 2 ^ 63" for n
    using that by (simp add: signed_of_nat signed_take_bit_int_eq_self)
  assume "parse_int64 t = Some w"
  then show ?thesis
    using neg [of "dec_value (tl t)"] pos [of "dec_value t"]
    by (cases t) (auto simp: parse_int64_def Let_def split: if_splits)
qed

text \<open>The request the client writes.\<close>

definition request_doc :: "64 word \<Rightarrow> string \<Rightarrow> string \<Rightarrow> (string \<times> json) list \<Rightarrow> json" where
  "request_doc i tok m ps = JObj
     [(''id'', JNum (show_int (sint i))), (''token'', JStr tok), (''method'', JStr m), (''params'', JObj ps)]"

lemma field_of_names [simp]:
  "field_of uf ''id'' = Some FId" "field_of uf ''token'' = Some FToken"
  "field_of uf ''method'' = Some FMethod" "field_of uf ''params'' = Some FParams"
  by (simp_all add: field_of_def field_names_def)

lemma foldl_map_upds: "foldl (\<lambda>m (k, v). m(k \<mapsto> v)) m fs = m ++ map_of (rev fs)"
  by (induction fs arbitrary: m) (auto simp: map_add_def fun_eq_iff split: option.splits)

lemma distinct_map_of_rev: "distinct (map fst ps) \<Longrightarrow> map_of (rev ps) = map_of ps"
  by (rule map_of_inject_set [THEN iffD2]) (simp_all add: rev_map [symmetric])

definition wire_params :: "(string \<times> json) list \<Rightarrow> bool" where
  "wire_params ps \<longleftrightarrow> distinct (map fst ps) \<and> json_ok (max_nesting_depth - 1) (JObj ps)
     \<and> json_fix (JObj ps) = JObj ps \<and> iface_ok (JObj ps)"

lemma max_nesting_pos: "0 < max_nesting_depth"
  by (simp add: max_nesting_depth_def)

lemma wire_request_doc:
  "valid_utf8 tok \<Longrightarrow> valid_utf8 m \<Longrightarrow> wire_params ps \<Longrightarrow> wire_doc (request_doc i tok m ps)"
  by (simp add: wire_doc_def request_doc_def wire_params_def lex_show_int valid_utf8_def max_nesting_pos
      ascii_valid_utf8 [unfolded valid_utf8_def])

text \<open>The daemon reads the request with the newline that ended it.\<close>

lemma decode_request_doc:
  assumes "valid_utf8 tok" "valid_utf8 m" "wire_params ps"
  shows "decode_request uf (json_encode (request_doc i tok m ps) @ [newline])
    = Some \<lparr>req_id = i, req_token = tok, req_method = m, req_params = map_of ps\<rparr>"
proof -
  have "json_parse (json_encode (request_doc i tok m ps) @ [newline]) = Some (request_doc i tok m ps)"
    using wire_request_doc [OF assms] json_parse_encode_ws [of _ "[newline]"]
    by (simp add: wire_doc_def is_ws_def)
  then show ?thesis
    using assms(3)
    by (simp add: decode_request_def request_doc_def wire_params_def parse_show_int64
        foldl_map_upds distinct_map_of_rev zero_request_def)
qed

lemma wire_response_doc:
  assumes "valid_utf8 (resp_error r)"
    and "list_all (\<lambda>(k, v). valid_utf8 k \<and> json_ok (max_nesting_depth - 2) v \<and> json_fix v = v) (resp_result r)"
  shows "wire_doc (response_doc r)"
proof -
  have "0 < max_nesting_depth - 1" by (simp add: max_nesting_depth_def)
  then have "json_ok (max_nesting_depth - 1) (JObj (sort_key fst (resp_result r)))"
    using assms(2) by (auto simp: list_all_iff numeral_2_eq_2)
  moreover have "json_fix (JObj (sort_key fst (resp_result r))) = JObj (sort_key fst (resp_result r))"
    using assms(2) by (auto simp: list_all_iff valid_utf8_def intro!: map_idI)
  ultimately show ?thesis
    using assms(1) max_nesting_pos
    by (auto simp: wire_doc_def response_doc_def lex_show_int valid_utf8_def
        ascii_valid_utf8 [unfolded valid_utf8_def])
qed

end
