(* ===== verification/Firewall.thy ===== *)
theory Firewall
  imports Daemon_Exec
begin

text \<open>
  The kill switch of the daemon (windows_daemon/firewall.go): the netsh commands of
  \<open>enableKillSwitch\<close> and \<open>disableKillSwitch\<close>, the order they run in and what is run
  when one of them fails.
\<close>

section \<open>Model\<close>

definition rule_name :: string where
  "rule_name = ''FastFlow-Engine-Out''"

definition rule_name_loopback :: string where
  "rule_name_loopback = ''FastFlow-Engine-Out-Loopback''"

definition netsh :: "os \<Rightarrow> string list \<Rightarrow> string option exec" where
  "netsh os args = run os (system32 os ''netsh.exe'') args"

text \<open>\<open>if err := m; err != nil { return err }\<close> followed by \<open>k\<close>.\<close>

definition then_nil :: "string option exec \<Rightarrow> string option exec \<Rightarrow> string option exec" where
  "then_nil m k = do { e \<leftarrow> m; case e of Some x \<Rightarrow> return (Some x) | None \<Rightarrow> k }"

definition block_args :: "string list" where
  "block_args = [''advfirewall'', ''set'', ''allprofiles'',
     ''firewallpolicy'', ''blockinbound,blockoutbound'']"

definition allow_args :: "string list" where
  "allow_args = [''advfirewall'', ''set'', ''allprofiles'',
     ''firewallpolicy'', ''blockinbound,allowoutbound'']"

definition app_rule_args :: "string \<Rightarrow> string list" where
  "app_rule_args app_path = [''advfirewall'', ''firewall'', ''add'', ''rule'',
     ''name='' @ rule_name, ''dir=out'', ''action=allow'', ''program='' @ app_path, ''enable=yes'']"

definition loopback_rule_args :: "string list" where
  "loopback_rule_args = [''advfirewall'', ''firewall'', ''add'', ''rule'',
     ''name='' @ rule_name_loopback, ''dir=out'', ''action=allow'',
     ''remoteip=127.0.0.1'', ''enable=yes'']"

definition delete_args :: "string \<Rightarrow> string list" where
  "delete_args name = [''advfirewall'', ''firewall'', ''delete'', ''rule'', ''name='' @ name]"

definition enable_kill_switch :: "os \<Rightarrow> string \<Rightarrow> string option exec" where
  "enable_kill_switch os app_path =
     then_nil (netsh os block_args)
       (then_nil (if app_path \<noteq> [] then netsh os (app_rule_args app_path) else return None)
         (netsh os loopback_rule_args))"

definition disable_kill_switch :: "os \<Rightarrow> string \<Rightarrow> string option exec" where
  "disable_kill_switch os app_path =
     then_nil (netsh os allow_args)
       (do { _ \<leftarrow> netsh os (delete_args rule_name);
             _ \<leftarrow> netsh os (delete_args rule_name_loopback);
             return None })"

section \<open>What the operations run\<close>

definition netsh_cmd :: "os \<Rightarrow> string list \<Rightarrow> command" where
  "netsh_cmd os args = tool (system32 os ''netsh.exe'') args"

text \<open>The commands \<open>enableKillSwitch\<close> means to run, in order.\<close>

definition enable_plan :: "os \<Rightarrow> string \<Rightarrow> command list" where
  "enable_plan os app_path =
     netsh_cmd os block_args
     # (if app_path = [] then [] else [netsh_cmd os (app_rule_args app_path)])
     @ [netsh_cmd os loopback_rule_args]"

lemma run_state_netsh [simp]:
  "run_state (netsh os args) h = (exec_result os h (netsh_cmd os args), h @ [netsh_cmd os args])"
  by (simp add: netsh_def netsh_cmd_def)

lemma run_state_then_nil:
  "run_state (then_nil m k) h =
     (case run_state m h of (None, h') \<Rightarrow> run_state k h' | (Some e, h') \<Rightarrow> (Some e, h'))"
  by (simp add: then_nil_def run_state_bind split: prod.splits option.splits)

lemma confined_then_nil [confined_intros]:
  "confined ok m \<Longrightarrow> confined ok k \<Longrightarrow> confined ok (then_nil m k)"
  unfolding then_nil_def by (intro confined_intros)

lemma confined_netsh [confined_intros]: "ok (netsh_cmd os args) \<Longrightarrow> confined ok (netsh os args)"
  unfolding netsh_def netsh_cmd_def by (rule confined_run)

lemma enable_run_plan:
  "run_state (enable_kill_switch os app_path) h = run_plan os (enable_plan os app_path) h"
  by (simp add: enable_kill_switch_def enable_plan_def run_state_then_nil split: option.splits)


text \<open>The commands of the kill switch for an allowed program.\<close>

definition kill_switch_cmd :: "os \<Rightarrow> string \<Rightarrow> command \<Rightarrow> bool" where
  "kill_switch_cmd os app_path c \<longleftrightarrow>
     c \<in> netsh_cmd os ` {block_args, allow_args, loopback_rule_args, app_rule_args app_path,
                         delete_args rule_name, delete_args rule_name_loopback}"

lemma confined_enable: "confined (kill_switch_cmd os p) (enable_kill_switch os p)"
  unfolding enable_kill_switch_def
  by (intro confined_intros) (auto simp: kill_switch_cmd_def)

lemma confined_disable: "confined (kill_switch_cmd os p) (disable_kill_switch os p)"
  unfolding disable_kill_switch_def
  by (intro confined_intros) (auto simp: kill_switch_cmd_def)

lemma disable_run:
  "run_state (disable_kill_switch os p) h =
     (let allow = netsh_cmd os allow_args;
          del = [netsh_cmd os (delete_args rule_name), netsh_cmd os (delete_args rule_name_loopback)]
      in case exec_result os h allow of
           Some e \<Rightarrow> (Some e, h @ [allow])
         | None \<Rightarrow> (None, h @ allow # del))"
  by (simp add: disable_kill_switch_def run_state_then_nil run_state_bind Let_def split: option.splits)

section \<open>Properties\<close>

text \<open>C3. Enabling fails closed: whatever fails, the block policy is the first command, no
  command puts the allow policy back, and nil is returned only when every command of the
  plan was run and succeeded.\<close>

theorem enable_fails_closed:
  assumes "run_state (enable_kill_switch os app_path) h = (r, h')"
  shows "\<exists>cs. h' = h @ netsh_cmd os block_args # cs
    \<and> netsh_cmd os allow_args \<notin> set cs
    \<and> (r = None \<longrightarrow> netsh_cmd os block_args # cs = enable_plan os app_path
          \<and> (\<forall>i \<le> length cs. exec_result os (h @ take i (enable_plan os app_path))
                               (enable_plan os app_path ! i) = None))"
proof -
  let ?p = "enable_plan os app_path"
  have plan: "run_plan os ?p h = (r, h')" using assms by (simp add: enable_run_plan)
  have allow: "netsh_cmd os allow_args \<notin> set ?p"
    by (simp add: enable_plan_def netsh_cmd_def allow_args_def block_args_def
        app_rule_args_def loopback_rule_args_def)
  show ?thesis
  proof (cases r)
    case None
    with plan have "h' = h @ ?p" "\<forall>i < length ?p. exec_result os (h @ take i ?p) (?p ! i) = None"
      by (simp_all add: run_plan_None)
    with allow None show ?thesis
      by (intro exI [of _ "tl ?p"]) (auto simp: enable_plan_def less_Suc_eq_le)
  next
    case (Some e)
    with plan obtain pre c post where c: "?p = pre @ c # post" "h' = h @ pre @ [c]"
      by (auto simp: run_plan_Some)
    then have "hd (pre @ [c]) = netsh_cmd os block_args"
      by (cases pre) (auto simp: enable_plan_def)
    then have "pre @ [c] = netsh_cmd os block_args # tl (pre @ [c])"
      by (metis append_is_Nil_conv list.collapse not_Cons_self2)
    moreover have "netsh_cmd os allow_args \<notin> set (tl (pre @ [c]))"
      using allow c(1) by (cases pre) auto
    ultimately show ?thesis using c(2) Some by (intro exI [of _ "tl (pre @ [c])"]) simp
  qed
qed

text \<open>Every command fails: the block policy is still the one command run.\<close>

definition failing_os :: os where
  "failing_os = \<lparr>getenv = (\<lambda>_. []), uni_fold = (\<lambda>r. r), uni_print = (\<lambda>_. False),
                 exec_result = (\<lambda>_ _. Some ''exit status 1'')\<rparr>"

theorem enable_fails_closed_witness:
  "\<exists>cs. snd (run_state (enable_kill_switch failing_os ''gui.exe'') [])
      = [] @ netsh_cmd failing_os block_args # cs \<and> netsh_cmd failing_os allow_args \<notin> set cs"
proof -
  have "run_state (enable_kill_switch failing_os ''gui.exe'') []
      = (Some ''exit status 1'', [netsh_cmd failing_os block_args])"
    by (simp add: enable_run_plan enable_plan_def failing_os_def)
  then show ?thesis using enable_fails_closed [of failing_os "''gui.exe''" "[]"] by auto
qed

text \<open>Disabling puts the allow policy back first. When that fails its error is returned and
  the rules stay; otherwise both rules are deleted, in order and whether or not a deletion
  fails, and nil is returned. The path argument has no influence.\<close>

lemma disable_restores:
  "run_state (disable_kill_switch os app_path) h =
     (case exec_result os h (netsh_cmd os allow_args) of
        Some e \<Rightarrow> (Some e, h @ [netsh_cmd os allow_args])
      | None \<Rightarrow> (None, h @ [netsh_cmd os allow_args, netsh_cmd os (delete_args rule_name),
                            netsh_cmd os (delete_args rule_name_loopback)]))"
  by (simp add: disable_run Let_def)

end
