(* ===== verification/Go_Net.thy ===== *)
theory Go_Net
  imports Go_Format
begin

text \<open>
  Go's address parsers and printers that the daemon and the Android bridge call:
  \<open>netip.ParseAddr\<close>, \<open>netip.ParsePrefix\<close>, \<open>net.ParseIP\<close>, \<open>net.ParseCIDR\<close>,
  \<open>net.CIDRMask\<close>, \<open>IP.Mask\<close>, \<open>IP.To4\<close> and \<open>IP.String\<close> on IPv4 addresses, as in
  Go 1.22. An address is the list of its bytes (4 or 16), as in the library.
\<close>

unbundle bit_operations_syntax

type_synonym u8 = "8 word"

type_synonym ip = "u8 list"

section \<open>Dotted quads\<close>

text \<open>The loop of \<open>parseIPv4\<close>: \<open>prev\<close> is the byte before, \<open>fs\<close> the finished fields,
  \<open>val\<close> and \<open>dl\<close> the value and the number of digits of the current field.\<close>

fun v4_loop :: "char option \<Rightarrow> ip \<Rightarrow> nat \<Rightarrow> nat \<Rightarrow> string \<Rightarrow> ip option" where
  "v4_loop prev fs val dl [] =
     (if length fs < 3 then None else Some (fs @ [of_nat val]))"
| "v4_loop prev fs val dl (c # cs) =
     (if is_digit c then
        (if dl = 1 \<and> val = 0 then None
         else if 255 < val * 10 + digit_val c then None
         else v4_loop (Some c) fs (val * 10 + digit_val c) (dl + 1) cs)
      else if c = CHR ''.'' then
        (if prev = None \<or> cs = [] \<or> prev = Some (CHR ''.'') then None
         else if length fs = 3 then None
         else v4_loop (Some c) (fs @ [of_nat val]) 0 0 cs)
      else None)"

definition parse_ipv4 :: "string \<Rightarrow> ip option" where
  "parse_ipv4 s = v4_loop None [] 0 0 s"

definition show_ipv4 :: "ip \<Rightarrow> string" where
  "show_ipv4 bs = join_with CHR ''.'' (map (\<lambda>b. show_nat (unat b)) bs)"

subsection \<open>Printing and parsing are inverse\<close>

text \<open>A run of digits without a leading zero is one field.\<close>

lemma foldl_dec_ge: "v \<le> foldl dec_step v ds"
proof (induction ds arbitrary: v)
  case (Cons d ds)
  have "v \<le> dec_step v d" by (simp add: dec_step_def)
  also have "\<dots> \<le> foldl dec_step (dec_step v d) ds" by (rule Cons)
  finally show ?case by simp
qed simp

lemma v4_loop_digits:
  assumes "ds \<noteq> []" "\<forall>c \<in> set ds. is_digit c" "foldl dec_step val ds \<le> 255"
    and "dl = 1 \<longrightarrow> 0 < val" "dl = 0 \<longrightarrow> val = 0 \<and> (hd ds = CHR ''0'' \<longrightarrow> length ds = 1)"
    and "1 < dl \<longrightarrow> 0 < val"
  shows "v4_loop prev fs val dl (ds @ rest)
       = v4_loop (Some (last ds)) fs (foldl dec_step val ds) (dl + length ds) rest"
  using assms
proof (induction ds arbitrary: val dl prev)
  case (Cons d ds)
  have "dec_step val d \<le> 255"
    using Cons.prems(3) foldl_dec_ge [of "dec_step val d" ds] by simp
  then have step: "val * 10 + digit_val d \<le> 255" by (simp only: dec_step_def)
  have one: "v4_loop prev fs val dl ((d # ds) @ rest)
      = v4_loop (Some d) fs (dec_step val d) (Suc dl) (ds @ rest)"
    using Cons.prems step by (auto simp: dec_step_def)
  show ?case
  proof (cases ds)
    case Nil
    with one show ?thesis by simp
  next
    case (Cons e es)
    have "d \<noteq> CHR ''0'' \<or> 0 < val"
      using Cons.prems(4-6) \<open>ds = e # es\<close> by (cases "dl = 0"; cases "dl = 1") auto
    then have "0 < dec_step val d"
      using Cons.prems(2) byte_eq_iff [of d "CHR ''0''"]
      by (auto simp: dec_step_def digit_val_def is_digit_def)
    then have "v4_loop (Some d) fs (dec_step val d) (Suc dl) (ds @ rest)
        = v4_loop (Some (last ds)) fs (foldl dec_step (dec_step val d) ds) (Suc dl + length ds) rest"
      using Cons.prems \<open>ds = e # es\<close> by (intro Cons.IH) auto
    with one \<open>ds = e # es\<close> show ?thesis by simp
  qed
qed simp

lemma v4_loop_show_nat:
  "n \<le> 255 \<Longrightarrow> v4_loop prev fs 0 0 (show_nat n @ rest)
     = v4_loop (Some (last (show_nat n))) fs n (length (show_nat n)) rest"
proof -
  assume n: "n \<le> 255"
  have "hd (show_nat n) = CHR ''0'' \<longrightarrow> length (show_nat n) = 1"
    using show_nat_leading [of n] show_nat_one_digit [of n] by auto
  with n show ?thesis
    using v4_loop_digits [of "show_nat n" 0 0 prev fs rest] show_nat_digits [of n]
      dec_value_show_nat [of n]
    by (simp add: dec_value_def)
qed

lemma last_show_nat_digit [simp]: "is_digit (last (show_nat n))"
  using show_nat_digits [of n] by (metis last_in_set show_nat_ne)

lemma dot_no_digit [simp]: "\<not> is_digit (CHR ''.'')"
  by (simp add: is_digit_def)

lemma show_nat_last_not_dot [simp]: "last (show_nat n) \<noteq> CHR ''.''"
  using last_show_nat_digit [of n] dot_no_digit by (metis)

lemma v4_loop_dot:
  "n \<le> 255 \<Longrightarrow> length fs < 3 \<Longrightarrow> rest \<noteq> [] \<Longrightarrow>
   v4_loop prev fs 0 0 (show_nat n @ CHR ''.'' # rest)
     = v4_loop (Some (CHR ''.'')) (fs @ [of_nat n]) 0 0 rest"
  by (simp add: v4_loop_show_nat)

lemma unat_u8_le [simp]: "unat (b :: u8) \<le> 255"
  using unsigned_less [where ?'a = nat, of b] by simp

lemma parse_show_ipv4:
  assumes "length bs = 4"
  shows "parse_ipv4 (show_ipv4 bs) = Some bs"
proof -
  obtain a b c d where "bs = [a, b, c, d]"
    using assms by (auto simp: numeral_eq_Suc length_Suc_conv)
  then show ?thesis
    using v4_loop_show_nat [of "unat d" "Some (CHR ''.'')" "[a, b, c]" "[]"]
    by (simp add: parse_ipv4_def show_ipv4_def v4_loop_dot)
qed

text \<open>Conversely a string that parses is the canonical print of its value: there is one
  spelling of an address, which is why printing it again is safe.\<close>

lemma show_nat_snoc:
  assumes "is_digit c" "0 < v"
  shows "show_nat (v * 10 + digit_val c) = show_nat v @ [c]"
proof -
  have d: "digit_val c < 10" using assms(1) by (rule digit_val_less)
  have "digit_char (digit_val c) = c"
    using assms(1) by (simp add: digit_char_def digit_val_def is_digit_def)
  with d assms(2) show ?thesis by (simp add: show_nat_long)
qed

lemma show_nat_digit: "is_digit c \<Longrightarrow> show_nat (digit_val c) = [c]"
  by (simp add: show_nat_one_digit digit_val_less digit_char_def)
    (simp add: digit_val_def is_digit_def)

lemma show_ipv4_Cons: "bs \<noteq> [] \<Longrightarrow> show_ipv4 (b # bs) = show_nat (unat b) @ CHR ''.'' # show_ipv4 bs"
  by (simp add: show_ipv4_def join_with_Cons)

lemma show_nat_grow:
  assumes "is_digit c" "\<not> (dl = 1 \<and> val = 0)" "dl = 0 \<Longrightarrow> val = 0" "0 < dl \<Longrightarrow> dl = length (show_nat val)"
  shows "show_nat (val * 10 + digit_val c) = (if dl = 0 then [] else show_nat val) @ [c]"
proof (cases "dl = 0")
  case True
  with assms(1,3) show ?thesis by (simp add: show_nat_digit)
next
  case False
  with assms(2,4) have "0 < val" by (cases "val = 0") (auto simp: show_nat_one_digit)
  with False assms(1) show ?thesis by (simp add: show_nat_snoc)
qed

lemma v4_loop_canonical:
  assumes "v4_loop prev fs val dl s = Some q"
    and "length fs \<le> 3" "val \<le> 255"
    and "dl = 0 \<Longrightarrow> val = 0 \<and> (s \<noteq> [] \<or> fs = []) \<and> (prev = None \<or> prev = Some (CHR ''.''))"
    and "0 < dl \<Longrightarrow> dl = length (show_nat val)"
  shows "length q = 4 \<and> take (length fs) q = fs
    \<and> (if dl = 0 then [] else show_nat val) @ s = show_ipv4 (drop (length fs) q)"
  using assms
proof (induction prev fs val dl s rule: v4_loop.induct)
  case (1 prev fs val dl)
  then show ?case
    by (auto simp: show_ipv4_def unat_of_nat split: if_splits)
next
  case (2 prev fs val dl c cs)
  show ?case
  proof (cases "is_digit c")
    case True
    let ?v = "val * 10 + digit_val c"
    have ok: "\<not> (dl = 1 \<and> val = 0)" "?v \<le> 255" "v4_loop (Some c) fs ?v (dl + 1) cs = Some q"
      using 2(3) True by (auto split: if_splits)
    have shown: "show_nat ?v = (if dl = 0 then [] else show_nat val) @ [c]"
      using show_nat_grow [OF True ok(1)] 2(6,7) by simp
    have "dl + 1 = length (show_nat ?v)"
      using shown 2(7) by (cases "dl = 0") auto
    then have "length q = 4 \<and> take (length fs) q = fs
      \<and> (if dl + 1 = 0 then [] else show_nat ?v) @ cs = show_ipv4 (drop (length fs) q)"
      using ok 2(4) True by (intro 2(1)) auto
    with shown show ?thesis by simp
  next
    case False
    have ok: "c = CHR ''.''" "prev \<noteq> None" "cs \<noteq> []" "prev \<noteq> Some (CHR ''.'')" "length fs \<noteq> 3"
      "v4_loop (Some c) (fs @ [of_nat val]) 0 0 cs = Some q"
      using 2(3) False by (auto split: if_splits)
    have dl: "0 < dl" using 2(6) ok by (cases dl) auto
    have ih: "length q = 4 \<and> take (length (fs @ [of_nat val])) q = fs @ [of_nat val]
      \<and> (if (0::nat) = 0 then [] else show_nat 0) @ cs = show_ipv4 (drop (length (fs @ [of_nat val])) q)"
      using ok 2(4) False by (intro 2(2)) auto
    define r where "r = drop (Suc (length fs)) q"
    have "q = take (Suc (length fs)) q @ r" by (simp add: r_def)
    also have "take (Suc (length fs)) q = fs @ [of_nat val]" using ih by simp
    finally have q: "q = fs @ of_nat val # r" by simp
    have "r \<noteq> []" using ih q ok(5) 2(4) by auto
    moreover have "cs = show_ipv4 r" using ih q by simp
    ultimately show ?thesis
      using ih q dl ok(1) 2(5) by (simp add: show_ipv4_Cons unat_of_nat)
  qed
qed

lemma parse_ipv4_canonical:
  assumes "parse_ipv4 s = Some q"
  shows "length q = 4 \<and> s = show_ipv4 q"
  using v4_loop_canonical [of None "[]" 0 0 s q] assms by (simp add: parse_ipv4_def)

lemma parse_ipv4_iff: "parse_ipv4 s = Some q \<longleftrightarrow> length q = 4 \<and> s = show_ipv4 q"
  using parse_ipv4_canonical parse_show_ipv4 by blast

interpretation quad: codec show_ipv4 parse_ipv4 "\<lambda>bs. length bs = 4"
  by unfold_locales (rule parse_show_ipv4)

text \<open>The bytes of a printed quad.\<close>

definition quad_char :: "char \<Rightarrow> bool" where
  "quad_char c \<longleftrightarrow> is_digit c \<or> c = CHR ''.''"

lemma show_ipv4_chars: "\<forall>c \<in> set (show_ipv4 bs). quad_char c"
proof (induction bs)
  case Nil
  then show ?case by (simp add: show_ipv4_def)
next
  case (Cons b bs)
  then show ?case
    using show_nat_digits by (cases bs) (auto simp: show_ipv4_Cons show_ipv4_def quad_char_def)
qed

section \<open>IPv6\<close>

fun scan_hex :: "nat \<Rightarrow> nat \<Rightarrow> string \<Rightarrow> (nat \<times> nat \<times> string) option" where
  "scan_hex off acc [] = Some (acc, off, [])"
| "scan_hex off acc (c # cs) =
     (case hex_val c of
        None \<Rightarrow> Some (acc, off, c # cs)
      | Some v \<Rightarrow>
          if 3 < off then None
          else if 65535 < acc * 16 + v then None
          else scan_hex (off + 1) (acc * 16 + v) cs)"

text \<open>The loop of \<open>parseIPv6\<close>: the bytes so far (their number is the code's \<open>i\<close>), the
  position of the ellipsis and the unread string.\<close>

function v6_loop :: "ip \<Rightarrow> nat option \<Rightarrow> string \<Rightarrow> (ip \<times> nat option \<times> string) option" where
  "v6_loop bs el s =
     (if 16 \<le> length bs then Some (bs, el, s)
      else case scan_hex 0 0 s of
        None \<Rightarrow> None
      | Some (acc, off, r) \<Rightarrow>
          if off = 0 then None
          else if r \<noteq> [] \<and> hd r = CHR ''.'' then
            (if el = None \<and> length bs \<noteq> 12 then None
             else if 16 < length bs + 4 then None
             else case parse_ipv4 s of None \<Rightarrow> None | Some q \<Rightarrow> Some (bs @ q, el, []))
          else if r = [] then Some (bs @ [of_nat (acc div 256), of_nat (acc mod 256)], el, [])
          else if hd r \<noteq> CHR '':'' \<or> tl r = [] then None
          else if hd (tl r) = CHR '':'' then
            (if el \<noteq> None then None
             else if tl (tl r) = [] then
               Some (bs @ [of_nat (acc div 256), of_nat (acc mod 256)], Some (length bs + 2), [])
             else v6_loop (bs @ [of_nat (acc div 256), of_nat (acc mod 256)])
                    (Some (length bs + 2)) (tl (tl r)))
          else v6_loop (bs @ [of_nat (acc div 256), of_nat (acc mod 256)]) el (tl r))"
  by pat_completeness auto
termination
  by (relation "measure (\<lambda>(bs, _, _). 16 - length bs)") auto

declare v6_loop.simps [simp del]

lemmas [go_defs] = parse_ipv4_def is_digit_def digit_val_def

definition v6_finish :: "ip \<times> nat option \<times> string \<Rightarrow> ip option" where
  "v6_finish st =
     (case st of (bs, el, s) \<Rightarrow>
        if s \<noteq> [] then None
        else if length bs < 16 then
          (case el of
             None \<Rightarrow> None
           | Some e \<Rightarrow> Some (take e bs @ replicate (16 - length bs) 0 @ drop e bs))
        else if el \<noteq> None then None
        else Some bs)"

text \<open>A parsed address; an IPv6 address carries its zone, empty for none.\<close>

datatype addr = Addr4 ip | Addr6 ip string

definition parse_ipv6 :: "string \<Rightarrow> addr option" where
  "parse_ipv6 inp =
     (let s = takeWhile (\<lambda>c. c \<noteq> CHR ''%'') inp;
          z = dropWhile (\<lambda>c. c \<noteq> CHR ''%'') inp;
          zone = drop 1 z
      in if z \<noteq> [] \<and> zone = [] then None
         else if take 2 s = ''::'' then
           (if drop 2 s = [] then Some (Addr6 (replicate 16 0) zone)
            else map_option (\<lambda>bs. Addr6 bs zone)
                   (Option.bind (v6_loop [] (Some 0) (drop 2 s)) v6_finish))
         else map_option (\<lambda>bs. Addr6 bs zone)
                (Option.bind (v6_loop [] None s) v6_finish))"

text \<open>\<open>netip.ParseAddr\<close>: the first of the three bytes decides the family.\<close>

fun parse_addr_at :: "string \<Rightarrow> string \<Rightarrow> addr option" where
  "parse_addr_at s [] = None"
| "parse_addr_at s (c # cs) =
     (if c = CHR ''.'' then map_option Addr4 (parse_ipv4 s)
      else if c = CHR '':'' then parse_ipv6 s
      else if c = CHR ''%'' then None
      else parse_addr_at s cs)"

definition parse_addr :: "string \<Rightarrow> addr option" where
  "parse_addr s = parse_addr_at s s"

definition v4_prefix :: ip where
  "v4_prefix = replicate 10 0 @ [0xFF, 0xFF]"

fun as16 :: "addr \<Rightarrow> ip" where
  "as16 (Addr4 bs) = v4_prefix @ bs"
| "as16 (Addr6 bs z) = bs"

fun bit_len :: "addr \<Rightarrow> nat" where
  "bit_len (Addr4 _) = 32"
| "bit_len (Addr6 _ _) = 128"

fun zone_of :: "addr \<Rightarrow> string" where
  "zone_of (Addr4 _) = []"
| "zone_of (Addr6 _ z) = z"

section \<open>The net package\<close>

definition parse_ip :: "string \<Rightarrow> ip option" where
  "parse_ip s =
     (case parse_addr s of
        None \<Rightarrow> None
      | Some a \<Rightarrow> if zone_of a \<noteq> [] then None else Some (as16 a))"

definition to4 :: "ip \<Rightarrow> ip option" where
  "to4 bs =
     (if length bs = 4 then Some bs
      else if length bs = 16 \<and> take 10 bs = replicate 10 0 \<and> bs ! 10 = 0xFF \<and> bs ! 11 = 0xFF
      then Some (drop 12 bs)
      else None)"

text \<open>\<open>dtoi\<close>: digits from the left, failing at \<open>0xFFFFFF\<close>; the value and the rest.\<close>

fun dtoi :: "nat \<Rightarrow> string \<Rightarrow> (nat \<times> string) option" where
  "dtoi n [] = Some (n, [])"
| "dtoi n (c # cs) =
     (if is_digit c
      then (if 0xFFFFFF \<le> n * 10 + digit_val c then None else dtoi (n * 10 + digit_val c) cs)
      else Some (n, c # cs))"

fun cidr_mask :: "nat \<Rightarrow> nat \<Rightarrow> ip" where
  "cidr_mask 0 n = []"
| "cidr_mask (Suc l) n =
     (if 8 \<le> n then 0xFF # cidr_mask l (n - 8)
      else NOT (drop_bit n 0xFF) # cidr_mask l 0)"

lemma cidr_mask_numeral [go_defs]:
  "cidr_mask (numeral l) n =
     (if 8 \<le> n then 0xFF # cidr_mask (pred_numeral l) (n - 8)
      else NOT (drop_bit n 0xFF) # cidr_mask (pred_numeral l) 0)"
  by (simp add: numeral_eq_Suc)

definition apply_mask :: "ip \<Rightarrow> ip \<Rightarrow> ip option" where
  "apply_mask bs m =
     (let m' = (if length m = 16 \<and> length bs = 4 \<and> take 12 m = replicate 12 0xFF
                then drop 12 m else m);
          bs' = (if length m' = 4 \<and> length bs = 16 \<and> take 12 bs = v4_prefix
                 then drop 12 bs else bs)
      in if length bs' \<noteq> length m' then None else Some (map2 (\<lambda>a b. a AND b) bs' m'))"

record ipnet =
  net_ip :: "ip option"
  net_mask :: ip

text \<open>\<open>net.ParseCIDR\<close>; the host address it also returns is not used by the program.\<close>

definition parse_cidr :: "string \<Rightarrow> ipnet option" where
  "parse_cidr s =
     (case dropWhile (\<lambda>c. c \<noteq> CHR ''/'') s of
        [] \<Rightarrow> None
      | _ # mtext \<Rightarrow>
          (case parse_addr (takeWhile (\<lambda>c. c \<noteq> CHR ''/'') s) of
             None \<Rightarrow> None
           | Some a \<Rightarrow>
               if zone_of a \<noteq> [] then None
               else case dtoi 0 mtext of
                      None \<Rightarrow> None
                    | Some (n, rest) \<Rightarrow>
                        if mtext = [] \<or> rest \<noteq> [] \<or> bit_len a < n then None
                        else let m = cidr_mask (bit_len a div 8) n
                             in Some \<lparr>net_ip = apply_mask (as16 a) m, net_mask = m\<rparr>))"

text \<open>\<open>netip.ParsePrefix\<close>: split at the last slash, no zone, no sign or leading zero in
  the length.\<close>

type_synonym prefix = "addr \<times> nat"

definition parse_prefix :: "string \<Rightarrow> prefix option" where
  "parse_prefix s =
     (if CHR ''/'' \<notin> set s then None
      else let bits = rev (takeWhile (\<lambda>c. c \<noteq> CHR ''/'') (rev s));
               host = rev (drop 1 (dropWhile (\<lambda>c. c \<noteq> CHR ''/'') (rev s)))
           in case parse_addr host of
                None \<Rightarrow> None
              | Some a \<Rightarrow>
                  if zone_of a \<noteq> [] then None
                  else if bits = [] \<or> \<not> list_all is_digit bits then None
                  else if 1 < length bits \<and> hd bits = CHR ''0'' then None
                  else if bit_len a < dec_value bits then None
                  else Some (a, dec_value bits))"

lemmas [go_defs] = parse_addr_def parse_cidr_def apply_mask_def v4_prefix_def parse_ip_def
  to4_def parse_ipv6_def v6_finish_def v6_loop.simps hex_val_def show_ipv4_def show_nat.simps
  digit_char_def

section \<open>Shapes of parsed addresses\<close>

lemma v6_loop_length:
  "v6_loop bs el s = Some (bs', el', s') \<Longrightarrow> even (length bs) \<Longrightarrow> length bs \<le> 16 \<Longrightarrow> length bs' \<le> 16"
proof (induction bs el s rule: v6_loop.induct)
  case (1 bs el s)
  show ?case
  proof (cases "16 \<le> length bs")
    case True
    with 1 show ?thesis by (simp add: v6_loop.simps [of bs])
  next
    case False
    then have "length bs + 2 \<le> 16" using 1(4) by presburger
    with False 1 show ?thesis
      by (auto simp: v6_loop.simps [of bs] split: option.splits if_splits simp: parse_ipv4_iff)
  qed
qed

lemma v6_finish_length: "v6_finish (bs, el, s) = Some r \<Longrightarrow> length bs \<le> 16 \<Longrightarrow> length r = 16"
  by (auto simp: v6_finish_def split: if_splits option.splits)

lemma v6_parse_length: "Option.bind (v6_loop [] el s) v6_finish = Some bs \<Longrightarrow> length bs = 16"
  by (auto simp: bind_eq_Some_conv dest!: v6_loop_length intro: v6_finish_length)

lemma parse_ipv6_addr6: "parse_ipv6 s = Some a \<Longrightarrow> \<exists>bs z. a = Addr6 bs z \<and> length bs = 16"
  by (auto simp: parse_ipv6_def Let_def v6_parse_length split: if_splits)

fun addr_ok :: "addr \<Rightarrow> bool" where
  "addr_ok (Addr4 bs) = (length bs = 4)"
| "addr_ok (Addr6 bs _) = (length bs = 16)"

lemma parse_addr_at_ok: "parse_addr_at s t = Some a \<Longrightarrow> addr_ok a"
  by (induction s t rule: parse_addr_at.induct)
    (auto split: if_splits dest: parse_ipv4_canonical parse_ipv6_addr6)

lemma parse_addr_ok: "parse_addr s = Some a \<Longrightarrow> addr_ok a"
  by (simp add: parse_addr_def parse_addr_at_ok)

lemma length_as16: "addr_ok a \<Longrightarrow> length (as16 a) = 16"
  by (cases a) (auto simp: v4_prefix_def)

lemma length_cidr_mask [simp]: "length (cidr_mask l n) = l"
  by (induction l n rule: cidr_mask.induct) auto

lemma parse_addr_at_Addr4: "parse_addr_at s t = Some (Addr4 bs) \<Longrightarrow> parse_ipv4 s = Some bs"
  by (induction s t rule: parse_addr_at.induct) (auto split: if_splits dest: parse_ipv6_addr6)

lemma parse_addr_show_ipv4: "length bs = 4 \<Longrightarrow> parse_addr (show_ipv4 bs) = Some (Addr4 bs)"
proof -
  assume l: "length bs = 4"
  then obtain b cs where bs: "bs = b # cs" "cs \<noteq> []" by (cases bs) fastforce+
  have skip: "parse_addr_at s (ds @ CHR ''.'' # r) = map_option Addr4 (parse_ipv4 s)"
    if "\<forall>c \<in> set ds. is_digit c" for s ds r
    using that by (induction ds) (auto simp: is_digit_def)
  show ?thesis
    using skip [of "show_nat (unat b)"] show_nat_digits bs parse_show_ipv4 [OF l]
    by (simp add: parse_addr_def show_ipv4_Cons)
qed

section \<open>Masks bit by bit\<close>

text \<open>Bit \<open>k\<close> of an address, counted from the most significant bit of its first byte.\<close>

definition ip_bit :: "ip \<Rightarrow> nat \<Rightarrow> bool" where
  "ip_bit bs k = bit (bs ! (k div 8)) (7 - k mod 8)"

lemma cidr_mask_bit: "k < 8 * l \<Longrightarrow> ip_bit (cidr_mask l n) k \<longleftrightarrow> k < n"
proof (induction l n arbitrary: k rule: cidr_mask.induct)
  case (2 l n)
  have ones: "(0xFF :: u8) = - 1" by simp
  show ?case
  proof (cases "k < 8")
    case True
    then show ?thesis
      by (auto simp: ip_bit_def bit_not_iff bit_drop_bit_eq bit_mask_iff ones)
  next
    case False
    then obtain j where k: "k = 8 + j" using le_Suc_ex not_less by blast
    have "(8 + j) div 8 = Suc (j div 8)" by simp
    with k 2 have "ip_bit (cidr_mask (Suc l) n) k
        \<longleftrightarrow> ip_bit (cidr_mask l (if 8 \<le> n then n - 8 else 0)) j"
      by (auto simp: ip_bit_def simp del: div_add_self1)
    with 2 k show ?thesis by auto
  qed
qed simp

lemma map2_and_bit:
  "length a = length m \<Longrightarrow> k < 8 * length m \<Longrightarrow>
   ip_bit (map2 (\<lambda>x y. x AND y) a m) k \<longleftrightarrow> ip_bit a k \<and> ip_bit m k"
  by (simp add: ip_bit_def bit_and_iff less_mult_imp_div_less mult.commute)

end
