(* ===== verification/Routing.thy ===== *)
theory Routing
  imports Daemon_Exec Go_Net
begin

text \<open>
  Static routes (windows_daemon/routing.go): validation of the client's CIDR and gateway and
  the route.exe commands. The lemmas show that validation accepts exactly canonical IPv4
  networks, that the network and mask handed on are the masked bits, and that no byte of
  the client's text reaches a command line other than as a printed dotted quad.
\<close>

section \<open>Model\<close>

definition parse_ipv4_cidr :: "'a env_scheme \<Rightarrow> string \<Rightarrow> (string \<times> string) result" where
  "parse_ipv4_cidr e cidr =
     (case parse_cidr cidr of
        None \<Rightarrow> Inl (''invalid cidr '' @ go_quote (uni_print e) cidr)
      | Some ipnet \<Rightarrow>
          (case Option.bind (net_ip ipnet) to4 of
             None \<Rightarrow> Inl (''cidr '' @ go_quote (uni_print e) cidr @ '' is not IPv4'')
           | Some v4 \<Rightarrow>
               if length (net_mask ipnet) \<noteq> 4
               then Inl (''cidr '' @ go_quote (uni_print e) cidr @ '' is not IPv4'')
               else Inr (show_ipv4 v4, show_ipv4 (net_mask ipnet))))"

definition add_route :: "os \<Rightarrow> string \<Rightarrow> string \<Rightarrow> string option exec" where
  "add_route os cidr gateway =
     (case parse_ipv4_cidr os cidr of
        Inl err \<Rightarrow> return (Some err)
      | Inr (ip, msk) \<Rightarrow>
          (case Option.bind (parse_ip gateway) to4 of
             None \<Rightarrow> return (Some (''invalid gateway '' @ go_quote (uni_print os) gateway))
           | Some gw4 \<Rightarrow>
               run os (system32 os ''route.exe'') [''ADD'', ip, ''MASK'', msk, show_ipv4 gw4]))"

definition remove_route :: "os \<Rightarrow> string \<Rightarrow> string option exec" where
  "remove_route os cidr =
     (case parse_ipv4_cidr os cidr of
        Inl err \<Rightarrow> return (Some err)
      | Inr (ip, _) \<Rightarrow> run os (system32 os ''route.exe'') [''DELETE'', ip])"

section \<open>Validation\<close>

text \<open>The text of an IPv4 network in the form the client sends.\<close>

definition cidr_text :: "ip \<Rightarrow> string \<Rightarrow> string" where
  "cidr_text q bits = show_ipv4 q @ CHR ''/'' # bits"

lemma no_slash_ipv4: "CHR ''/'' \<notin> set (show_ipv4 q)"
  using show_ipv4_chars [of q] by (auto simp: quad_char_def is_digit_def)

lemma foldl_dec_step_le: "foldl dec_step v (ds @ [d]) \<le> b \<Longrightarrow> foldl dec_step v ds \<le> b"
  by (simp add: dec_step_def)

lemma dtoi_digits:
  "list_all is_digit ds \<Longrightarrow> foldl dec_step n ds < 0xFFFFFF \<Longrightarrow> dtoi n ds = Some (foldl dec_step n ds, [])"
proof (induction ds arbitrary: n)
  case (Cons d ds)
  have "dec_step n d \<le> foldl dec_step (dec_step n d) ds" by (rule foldl_dec_ge)
  then have "dec_step n d < 0xFFFFFF" using Cons.prems by simp
  then have "\<not> 0xFFFFFF \<le> n * 10 + digit_val d" by (simp add: dec_step_def)
  with Cons.prems Cons.IH [of "dec_step n d"] show ?case
    by (simp add: dec_step_def [of n d, symmetric])
qed simp

lemma dtoi_Some_digits: "dtoi n ds = Some (v, []) \<Longrightarrow> list_all is_digit ds \<and> v = foldl dec_step n ds"
  by (induction n ds rule: dtoi.induct) (auto simp: dec_step_def split: if_splits)

lemma apply_mask_v4:
  assumes "length q = 4" "length m = 4"
  shows "apply_mask (v4_prefix @ q) m = Some (map2 (\<lambda>a b. a AND b) q m)"
  using assms by (simp add: apply_mask_def v4_prefix_def)

lemma to4_quad: "length q = 4 \<Longrightarrow> to4 q = Some q"
  by (simp add: to4_def)

lemma to4_length: "to4 b = Some v \<Longrightarrow> length v = 4"
  by (auto simp: to4_def split: if_splits)

lemma to4_mapped: "length q = 4 \<Longrightarrow> to4 (v4_prefix @ q) = Some q"
  by (simp add: to4_def v4_prefix_def nth_append)

lemma parse_cidr_text:
  assumes "length q = 4" "list_all is_digit bits" "bits \<noteq> []" "dec_value bits \<le> 32"
  shows "parse_cidr (cidr_text q bits) =
    Some \<lparr>net_ip = Some (map2 (\<lambda>a b. a AND b) q (cidr_mask 4 (dec_value bits))),
          net_mask = cidr_mask 4 (dec_value bits)\<rparr>"
proof -
  have "takeWhile (\<lambda>c. c \<noteq> CHR ''/'') (cidr_text q bits) = show_ipv4 q"
    and "dropWhile (\<lambda>c. c \<noteq> CHR ''/'') (cidr_text q bits) = CHR ''/'' # bits"
    using no_slash_ipv4 [of q] by (simp_all add: cidr_text_def)
  moreover have "dtoi 0 bits = Some (dec_value bits, [])"
    using dtoi_digits [OF assms(2), of 0] assms(4) by (simp add: dec_value_def)
  ultimately show ?thesis
    using assms by (simp add: parse_cidr_def parse_addr_show_ipv4 apply_mask_v4 Let_def)
qed

lemma parse_cidr_split:
  assumes "parse_cidr s = Some n"
  obtains a bits where "parse_addr (takeWhile (\<lambda>c. c \<noteq> CHR ''/'') s) = Some a" "zone_of a = []"
    and "s = takeWhile (\<lambda>c. c \<noteq> CHR ''/'') s @ CHR ''/'' # bits"
    and "list_all is_digit bits" "bits \<noteq> []" "dec_value bits \<le> bit_len a"
    and "net_ip n = apply_mask (as16 a) (net_mask n)"
    and "net_mask n = cidr_mask (bit_len a div 8) (dec_value bits)"
proof -
  from assms obtain c bits where d: "dropWhile (\<lambda>c. c \<noteq> CHR ''/'') s = c # bits"
    by (auto simp: parse_cidr_def split: list.splits)
  then have c: "c = CHR ''/''" by (auto simp: dropWhile_eq_Cons_conv)
  have s: "s = takeWhile (\<lambda>c. c \<noteq> CHR ''/'') s @ CHR ''/'' # bits"
    using d c takeWhile_dropWhile_id [of "\<lambda>c. c \<noteq> CHR ''/''" s] by simp
  from assms d c obtain a v where a: "parse_addr (takeWhile (\<lambda>c. c \<noteq> CHR ''/'') s) = Some a"
      "zone_of a = []" "dtoi 0 bits = Some (v, [])" "bits \<noteq> []" "v \<le> bit_len a"
      "n = \<lparr>net_ip = apply_mask (as16 a) (cidr_mask (bit_len a div 8) v),
            net_mask = cidr_mask (bit_len a div 8) v\<rparr>"
    by (auto simp: parse_cidr_def Let_def split: option.splits if_splits)
  with dtoi_Some_digits [OF a(3)] s show ?thesis
    by (intro that [of a bits]) (auto simp: dec_value_def)
qed

text \<open>Validation accepts exactly a canonical dotted quad, a slash and a prefix length of at
  most 32, and gives the network and the mask of that length.\<close>

lemma parse_ipv4_cidr_iff:
  "parse_ipv4_cidr e s = Inr (ip, msk) \<longleftrightarrow>
     (\<exists>q bits. length q = 4 \<and> list_all is_digit bits \<and> bits \<noteq> [] \<and> dec_value bits \<le> 32
        \<and> s = cidr_text q bits
        \<and> ip = show_ipv4 (map2 (\<lambda>a b. a AND b) q (cidr_mask 4 (dec_value bits)))
        \<and> msk = show_ipv4 (cidr_mask 4 (dec_value bits)))"
    (is "_ \<longleftrightarrow> (\<exists>q bits. ?R q bits)")
proof
  assume "parse_ipv4_cidr e s = Inr (ip, msk)"
  then obtain n v4 where n: "parse_cidr s = Some n" "Option.bind (net_ip n) to4 = Some v4"
      "length (net_mask n) = 4" "ip = show_ipv4 v4" "msk = show_ipv4 (net_mask n)"
    by (auto simp: parse_ipv4_cidr_def split: option.splits if_splits)
  from n(1) obtain a bits where a: "parse_addr (takeWhile (\<lambda>c. c \<noteq> CHR ''/'') s) = Some a"
      "s = takeWhile (\<lambda>c. c \<noteq> CHR ''/'') s @ CHR ''/'' # bits"
      "list_all is_digit bits" "bits \<noteq> []" "dec_value bits \<le> bit_len a"
      "net_ip n = apply_mask (as16 a) (net_mask n)"
      "net_mask n = cidr_mask (bit_len a div 8) (dec_value bits)"
    by (elim parse_cidr_split)
  from a(7) n(3) obtain q where q: "a = Addr4 q" by (cases a) auto
  with a(1) have "parse_ipv4 (takeWhile (\<lambda>c. c \<noteq> CHR ''/'') s) = Some q"
    by (simp add: parse_addr_def parse_addr_at_Addr4)
  then have host: "length q = 4" "takeWhile (\<lambda>c. c \<noteq> CHR ''/'') s = show_ipv4 q"
    by (auto simp: parse_ipv4_iff)
  have "v4 = map2 (\<lambda>a b. a AND b) q (cidr_mask 4 (dec_value bits))"
    using n(2) a(6,7) q host(1) by (simp add: apply_mask_v4 to4_quad)
  with a n host q show "\<exists>q bits. ?R q bits"
    by (intro exI [of _ q] exI [of _ bits]) (simp add: cidr_text_def)
next
  assume "\<exists>q bits. ?R q bits"
  then show "parse_ipv4_cidr e s = Inr (ip, msk)"
    by (auto simp: parse_ipv4_cidr_def parse_cidr_text to4_quad)
qed

lemma parse_ipv4_cidr_quads:
  "parse_ipv4_cidr e s = Inr (ip, msk) \<Longrightarrow>
     \<exists>a m. length a = 4 \<and> length m = 4 \<and> ip = show_ipv4 a \<and> msk = show_ipv4 m"
proof -
  assume "parse_ipv4_cidr e s = Inr (ip, msk)"
  then obtain q bits where "length q = 4"
      "ip = show_ipv4 (map2 (\<lambda>a b. a AND b) q (cidr_mask 4 (dec_value bits)))"
      "msk = show_ipv4 (cidr_mask 4 (dec_value bits))"
    unfolding parse_ipv4_cidr_iff by blast
  then show ?thesis
    by (intro exI [of _ "map2 (\<lambda>a b. a AND b) q (cidr_mask 4 (dec_value bits))"]
        exI [of _ "cidr_mask 4 (dec_value bits)"]) simp
qed

section \<open>Commands\<close>

text \<open>The only shapes of a route command: verbs and printed quads.\<close>

definition route_cmd :: "os \<Rightarrow> command \<Rightarrow> bool" where
  "route_cmd os c \<longleftrightarrow>
     cmd_path c = system32 os ''route.exe''
     \<and> (\<exists>ip. length ip = 4 \<and>
         (cmd_args c = [''DELETE'', show_ipv4 ip]
          \<or> (\<exists>m g. length m = 4 \<and> length g = 4
               \<and> cmd_args c = [''ADD'', show_ipv4 ip, ''MASK'', show_ipv4 m, show_ipv4 g])))"

lemma confined_add_route: "confined (route_cmd os) (add_route os cidr gw)"
  unfolding add_route_def
  by (auto intro!: confined_intros split: prod.splits option.splits
      dest!: parse_ipv4_cidr_quads simp: route_cmd_def)
    (metis (no_types, lifting) bind_eq_Some_conv to4_length)

lemma confined_remove_route: "confined (route_cmd os) (remove_route os cidr)"
  unfolding remove_route_def
  by (auto intro!: confined_intros split: prod.splits dest!: parse_ipv4_cidr_quads simp: route_cmd_def)

section \<open>Properties\<close>

text \<open>The network of an address and a prefix length.\<close>

definition network :: "ip \<Rightarrow> nat \<Rightarrow> ip" where
  "network q n = map2 (\<lambda>a b. a AND b) q (cidr_mask 4 n)"

text \<open>C18. A valid request to add a route runs exactly one route.exe command, whose network is
  the first n bits of the given address, whose mask has exactly its first n bits set, and
  whose gateway is the given one; the result is that of the command.\<close>

theorem add_route_runs:
  assumes "length q = 4" "length g = 4"
    and "list_all is_digit bits" "bits \<noteq> []" "dec_value bits = n" "n \<le> 32"
  shows "run_state (add_route os (cidr_text q bits) (show_ipv4 g)) h =
      (let c = tool (system32 os ''route.exe'')
         [''ADD'', show_ipv4 (network q n), ''MASK'', show_ipv4 (cidr_mask 4 n), show_ipv4 g]
       in (exec_result os h c, h @ [c]))
    \<and> (\<forall>k < 32. ip_bit (network q n) k \<longleftrightarrow> k < n \<and> ip_bit q k)
    \<and> (\<forall>k < 32. ip_bit (cidr_mask 4 n) k \<longleftrightarrow> k < n)"
proof -
  have "parse_ipv4_cidr os (cidr_text q bits) = Inr (show_ipv4 (network q n), show_ipv4 (cidr_mask 4 n))"
    using assms by (auto simp: parse_ipv4_cidr_iff network_def)
  moreover have "Option.bind (parse_ip (show_ipv4 g)) to4 = Some g"
    using assms by (simp add: parse_ip_def parse_addr_show_ipv4 to4_mapped)
  ultimately show ?thesis
    using assms(1) by (auto simp: add_route_def Let_def network_def map2_and_bit cidr_mask_bit)
qed

text \<open>An environment for the witnesses: no variable set, every command succeeds.\<close>

definition plain_os :: os where
  "plain_os = \<lparr>getenv = (\<lambda>_. []), uni_fold = (\<lambda>r. r), uni_print = (\<lambda>_. False),
               exec_result = (\<lambda>_ _. None)\<rparr>"

theorem add_route_runs_witness:
  "run_state (add_route plain_os (cidr_text [10, 1, 2, 3] ''8'') (show_ipv4 [10, 0, 0, 1])) []
   = (None, [tool (system32 plain_os ''route.exe'')
       [''ADD'', show_ipv4 [10, 0, 0, 0], ''MASK'', show_ipv4 [255, 0, 0, 0], show_ipv4 [10, 0, 0, 1]]])"
proof -
  have "dec_value ''8'' = 8" by (simp add: dec_value_def dec_step_def digit_val_def)
  moreover have m: "cidr_mask 4 8 = [255, 0, 0, 0]" by (simp add: cidr_mask_numeral)
  moreover have "network [10, 1, 2, 3] 8 = [10, 0, 0, 0]" by (simp add: network_def m)
  ultimately show ?thesis
    using add_route_runs [of "[10, 1, 2, 3]" "[10, 0, 0, 1]" "''8''" 8 plain_os "[]"]
    by (simp add: is_digit_def plain_os_def Let_def)
qed

text \<open>C19. A request to add a route runs a command exactly when the CIDR is a canonical dotted
  quad with a prefix length of at most 32 and the gateway is an IPv4 address; in every other
  case nothing is run and an error is returned.\<close>

theorem add_route_validates:
  "if (\<exists>q bits. length q = 4 \<and> list_all is_digit bits \<and> bits \<noteq> [] \<and> dec_value bits \<le> 32
         \<and> cidr = cidr_text q bits)
      \<and> Option.bind (parse_ip gw) to4 \<noteq> None
   then \<exists>c. snd (run_state (add_route os cidr gw) h) = h @ [c]
   else \<exists>e. run_state (add_route os cidr gw) h = (Some e, h)"
proof -
  have ok: "(\<exists>q bits. length q = 4 \<and> list_all is_digit bits \<and> bits \<noteq> [] \<and> dec_value bits \<le> 32
         \<and> cidr = cidr_text q bits) \<longleftrightarrow> (\<exists>r. parse_ipv4_cidr os cidr = Inr r)"
    by (auto simp: parse_ipv4_cidr_iff)
  show ?thesis
    unfolding ok by (auto simp: add_route_def split: sum.splits option.splits prod.splits)
qed

text \<open>Whatever the client sends, a route request runs route.exe only, and with arguments
  that are the verbs or canonical dotted quads: no byte of the request reaches a command
  line in any other form.\<close>

lemma route_commands_confined:
  "confined (\<lambda>c. route_cmd os c \<and> list_all (\<lambda>a. a \<in> {''ADD'', ''MASK'', ''DELETE''} \<or> list_all quad_char a) (cmd_args c))
     (add_route os cidr gw)
   \<and> confined (\<lambda>c. route_cmd os c \<and> list_all (\<lambda>a. a \<in> {''ADD'', ''MASK'', ''DELETE''} \<or> list_all quad_char a) (cmd_args c))
     (remove_route os cidr)"
proof -
  have "route_cmd os c \<Longrightarrow>
      route_cmd os c \<and> list_all (\<lambda>a. a \<in> {''ADD'', ''MASK'', ''DELETE''} \<or> list_all quad_char a) (cmd_args c)" for c
    using show_ipv4_chars by (auto simp: route_cmd_def list_all_iff)
  note mono = confined_mono [where ok' = "\<lambda>c. route_cmd os c
      \<and> list_all (\<lambda>a. a \<in> {''ADD'', ''MASK'', ''DELETE''} \<or> list_all quad_char a) (cmd_args c)", OF _ this]
  show ?thesis
    by (rule conjI; rule mono; (rule confined_add_route confined_remove_route | assumption))
qed

text \<open>An IPv6 network is refused even when it is an IPv4-mapped one, whose address part
  does convert to four bytes: no command is run.\<close>

lemma ipv6_cidr_refused:
  assumes "parse_addr host = Some (Addr6 b z)" "CHR ''/'' \<notin> set host"
  shows "\<exists>e. run_state (add_route os (host @ CHR ''/'' # bits) gw) h = (Some e, h)
    \<and> run_state (remove_route os (host @ CHR ''/'' # bits)) h = (Some e, h)"
proof -
  have "parse_ipv4_cidr os (host @ CHR ''/'' # bits) \<noteq> Inr r" for r
  proof (cases r)
    case (Pair ip msk)
    have "host \<noteq> show_ipv4 q" if "length q = 4" for q
      using assms(1) parse_addr_show_ipv4 [OF that] by auto
    moreover have "takeWhile (\<lambda>c. c \<noteq> CHR ''/'') (cidr_text q bs) = show_ipv4 q" for q bs
      using no_slash_ipv4 [of q] by (simp add: cidr_text_def)
    ultimately show ?thesis
      using assms(2) Pair by (auto simp: parse_ipv4_cidr_iff) (metis split_at_stop(1))
  qed
  then obtain e where "parse_ipv4_cidr os (host @ CHR ''/'' # bits) = Inl e"
    by (cases "parse_ipv4_cidr os (host @ CHR ''/'' # bits)") auto
  then show ?thesis by (simp add: add_route_def remove_route_def)
qed

end
