(* ===== verification/Ipc.thy ===== *)
theory Ipc
  imports Wire Firewall Routing
begin

text \<open>
  The daemon's side of one connection (windows_daemon/ipc.go and the \<open>pipeConn\<close> of pipe.go):
  the token check, the dispatch of a request to a privileged operation and the loop that
  answers a client line by line.
\<close>

section \<open>Dispatch\<close>

text \<open>\<open>subtle.ConstantTimeCompare\<close>: the bytes are compared without an early exit.\<close>

definition ct_byte_eq :: "u8 \<Rightarrow> u8 \<Rightarrow> nat" where
  "ct_byte_eq x y = unat (drop_bit 31 ((ucast (x XOR y) :: 32 word) - 1))"

definition constant_time_compare :: "u8 list \<Rightarrow> u8 list \<Rightarrow> nat" where
  "constant_time_compare x y =
     (if length x \<noteq> length y then 0
      else ct_byte_eq (foldl (\<lambda>v (a, b). v OR (a XOR b)) 0 (zip x y)) 0)"

definition bytes_of :: "string \<Rightarrow> u8 list" where
  "bytes_of s = map of_char s"

text \<open>The type assertions \<open>v, _ := params[k].(bool)\<close> and \<open>.(string)\<close>.\<close>

definition bool_param :: "request \<Rightarrow> string \<Rightarrow> bool" where
  "bool_param r k = (case req_params r k of Some (JBool b) \<Rightarrow> b | _ \<Rightarrow> False)"

definition string_param :: "request \<Rightarrow> string \<Rightarrow> string" where
  "string_param r k = (case req_params r k of Some (JStr s) \<Rightarrow> s | _ \<Rightarrow> [])"

definition error_resp :: "64 word \<Rightarrow> string \<Rightarrow> response" where
  "error_resp i e = \<lparr>resp_id = i, resp_ok = False, resp_result = [], resp_error = e\<rparr>"

definition ok_resp :: "64 word \<Rightarrow> (string \<times> json) list \<Rightarrow> response" where
  "ok_resp i fs = \<lparr>resp_id = i, resp_ok = True, resp_result = fs, resp_error = []\<rparr>"

definition op_result :: "64 word \<Rightarrow> string option \<Rightarrow> response" where
  "op_result i e = (case e of Some msg \<Rightarrow> error_resp i msg | None \<Rightarrow> ok_resp i [])"

definition dispatch :: "os \<Rightarrow> string \<Rightarrow> string \<Rightarrow> request \<Rightarrow> response exec" where
  "dispatch os token verified_path req =
     (if constant_time_compare (bytes_of (req_token req)) (bytes_of token) \<noteq> 1
      then return (error_resp (req_id req) ''unauthorized'')
      else if req_method req = ''ping''
      then return (ok_resp (req_id req) [(''pong'', JBool True)])
      else if req_method req = ''killSwitch''
      then do { e \<leftarrow> (if bool_param req ''enabled'' then enable_kill_switch os verified_path
                     else disable_kill_switch os verified_path);
                return (op_result (req_id req) e) }
      else if req_method req = ''addRoute''
      then do { e \<leftarrow> add_route os (string_param req ''cidr'') (string_param req ''gateway'');
                return (op_result (req_id req) e) }
      else if req_method req = ''removeRoute''
      then do { e \<leftarrow> remove_route os (string_param req ''cidr'');
                return (op_result (req_id req) e) }
      else return (error_resp (req_id req) (''unknown method: '' @ req_method req)))"

text \<open>The answer to one line, as written to the pipe.\<close>

definition answer :: "os \<Rightarrow> string \<Rightarrow> string \<Rightarrow> string \<Rightarrow> string exec" where
  "answer os token verified_path line =
     (case decode_request (uni_fold os) line of
        None \<Rightarrow> return (write_resp (error_resp 0 ''invalid json''))
      | Some req \<Rightarrow> do { r \<leftarrow> dispatch os token verified_path req; return (write_resp r) })"

section \<open>Reading the pipe\<close>

text \<open>What \<open>ReadFile\<close> did: bytes, or an error after some bytes.\<close>

datatype read_file = ReadOk string | ReadBroken string | ReadFailed string

datatype read_err = EOF | OtherError

fun pipe_read :: "read_file \<Rightarrow> string \<times> read_err option" where
  "pipe_read (ReadBroken p) = (p, Some EOF)"
| "pipe_read (ReadFailed p) = (p, Some OtherError)"
| "pipe_read (ReadOk p) = (if p = [] then ([], Some EOF) else (p, None))"

text \<open>\<open>bufio.Reader\<close>: the bytes not yet consumed and the error met when filling.\<close>

record bufio =
  b_buf :: string
  b_err :: "read_err option"

datatype read_result = Line string | Failed read_err | Blocked

definition fill :: "bufio \<Rightarrow> read_file \<Rightarrow> bufio" where
  "fill b r = (case pipe_read r of (p, e) \<Rightarrow> \<lparr>b_buf = b_buf b @ p, b_err = e\<rparr>)"

text \<open>\<open>ReadBytes('\\n')\<close>: buffered lines are served before a pending error is reported;
  \<open>Blocked\<close> when the pipe has no more to read yet.\<close>

fun read_bytes :: "bufio \<Rightarrow> read_file list \<Rightarrow> read_result \<times> bufio \<times> read_file list" where
  "read_bytes b rs =
     (if newline \<in> set (b_buf b) then
        (Line (takeWhile (\<lambda>c. c \<noteq> newline) (b_buf b) @ [newline]),
         b\<lparr>b_buf := tl (dropWhile (\<lambda>c. c \<noteq> newline) (b_buf b))\<rparr>, rs)
      else case b_err b of
          Some e \<Rightarrow> (Failed e, b\<lparr>b_buf := []\<rparr>, rs)
        | None \<Rightarrow> (case rs of [] \<Rightarrow> (Blocked, b, []) | r # rs' \<Rightarrow> read_bytes (fill b r) rs'))"

declare read_bytes.simps [simp del]

text \<open>The bytes a connection still holds.\<close>

definition read_size :: "bufio \<Rightarrow> read_file list \<Rightarrow> nat" where
  "read_size b rs = length (b_buf b) + (\<Sum>r \<leftarrow> rs. length (fst (pipe_read r)))"

lemma read_size_fill: "read_size (fill b r) rs = read_size b (r # rs)"
  by (simp add: read_size_def fill_def split: prod.splits)

lemma read_bytes_smaller: "read_bytes b rs = (Line l, b', rs') \<Longrightarrow> read_size b' rs' < read_size b rs"
proof (induction b rs rule: read_bytes.induct)
  case (1 b rs)
  show ?case
  proof (cases "newline \<in> set (b_buf b)")
    case True
    then obtain xs ys where xy: "b_buf b = xs @ newline # ys" "newline \<notin> set xs"
      by (meson split_list_first)
    with 1(2) show ?thesis by (auto simp: read_bytes.simps [of b rs] read_size_def)
  next
    case False
    with 1(2) obtain r rs'' where r: "b_err b = None" "rs = r # rs''"
      by (auto simp: read_bytes.simps [of b rs] split: option.splits list.splits)
    with 1(2) False have "read_bytes (fill b r) rs'' = (Line l, b', rs')"
      by (simp add: read_bytes.simps [of b "r # rs''"])
    with 1(1) [OF False r] show ?thesis by (simp add: r read_size_fill)
  qed
qed

section \<open>Serving a connection\<close>

datatype pipe_call = WriteFile string | FlushFileBuffers | DisconnectNamedPipe | CloseConn

definition conn_close :: "pipe_call list" where
  "conn_close = [FlushFileBuffers, DisconnectNamedPipe, CloseConn]"

text \<open>The loop of \<open>handle\<close> over the way a line is answered; the calls on the pipe are its
  value, the commands are in the log. The connection closes when reading fails.\<close>

function handle_loop :: "(string \<Rightarrow> string exec) \<Rightarrow> bufio \<Rightarrow> read_file list \<Rightarrow> pipe_call list exec" where
  "handle_loop ans b rs =
     (case read_bytes b rs of
        (Line l, b', rs') \<Rightarrow> do { out \<leftarrow> ans l; calls \<leftarrow> handle_loop ans b' rs'; return (WriteFile out # calls) }
      | (Failed e, _, _) \<Rightarrow> return conn_close
      | (Blocked, _, _) \<Rightarrow> return [])"
  by pat_completeness auto
termination
  by (relation "measure (\<lambda>(_, b, rs). read_size b rs)") (auto intro: read_bytes_smaller [OF sym])

declare handle_loop.simps [simp del]

definition new_reader :: bufio where
  "new_reader = \<lparr>b_buf = [], b_err = None\<rparr>"

definition handle :: "os \<Rightarrow> string \<Rightarrow> string \<Rightarrow> read_file list \<Rightarrow> pipe_call list exec" where
  "handle os token verified_path rs = handle_loop (answer os token verified_path) new_reader rs"

section \<open>What a connection is served\<close>

text \<open>The bytes a client delivers before the first error, and that error; how they are cut
  into reads does not matter.\<close>

fun delivered :: "read_file list \<Rightarrow> string \<times> read_err option" where
  "delivered [] = ([], None)"
| "delivered (r # rs) =
     (case pipe_read r of
        (p, Some e) \<Rightarrow> (p, Some e)
      | (p, None) \<Rightarrow> (case delivered rs of (q, e) \<Rightarrow> (p @ q, e)))"

definition complete_lines :: "string \<Rightarrow> string list" where
  "complete_lines s = map (\<lambda>l. l @ [newline]) (butlast (split_on newline s))"

fun serve_lines :: "(string \<Rightarrow> string exec) \<Rightarrow> string list \<Rightarrow> pipe_call list exec" where
  "serve_lines ans [] = return []"
| "serve_lines ans (l # ls) =
     do { out \<leftarrow> ans l; cs \<leftarrow> serve_lines ans ls; return (WriteFile out # cs) }"

definition serve :: "(string \<Rightarrow> string exec) \<Rightarrow> string \<times> read_err option \<Rightarrow> pipe_call list exec" where
  "serve ans = (\<lambda>(s, e). do { cs \<leftarrow> serve_lines ans (complete_lines s);
                              return (cs @ (if e = None then [] else conn_close)) })"

definition remaining :: "bufio \<Rightarrow> read_file list \<Rightarrow> string \<times> read_err option" where
  "remaining b rs =
     (case b_err b of
        Some e \<Rightarrow> (b_buf b, Some e)
      | None \<Rightarrow> (case delivered rs of (p, e) \<Rightarrow> (b_buf b @ p, e)))"

lemma remaining_fill: "b_err b = None \<Longrightarrow> remaining (fill b r) rs = remaining b (r # rs)"
  by (simp add: remaining_def fill_def split: prod.splits option.splits)

lemma complete_lines_Cons: "newline \<notin> set m \<Longrightarrow>
  complete_lines (m @ newline # t) = (m @ [newline]) # complete_lines t"
  by (simp add: complete_lines_def split_on_append)

lemma complete_lines_none: "newline \<notin> set s \<Longrightarrow> complete_lines s = []"
  by (simp add: complete_lines_def split_on_no_sep)

lemma read_bytes_spec:
  "case read_bytes b rs of
     (Line l, b', rs') \<Rightarrow> \<exists>m t e. remaining b rs = (m @ newline # t, e) \<and> l = m @ [newline]
        \<and> newline \<notin> set m \<and> remaining b' rs' = (t, e)
   | (Failed e, b', rs') \<Rightarrow> newline \<notin> set (fst (remaining b rs)) \<and> snd (remaining b rs) = Some e
   | (Blocked, b', rs') \<Rightarrow> newline \<notin> set (fst (remaining b rs)) \<and> snd (remaining b rs) = None"
proof (induction b rs rule: read_bytes.induct)
  case (1 b rs)
  show ?case
  proof (cases "newline \<in> set (b_buf b)")
    case True
    then obtain xs ys where xy: "b_buf b = xs @ newline # ys" "newline \<notin> set xs"
      by (meson split_list_first)
    then show ?thesis
      by (auto simp: read_bytes.simps [of b rs] remaining_def split: option.splits prod.splits)
  next
    case False
    show ?thesis
    proof (cases "b_err b")
      case None
      show ?thesis
      proof (cases rs)
        case Nil
        with False None show ?thesis by (simp add: read_bytes.simps [of b "[]"] remaining_def)
      next
        case (Cons r rs')
        have b: "read_bytes b rs = read_bytes (fill b r) rs'"
          using False None Cons by (simp add: read_bytes.simps [of b "r # rs'"])
        have r: "remaining b rs = remaining (fill b r) rs'"
          using remaining_fill [OF None] Cons by simp
        show ?thesis unfolding b r by (rule 1 [OF False None Cons])
      qed
    next
      case (Some e)
      with False show ?thesis by (simp add: read_bytes.simps [of b rs] remaining_def)
    qed
  qed
qed

lemma handle_loop_serve: "handle_loop ans b rs = serve ans (remaining b rs)"
proof (induction ans b rs rule: handle_loop.induct)
  case (1 ans b rs)
  obtain q b' rs' where q: "read_bytes b rs = (q, b', rs')" by (cases "read_bytes b rs") auto
  note spec = read_bytes_spec [of b rs]
  show ?case
  proof (cases q)
    case (Line l)
    with spec q obtain m t e where m: "remaining b rs = (m @ newline # t, e)" "l = m @ [newline]"
        "newline \<notin> set m" "remaining b' rs' = (t, e)" by auto
    have "handle_loop ans b' rs' = serve ans (t, e)"
      using 1 [OF q [symmetric] Line refl] m(4) by simp
    then show ?thesis
      using q Line m by (simp add: handle_loop.simps [of ans b rs] serve_def complete_lines_Cons)
  next
    case (Failed e)
    with spec q show ?thesis
      by (cases "remaining b rs")
        (simp add: handle_loop.simps [of ans b rs] serve_def complete_lines_none)
  next
    case Blocked
    with spec q show ?thesis
      by (cases "remaining b rs")
        (simp add: handle_loop.simps [of ans b rs] serve_def complete_lines_none)
  qed
qed

lemma handle_serve: "handle os tok p rs = serve (answer os tok p) (delivered rs)"
  by (simp add: handle_def handle_loop_serve remaining_def new_reader_def split: prod.splits)

section \<open>Servers of lines\<close>

text \<open>What the loop relies on: answering a line runs allowed commands only and gives one
  line. Whatever a client sends, the connection then runs allowed commands only, and every
  line gets one line back.\<close>

definition one_line_text :: "string \<Rightarrow> bool" where
  "one_line_text out \<longleftrightarrow> (\<exists>m. out = m @ [newline] \<and> newline \<notin> set m)"

locale line_server =
  fixes ans :: "string \<Rightarrow> string exec"
    and ok :: "command \<Rightarrow> bool"
  assumes ans_confined: "confined ok (ans l)"
    and ans_line: "one_line_text (fst (run_state (ans l) h))"
begin

lemma serve_lines_confined: "confined ok (serve_lines ans ls)"
  by (induction ls) (auto intro!: confined_intros ans_confined)

lemma serve_confined: "confined ok (serve ans d)"
  unfolding serve_def by (auto intro!: confined_intros serve_lines_confined split: prod.splits)

lemma loop_confined: "confined ok (handle_loop ans b rs)"
  by (simp add: handle_loop_serve serve_confined)

lemma serve_lines_writes:
  "\<exists>outs. fst (run_state (serve_lines ans ls) h) = map WriteFile outs
     \<and> length outs = length ls \<and> list_all one_line_text outs"
proof (induction ls arbitrary: h)
  case (Cons l ls)
  obtain out h' where a: "run_state (ans l) h = (out, h')" by fastforce
  obtain cs h'' where cs: "run_state (serve_lines ans ls) h' = (cs, h'')" by fastforce
  from Cons [of h'] cs obtain outs where "cs = map WriteFile outs" "length outs = length ls"
      "list_all one_line_text outs" by auto
  moreover have "one_line_text out" using ans_line [of l h] a by simp
  ultimately show ?case
    using a cs by (intro exI [of _ "out # outs"]) simp
qed simp

lemma loop_writes:
  "\<exists>outs. fst (run_state (handle_loop ans new_reader rs) h)
       = map WriteFile outs @ (if snd (delivered rs) = None then [] else conn_close)
     \<and> length outs = length (complete_lines (fst (delivered rs))) \<and> list_all one_line_text outs"
proof -
  obtain s e where d: "delivered rs = (s, e)" by fastforce
  obtain cs h' where cs: "run_state (serve_lines ans (complete_lines s)) h = (cs, h')" by fastforce
  from serve_lines_writes [of "complete_lines s" h] cs obtain outs
    where "cs = map WriteFile outs" "length outs = length (complete_lines s)" "list_all one_line_text outs"
    by auto
  then show ?thesis
    using d cs by (auto simp: handle_loop_serve remaining_def new_reader_def serve_def)
qed

end

text \<open>The commands of the daemon: those of the kill switch for the verified peer, and
  route commands.\<close>

definition daemon_cmd :: "os \<Rightarrow> string \<Rightarrow> command \<Rightarrow> bool" where
  "daemon_cmd os verified_path c \<longleftrightarrow> kill_switch_cmd os verified_path c \<or> route_cmd os c"

lemma dispatch_confined: "confined (daemon_cmd os p) (dispatch os tok p req)"
  unfolding dispatch_def
  by (intro confined_intros
      confined_mono [OF confined_enable] confined_mono [OF confined_disable]
      confined_mono [OF confined_add_route] confined_mono [OF confined_remove_route])
    (auto simp: daemon_cmd_def)

text \<open>The results of the operations are empty or the answer to a ping.\<close>

definition plain_result :: "response \<Rightarrow> bool" where
  "plain_result r \<longleftrightarrow> resp_result r \<in> {[], [(''pong'', JBool True)]}"

lemma op_result_plain [simp]: "plain_result (op_result i e)" "plain_result (error_resp i x)"
  "plain_result (ok_resp i [])" "plain_result (ok_resp i [(''pong'', JBool True)])"
  by (simp_all add: plain_result_def op_result_def error_resp_def ok_resp_def split: option.splits)

lemma dispatch_plain: "plain_result (fst (run_state (dispatch os tok p req) h))"
  by (simp add: dispatch_def split: prod.splits)

lemma response_doc_ok: "plain_result r \<Longrightarrow> json_ok max_nesting_depth (response_doc r)"
  by (auto simp: plain_result_def response_doc_def lex_show_int max_nesting_depth_def)

lemma write_resp_line: "plain_result r \<Longrightarrow> one_line_text (write_resp r)"
  unfolding one_line_text_def write_resp_def encode_response_def
  using json_encode_one_line response_doc_ok by blast

lemma answer_line: "one_line_text (fst (run_state (answer os tok p l) h))"
proof (cases "decode_request (uni_fold os) l")
  case None
  then show ?thesis by (simp add: answer_def write_resp_line)
next
  case (Some req)
  obtain r h' where r: "run_state (dispatch os tok p req) h = (r, h')" by fastforce
  then have "plain_result r" using dispatch_plain [of os tok p req h] by simp
  with Some r show ?thesis by (simp add: answer_def write_resp_line)
qed

lemma answer_confined: "confined (daemon_cmd os p) (answer os tok p l)"
  unfolding answer_def by (intro confined_intros dispatch_confined)

interpretation daemon: line_server "answer os tok p" "daemon_cmd os p"
  by unfold_locales (rule answer_confined answer_line)+

section \<open>The token check\<close>

lemma or_xor_zero: "v OR (a XOR b) = 0 \<longleftrightarrow> v = 0 \<and> a = (b :: u8)"
  by (auto simp: bit_eq_iff bit_or_iff bit_xor_iff)

lemma foldl_or_zero: "foldl (\<lambda>v (a, b). v OR (a XOR b)) (v :: u8) xs = 0 \<longleftrightarrow>
  v = 0 \<and> list_all (\<lambda>(a, b). a = b) xs"
proof (induction xs arbitrary: v)
  case (Cons x xs)
  then show ?case by (cases x) (simp add: or_xor_zero)
qed simp

lemma zip_equal: "length x = length y \<Longrightarrow> list_all (\<lambda>(a, b). a = b) (zip x y) \<longleftrightarrow> x = y"
  by (induction x y rule: list_induct2) auto

lemma ct_byte_eq_zero: "ct_byte_eq z 0 = (if z = 0 then 1 else 0)"
proof (cases "z = 0")
  case False
  have u: "unat (ucast z :: 32 word) = unat z"
    using unsigned_less [of z, where 'a = nat] by (simp add: unsigned_ucast_eq take_bit_nat_eq_self)
  have "0 < unat z" "unat z < 256" using False unsigned_less [of z] by (simp_all add: unat_gt_0)
  then have "unat ((ucast z :: 32 word) - 1) < 2 ^ 31"
    using u by (subst unat_minus_one) auto
  then show ?thesis
    using False by (simp add: ct_byte_eq_def unat_div_distrib drop_bit_eq_div)
qed (simp add: ct_byte_eq_def)

lemma constant_time_compare_eq: "constant_time_compare x y = (if x = y then 1 else 0)"
  by (auto simp: constant_time_compare_def ct_byte_eq_zero foldl_or_zero zip_equal)

lemma unat_of_char: "unat (of_char c :: u8) = byte c"
proof -
  have "unat (word_of_nat (byte c) :: u8) = byte c"
    by (simp add: unsigned_of_nat take_bit_nat_eq_self)
  then show ?thesis by (simp add: of_nat_of_char)
qed

lemma bytes_of_inj [simp]: "bytes_of s = bytes_of t \<longleftrightarrow> s = t"
proof -
  have "s = t" if "map (of_char :: char \<Rightarrow> u8) s = map of_char t"
  proof (rule map_injective [OF that])
    show "inj (of_char :: char \<Rightarrow> u8)"
      by (rule injI) (metis byte_eq_iff unat_of_char)
  qed
  then show ?thesis by (auto simp: bytes_of_def)
qed

text \<open>The lines that carry the token; no other line makes the daemon run anything.\<close>

definition authorised :: "os \<Rightarrow> string \<Rightarrow> string \<Rightarrow> bool" where
  "authorised os tok line =
     (case decode_request (uni_fold os) line of None \<Rightarrow> False | Some req \<Rightarrow> req_token req = tok)"

lemma dispatch_unauthorised:
  "req_token req \<noteq> tok \<Longrightarrow>
   run_state (dispatch os tok p req) h = (error_resp (req_id req) ''unauthorized'', h)"
  by (simp add: dispatch_def constant_time_compare_eq)

lemma answer_unauthorised: "\<not> authorised os tok l \<Longrightarrow> snd (run_state (answer os tok p l) h) = h"
  by (simp add: authorised_def answer_def dispatch_unauthorised split: option.splits)

lemma serve_unauthorised:
  "\<not> list_ex (authorised os tok) ls \<Longrightarrow> snd (run_state (serve_lines (answer os tok p) ls) h) = h"
proof (induction ls arbitrary: h)
  case (Cons l ls)
  then show ?case
    using answer_unauthorised [of os tok l p h] by (auto split: prod.splits) (metis snd_conv)
qed simp

lemma handle_unauthorised:
  "\<not> list_ex (authorised os tok) (complete_lines (fst (delivered rs))) \<Longrightarrow>
   snd (run_state (handle os tok p rs) h) = h"
  using serve_unauthorised [of os tok "complete_lines (fst (delivered rs))" p h]
  by (cases "delivered rs") (auto simp: handle_serve serve_def split: prod.splits)

section \<open>Sessions of well-formed requests\<close>

fun dispatch_all :: "os \<Rightarrow> string \<Rightarrow> string \<Rightarrow> request list \<Rightarrow> response list exec" where
  "dispatch_all os tok p [] = return []"
| "dispatch_all os tok p (r # rs) =
     do { x \<leftarrow> dispatch os tok p r; xs \<leftarrow> dispatch_all os tok p rs; return (x # xs) }"

text \<open>What a client means by a request, and the document it sends for it.\<close>

type_synonym client_request = "64 word \<times> string \<times> string \<times> (string \<times> json) list"

fun client_doc :: "client_request \<Rightarrow> json" where
  "client_doc (i, tok, m, ps) = request_doc i tok m ps"

fun client_ok :: "client_request \<Rightarrow> bool" where
  "client_ok (i, tok, m, ps) \<longleftrightarrow> valid_utf8 tok \<and> valid_utf8 m \<and> wire_params ps"

fun client_req :: "client_request \<Rightarrow> request" where
  "client_req (i, tok, m, ps) = \<lparr>req_id = i, req_token = tok, req_method = m, req_params = map_of ps\<rparr>"

lemma client_wire: "client_ok c \<Longrightarrow> wire_doc (client_doc c)"
  by (cases c) (simp add: wire_request_doc)

lemma answer_client: "client_ok c \<Longrightarrow> answer os tok p (json_encode (client_doc c) @ [newline]) =
  do { r \<leftarrow> dispatch os tok p (client_req c); return (write_resp r) }"
  by (cases c) (simp add: answer_def decode_request_doc)

lemma serve_clients: "list_all client_ok cs \<Longrightarrow>
  serve_lines (answer os tok p) (map (\<lambda>c. json_encode (client_doc c) @ [newline]) cs)
    = do { xs \<leftarrow> dispatch_all os tok p (map client_req cs); return (map (WriteFile \<circ> write_resp) xs) }"
  by (induction cs) (simp_all add: answer_client)

lemma lines_of_clients: "list_all client_ok cs \<Longrightarrow>
  complete_lines (wire.stream (map client_doc cs)) = map (\<lambda>c. json_encode (client_doc c) @ [newline]) cs"
  using wire.split_stream [of "map client_doc cs" "[]"] client_wire
  by (simp add: complete_lines_def list_all_iff)

section \<open>Properties\<close>

text \<open>C2. Serving a connection depends on the bytes delivered before the first error only,
  not on how the pipe cut them into reads: every complete line is answered in order, a
  partial last line is dropped, and an error, a broken pipe or an empty read closes the pipe
  after the lines that came before it.\<close>

theorem session_refines_lines:
  "handle os tok p rs = serve (answer os tok p) (delivered rs)"
  by (rule handle_serve)

text \<open>Whatever bytes a client sends, in whatever pieces, the daemon runs only the
  commands of the kill switch with the verified path of the peer, and well-formed route
  commands.\<close>

lemma session_confined: "confined (daemon_cmd os p) (handle os tok p rs)"
  unfolding handle_def by (rule daemon.loop_confined)

text \<open>Every complete line is answered by exactly one line, also when it is not JSON, and
  after the answers the pipe is flushed, disconnected and closed exactly when reading ended.\<close>

lemma session_one_reply_per_line:
  "\<exists>outs. fst (run_state (handle os tok p rs) h)
       = map WriteFile outs @ (if snd (delivered rs) = None then [] else conn_close)
     \<and> length outs = length (complete_lines (fst (delivered rs))) \<and> list_all one_line_text outs"
  unfolding handle_def by (rule daemon.loop_writes)

text \<open>C10. A client that writes requests one per line, however the bytes arrive, has exactly
  these requests dispatched in order, and each response written back.\<close>

theorem session_serves_requests:
  assumes "list_all client_ok cs" "delivered rs = (wire.stream (map client_doc cs), e)"
  shows "run_state (handle os tok p rs) h =
    (case run_state (dispatch_all os tok p (map client_req cs)) h of
       (xs, h') \<Rightarrow> (map (WriteFile \<circ> write_resp) xs @ (if e = None then [] else conn_close), h'))"
  using assms by (simp add: handle_serve serve_def lines_of_clients serve_clients split: prod.splits)

theorem session_serves_requests_witness:
  "run_state (handle plain_os ''t'' ''app'' [ReadOk (wire.stream [client_doc (1, ''t'', ''ping'', [])])]) []
   = ([WriteFile (write_resp (ok_resp 1 [(''pong'', JBool True)]))], [])"
proof -
  have ok: "list_all client_ok [(1, ''t'', ''ping'', [])]"
    by (simp add: wire_params_def ascii_valid_utf8 max_nesting_depth_def)
  have "delivered [ReadOk (wire.stream (map client_doc [(1, ''t'', ''ping'', [])]))]
      = (wire.stream (map client_doc [(1, ''t'', ''ping'', [])]), None)"
    by (simp add: wire.stream_def)
  from session_serves_requests [OF ok this, of plain_os "''t''" "''app''" "[]"] show ?thesis
    by (simp add: dispatch_def constant_time_compare_eq)
qed

text \<open>C20. An authorised \<open>killSwitch\<close> request enables the kill switch for the verified peer when
  its \<open>enabled\<close> parameter is the boolean true, and disables it for any other value, a missing
  one included; a path sent by the client is not used.\<close>

theorem kill_switch_binds_peer:
  assumes "req_token req = tok" "req_method req = ''killSwitch''"
  shows "run_state (dispatch os tok p req) h =
    (case (if req_params req ''enabled'' = Some (JBool True)
           then run_plan os (enable_plan os p) h else run_state (disable_kill_switch os p) h) of
       (e, h') \<Rightarrow> (op_result (req_id req) e, h'))"
proof -
  have "bool_param req ''enabled'' \<longleftrightarrow> req_params req ''enabled'' = Some (JBool True)"
    by (auto simp: bool_param_def split: option.splits json.splits)
  with assms show ?thesis
    by (simp add: dispatch_def constant_time_compare_eq enable_run_plan split: prod.splits)
qed

theorem kill_switch_binds_peer_witness:
  "run_state (dispatch plain_os ''t'' ''app'' \<lparr>req_id = 3, req_token = ''t'', req_method = ''killSwitch'',
       req_params = [''enabled'' \<mapsto> JBool True, ''appPath'' \<mapsto> JStr ''evil'']\<rparr>) []
   = (ok_resp 3 [], enable_plan plain_os ''app'')"
proof -
  have "run_plan plain_os cs h = (None, h @ cs)" for cs h
    unfolding run_plan_None by (simp add: plain_os_def)
  then show ?thesis
    using kill_switch_binds_peer [of "\<lparr>req_id = 3, req_token = ''t'', req_method = ''killSwitch'',
       req_params = [''enabled'' \<mapsto> JBool True, ''appPath'' \<mapsto> JStr ''evil'']\<rparr>" "''t''" plain_os "''app''" "[]"]
    by (simp add: op_result_def)
qed

end
