(* ===== verification/Pipe_Server.thy ===== *)
theory Pipe_Server
  imports Peer Ipc
begin

text \<open>
  The accept loop of the daemon and its shutdown (\<open>acceptLoop\<close>, \<open>stop\<close> of windows_daemon/ipc.go
  and the pipe instances of pipe.go) as a step relation: the accept goroutine, the goroutine
  that stops the server, the clients and the handlers run interleaved, the sections under the
  mutex are single steps, and the handles of the process are a set the system gives values from.
\<close>

section \<open>Pipe instances\<close>

definition pipe_name :: string where
  "pipe_name = [backslash, backslash] @ ''.'' @ backslash # ''pipe'' @ backslash # ''FastFlowHelper''"

text \<open>Network logons are denied first; the system, administrators and interactive users are let in.\<close>

definition pipe_sddl :: string where
  "pipe_sddl = ''D:P(D;;GA;;;NU)(A;;GA;;;SY)(A;;GA;;;BA)(A;;GRGW;;;IU)''"

definition pipe_access_duplex :: "32 word" where "pipe_access_duplex = 0x00000003"
definition file_flag_first_pipe_instance :: "32 word" where "file_flag_first_pipe_instance = 0x00080000"
definition pipe_type_byte :: "32 word" where "pipe_type_byte = 0x00000000"
definition pipe_readmode_byte :: "32 word" where "pipe_readmode_byte = 0x00000000"
definition pipe_wait_mode :: "32 word" where "pipe_wait_mode = 0x00000000"
definition pipe_reject_remote_clients :: "32 word" where "pipe_reject_remote_clients = 0x00000008"
definition pipe_unlimited_instances :: "32 word" where "pipe_unlimited_instances = 255"
definition pipe_buf_size :: "32 word" where "pipe_buf_size = 64 * 1024"

text \<open>\<open>makePipeSA\<close>: the descriptor parsed from its text, in a structure of 24 bytes.\<close>

record security_attributes =
  sa_length :: "32 word"
  sa_descriptor :: string

definition pipe_sa :: security_attributes where
  "pipe_sa = \<lparr>sa_length = 24, sa_descriptor = pipe_sddl\<rparr>"

definition make_pipe_sa :: "(string \<Rightarrow> string option) \<Rightarrow> security_attributes result" where
  "make_pipe_sa parse_err =
     (case parse_err pipe_sddl of Some e \<Rightarrow> Inl (''parse pipe sddl: '' @ e) | None \<Rightarrow> Inr pipe_sa)"

record create_args =
  ca_name :: string
  ca_open_mode :: "32 word"
  ca_pipe_mode :: "32 word"
  ca_instances :: "32 word"
  ca_out_size :: "32 word"
  ca_in_size :: "32 word"
  ca_timeout :: "32 word"
  ca_sa :: security_attributes

definition create_pipe_args :: "bool \<Rightarrow> create_args" where
  "create_pipe_args first =
     \<lparr>ca_name = pipe_name,
      ca_open_mode = (if first then pipe_access_duplex OR file_flag_first_pipe_instance
                      else pipe_access_duplex),
      ca_pipe_mode = pipe_type_byte OR pipe_readmode_byte OR pipe_wait_mode OR pipe_reject_remote_clients,
      ca_instances = pipe_unlimited_instances,
      ca_out_size = pipe_buf_size, ca_in_size = pipe_buf_size, ca_timeout = 0,
      ca_sa = pipe_sa\<rparr>"

text \<open>\<open>waitForClient\<close>: what \<open>ConnectNamedPipe\<close> and \<open>GetNamedPipeClientProcessId\<close> gave. A client
  that connected before the call is an error value that counts as success.\<close>

datatype connect_result = Connected | PipeConnected | ConnectFailed string

record pid_result =
  pr_ret :: "64 word"
  pr_pid :: "32 word"
  pr_err :: string

definition named_pipe_client_pid :: "pid_result \<Rightarrow> 32 word result" where
  "named_pipe_client_pid r =
     (if pr_ret r = 0 then Inl (''GetNamedPipeClientProcessId: '' @ pr_err r) else Inr (pr_pid r))"

definition wait_for_client :: "connect_result \<Rightarrow> pid_result \<Rightarrow> 32 word result" where
  "wait_for_client c r =
     (case c of
        ConnectFailed e \<Rightarrow> Inl (''ConnectNamedPipe: '' @ e)
      | _ \<Rightarrow> named_pipe_client_pid r)"

section \<open>State\<close>

type_synonym handle = nat

text \<open>Where the accept goroutine is. A handle is carried once \<open>CreateNamedPipe\<close> returned it,
  \<open>AAwake\<close> holds what \<open>waitForClient\<close> returned.\<close>

datatype accept_pc =
    AStart
  | ACreate bool
  | AGot handle
  | AWait handle
  | AAwake handle "32 word result"
  | AStopClose handle
  | AErrClose handle
  | AVerify handle "32 word"
  | AReject handle
  | ADone

text \<open>Where \<open>stop\<close> is: not called, about to close the handle it took, returned.\<close>

datatype stop_pc = SIdle | SClose "handle option" | SDone

datatype actor = Accept | Stopper | Handler | Elsewhere

text \<open>The server and the process around it: \<open>sv_cur\<close> is \<open>None\<close> for \<open>InvalidHandle\<close>;
  \<open>sv_open\<close> are the open handles with the part of the process that opened them; the trace
  records the instances created and the handles closed.\<close>

datatype sys_call = CreateNamedPipe create_args handle | CloseHandle actor handle

record server =
  sv_cur :: "handle option"
  sv_stopped :: bool
  sv_accept :: accept_pc
  sv_stop :: stop_pc
  sv_handlers :: "(handle \<times> string) list"
  sv_open :: "handle \<rightharpoonup> actor"
  sv_calls :: "sys_call list"

definition new_server :: server where
  "new_server = \<lparr>sv_cur = None, sv_stopped = False, sv_accept = AStart, sv_stop = SIdle,
     sv_handlers = [], sv_open = Map.empty, sv_calls = []\<rparr>"

text \<open>\<open>CloseHandle\<close> closes whatever the value names now; on a closed handle it fails, and every
  caller drops the error.\<close>

definition close_handle :: "actor \<Rightarrow> handle \<Rightarrow> server \<Rightarrow> server" where
  "close_handle who h s = s\<lparr>sv_open := (sv_open s)(h := None), sv_calls := sv_calls s @ [CloseHandle who h]\<rparr>"

section \<open>Steps\<close>

text \<open>One step of the accept goroutine, for the answers the system can give: whether the
  security descriptor is built, the handle of a new instance. \<open>ConnectNamedPipe\<close> blocks: the
  goroutine leaves \<open>AWait\<close> by itself only when the instance is no longer its open handle, with
  an error; this is what \<open>stop\<close> relies on when it closes the parked instance.\<close>

inductive accept_step :: "(32 word \<Rightarrow> string result) \<Rightarrow> server \<Rightarrow> server \<Rightarrow> bool"
  for verify :: "32 word \<Rightarrow> string result" where
  sa_ok: "sv_accept s = AStart \<Longrightarrow> make_pipe_sa parse_err = Inr pipe_sa \<Longrightarrow>
    accept_step verify s (s\<lparr>sv_accept := ACreate True\<rparr>)"
| sa_fail: "sv_accept s = AStart \<Longrightarrow> make_pipe_sa parse_err = Inl e \<Longrightarrow>
    accept_step verify s (s\<lparr>sv_accept := ADone\<rparr>)"
| create_fail: "sv_accept s = ACreate first \<Longrightarrow> accept_step verify s (s\<lparr>sv_accept := ADone\<rparr>)"
| create_ok: "sv_accept s = ACreate first \<Longrightarrow> sv_open s h = None \<Longrightarrow>
    accept_step verify s
      (s\<lparr>sv_accept := AGot h, sv_open := (sv_open s)(h \<mapsto> Accept),
         sv_calls := sv_calls s @ [CreateNamedPipe (create_pipe_args first) h]\<rparr>)"
| publish_stopped: "sv_accept s = AGot h \<Longrightarrow> sv_stopped s \<Longrightarrow>
    accept_step verify s (s\<lparr>sv_accept := AStopClose h\<rparr>)"
| publish: "sv_accept s = AGot h \<Longrightarrow> \<not> sv_stopped s \<Longrightarrow>
    accept_step verify s (s\<lparr>sv_cur := Some h, sv_accept := AWait h\<rparr>)"
| wait_closed: "sv_accept s = AWait h \<Longrightarrow> sv_open s h \<noteq> Some Accept \<Longrightarrow>
    accept_step verify s (s\<lparr>sv_accept := AAwake h (wait_for_client (ConnectFailed e) r)\<rparr>)"
| awake_stopped: "sv_accept s = AAwake h r \<Longrightarrow> sv_stopped s \<Longrightarrow>
    accept_step verify s (s\<lparr>sv_cur := None, sv_accept := AStopClose h\<rparr>)"
| awake_error: "sv_accept s = AAwake h (Inl e) \<Longrightarrow> \<not> sv_stopped s \<Longrightarrow>
    accept_step verify s (s\<lparr>sv_cur := None, sv_accept := AErrClose h\<rparr>)"
| awake_client: "sv_accept s = AAwake h (Inr pid) \<Longrightarrow> \<not> sv_stopped s \<Longrightarrow>
    accept_step verify s (s\<lparr>sv_cur := None, sv_accept := AVerify h pid\<rparr>)"
| stop_close: "sv_accept s = AStopClose h \<Longrightarrow>
    accept_step verify s ((close_handle Accept h s)\<lparr>sv_accept := ADone\<rparr>)"
| err_close: "sv_accept s = AErrClose h \<Longrightarrow>
    accept_step verify s ((close_handle Accept h s)\<lparr>sv_accept := ACreate False\<rparr>)"
| verify_fail: "sv_accept s = AVerify h pid \<Longrightarrow> verify pid = Inl e \<Longrightarrow>
    accept_step verify s (s\<lparr>sv_accept := AReject h\<rparr>)"
| reject: "sv_accept s = AReject h \<Longrightarrow>
    accept_step verify s ((close_handle Accept h s)\<lparr>sv_accept := ACreate False\<rparr>)"
| spawn: "sv_accept s = AVerify h pid \<Longrightarrow> verify pid = Inr path \<Longrightarrow>
    accept_step verify s (s\<lparr>sv_handlers := sv_handlers s @ [(h, path)], sv_accept := ACreate False\<rparr>)"

text \<open>The other way out of \<open>waitForClient\<close> is not the server's: a client connects to the open
  instance, or the system fails the call or the query of the client's number. Nothing promises
  that this ever happens.\<close>

inductive client_step :: "server \<Rightarrow> server \<Rightarrow> bool" where
  connected: "sv_accept s = AWait h \<Longrightarrow> sv_open s h = Some Accept \<Longrightarrow>
    client_step s (s\<lparr>sv_accept := AAwake h (wait_for_client c r)\<rparr>)"

text \<open>\<open>stop\<close>: under the mutex the server is marked and the parked instance taken; the handle is
  closed after the mutex is released.\<close>

inductive stop_step :: "server \<Rightarrow> server \<Rightarrow> bool" where
  take_cur: "sv_stop s = SIdle \<Longrightarrow>
    stop_step s (s\<lparr>sv_stopped := True, sv_cur := None, sv_stop := SClose (sv_cur s)\<rparr>)"
| close_none: "sv_stop s = SClose None \<Longrightarrow> stop_step s (s\<lparr>sv_stop := SDone\<rparr>)"
| close_cur: "sv_stop s = SClose (Some h) \<Longrightarrow>
    stop_step s ((close_handle Stopper h s)\<lparr>sv_stop := SDone\<rparr>)"

text \<open>A handler ends and closes its pipe; the rest of the process opens and closes handles of
  its own (the pipes and processes of the tools it runs).\<close>

inductive other_step :: "server \<Rightarrow> server \<Rightarrow> bool" where
  handler_done: "sv_handlers s = hs1 @ (h, path) # hs2 \<Longrightarrow>
    other_step s ((close_handle Handler h s)\<lparr>sv_handlers := hs1 @ hs2\<rparr>)"
| other_open: "sv_open s h = None \<Longrightarrow> other_step s (s\<lparr>sv_open := (sv_open s)(h \<mapsto> Elsewhere)\<rparr>)"
| other_close: "sv_open s h = Some Elsewhere \<Longrightarrow> other_step s (close_handle Elsewhere h s)"

inductive server_step :: "(32 word \<Rightarrow> string result) \<Rightarrow> server \<Rightarrow> server \<Rightarrow> bool"
  for verify :: "32 word \<Rightarrow> string result" where
  by_accept: "accept_step verify s s' \<Longrightarrow> server_step verify s s'"
| by_client: "client_step s s' \<Longrightarrow> server_step verify s s'"
| by_stop: "stop_step s s' \<Longrightarrow> server_step verify s s'"
| by_other: "other_step s s' \<Longrightarrow> server_step verify s s'"

inductive server_reach :: "(32 word \<Rightarrow> string result) \<Rightarrow> server \<Rightarrow> bool"
  for verify :: "32 word \<Rightarrow> string result" where
  reach_new: "server_reach verify new_server"
| reach_step: "server_reach verify s \<Longrightarrow> server_step verify s s' \<Longrightarrow> server_reach verify s'"

interpretation server_runs: runs new_server "server_step verify" "server_reach verify"
  by unfold_locales (rule reach_new, erule (1) reach_step, erule server_reach.induct, blast+)

lemma sa_parsed: "sv_accept s = AStart \<Longrightarrow> accept_step verify s (s\<lparr>sv_accept := ACreate True\<rparr>)"
  by (rule sa_ok [where parse_err = "\<lambda>_. None"]) (simp_all add: make_pipe_sa_def)

inductive_cases accept_stepE: "accept_step verify s s'"
inductive_cases client_stepE: "client_step s s'"
inductive_cases stop_stepE: "stop_step s s'"
inductive_cases other_stepE: "other_step s s'"
inductive_cases server_stepE: "server_step verify s s'"

lemma close_handle_simps [simp]:
  "sv_cur (close_handle w h s) = sv_cur s" "sv_stopped (close_handle w h s) = sv_stopped s"
  "sv_accept (close_handle w h s) = sv_accept s" "sv_stop (close_handle w h s) = sv_stop s"
  "sv_handlers (close_handle w h s) = sv_handlers s"
  "sv_open (close_handle w h s) = (sv_open s)(h := None)"
  "sv_calls (close_handle w h s) = sv_calls s @ [CloseHandle w h]"
  by (simp_all add: close_handle_def)

section \<open>Invariants\<close>

fun accept_handle :: "accept_pc \<Rightarrow> handle option" where
  "accept_handle (AGot h) = Some h"
| "accept_handle (AWait h) = Some h"
| "accept_handle (AAwake h r) = Some h"
| "accept_handle (AStopClose h) = Some h"
| "accept_handle (AErrClose h) = Some h"
| "accept_handle (AVerify h pid) = Some h"
| "accept_handle (AReject h) = Some h"
| "accept_handle _ = None"

fun parked :: "accept_pc \<Rightarrow> handle option" where
  "parked (AWait h) = Some h"
| "parked (AAwake h r) = Some h"
| "parked _ = None"

text \<open>The published handle is the instance the accept goroutine waits on, and none once the
  server is stopped.\<close>

definition cur_inv :: "server \<Rightarrow> bool" where
  "cur_inv s \<longleftrightarrow> (sv_stopped s \<longleftrightarrow> sv_stop s \<noteq> SIdle)
     \<and> sv_cur s = (if sv_stopped s then None else parked (sv_accept s))"

lemma cur_inv_step: "server_step verify s s' \<Longrightarrow> cur_inv s \<Longrightarrow> cur_inv s'"
  by (auto elim!: server_stepE accept_stepE client_stepE stop_stepE other_stepE simp: cur_inv_def)

text \<open>Until it is stopped, the server's open handles are those of the accept goroutine and of the
  handlers, each with one owner.\<close>

definition owned :: "server \<Rightarrow> handle list" where
  "owned s = (case accept_handle (sv_accept s) of None \<Rightarrow> [] | Some h \<Rightarrow> [h]) @ map fst (sv_handlers s)"

definition own_inv :: "server \<Rightarrow> bool" where
  "own_inv s \<longleftrightarrow> (sv_stopped s \<or>
     (distinct (owned s) \<and> (\<forall>h. sv_open s h = Some Accept \<longleftrightarrow> h \<in> set (owned s))))"

lemma not_owned: "own_inv s \<Longrightarrow> \<not> sv_stopped s \<Longrightarrow> sv_open s h \<noteq> Some Accept \<Longrightarrow> h \<notin> set (owned s)"
  by (auto simp: own_inv_def)

lemma owned_simps [simp]: "owned (s\<lparr>sv_open := m\<rparr>) = owned s" "owned (close_handle w h s) = owned s"
  by (simp_all add: owned_def)

lemma own_inv_step:
  assumes "server_step verify s s'" "own_inv s" "cur_inv s"
  shows "own_inv s'"
proof (cases "sv_stopped s'")
  case False
  from assms(1) show ?thesis
  proof (cases rule: server_step.cases)
    case by_accept
    then show ?thesis
    proof (cases rule: accept_step.cases)
      case (create_ok first h)
      then have "h \<notin> set (owned s)" using False assms(2) not_owned [of s h] by simp
      with create_ok show ?thesis using False assms(2) by (auto simp: own_inv_def owned_def)
    qed (use False assms(2) in \<open>auto simp: own_inv_def owned_def split: if_splits\<close>)
  next
    case by_client
    then show ?thesis
      using False assms(2) by (cases rule: client_step.cases) (auto simp: own_inv_def owned_def)
  next
    case by_stop
    then show ?thesis
      using False assms(2,3)
      by (cases rule: stop_step.cases) (auto simp: own_inv_def cur_inv_def)
  next
    case by_other
    then show ?thesis
    proof (cases rule: other_step.cases)
      case (other_open h)
      then show ?thesis
        using False assms(2) not_owned [of s h] by (auto simp: own_inv_def)
    next
      case (other_close h)
      then show ?thesis
        using False assms(2) not_owned [of s h] by (auto simp: own_inv_def)
    qed (use False assms(2) in \<open>auto simp: own_inv_def owned_def split: option.splits\<close>)
  qed
qed (simp add: own_inv_def)

lemma reach_inv: "server_reach verify s \<Longrightarrow> cur_inv s \<and> own_inv s"
proof (rule server_runs.run_invariant)
  show "cur_inv new_server \<and> own_inv new_server"
    by (simp add: cur_inv_def own_inv_def new_server_def owned_def)
qed (use cur_inv_step own_inv_step in blast)

section \<open>After the stop\<close>

text \<open>How many steps the accept goroutine can still make once the server is stopped, and how
  many handlers it can still start.\<close>

fun accept_rank :: "accept_pc \<Rightarrow> nat" where
  "accept_rank ADone = 0"
| "accept_rank (AStopClose h) = 1"
| "accept_rank (AGot h) = 2"
| "accept_rank (AAwake h r) = 2"
| "accept_rank (ACreate f) = 3"
| "accept_rank (AWait h) = 3"
| "accept_rank AStart = 4"
| "accept_rank (AErrClose h) = 4"
| "accept_rank (AReject h) = 4"
| "accept_rank (AVerify h pid) = 5"

fun can_spawn :: "accept_pc \<Rightarrow> nat" where
  "can_spawn (AVerify h pid) = 1"
| "can_spawn _ = 0"

definition may_handle :: "server \<Rightarrow> nat" where
  "may_handle s = length (sv_handlers s) + can_spawn (sv_accept s)"

lemma stopped_accept_step: "accept_step verify s s' \<Longrightarrow> sv_stopped s \<Longrightarrow>
  sv_stopped s' \<and> accept_rank (sv_accept s') < accept_rank (sv_accept s) \<and> may_handle s' \<le> may_handle s"
  by (auto elim!: accept_stepE simp: may_handle_def)

lemma stopped_client_step: "client_step s s' \<Longrightarrow> sv_stopped s \<Longrightarrow>
  sv_stopped s' \<and> accept_rank (sv_accept s') < accept_rank (sv_accept s) \<and> may_handle s' \<le> may_handle s"
  by (auto elim!: client_stepE simp: may_handle_def)

lemma stopped_server_step: "server_step verify s s' \<Longrightarrow> sv_stopped s \<Longrightarrow>
  sv_stopped s' \<and> accept_rank (sv_accept s') \<le> accept_rank (sv_accept s) \<and> may_handle s' \<le> may_handle s"
  by (auto elim!: server_stepE stop_stepE other_stepE simp: may_handle_def
      dest: stopped_accept_step stopped_client_step)

text \<open>An accept goroutine that waits on a stopped server waits on the handle \<open>stop\<close> is about to
  close, or has closed.\<close>

definition stop_inv :: "server \<Rightarrow> bool" where
  "stop_inv s \<longleftrightarrow> (\<forall>h. sv_stopped s \<longrightarrow> sv_accept s = AWait h \<longrightarrow>
     sv_stop s = SClose (Some h) \<or> sv_stop s = SDone \<and> sv_open s h \<noteq> Some Accept)"

lemma stop_inv_step: "server_step verify s s' \<Longrightarrow> cur_inv s \<Longrightarrow> stop_inv s \<Longrightarrow> stop_inv s'"
  by (auto elim!: server_stepE accept_stepE client_stepE stop_stepE other_stepE simp: stop_inv_def cur_inv_def
      split: if_splits)

lemma reach_stop_inv: "server_reach verify s \<Longrightarrow> stop_inv s"
proof (induction rule: server_runs.run_induct)
  case start
  then show ?case by (simp add: stop_inv_def new_server_def)
next
  case (move s s')
  with reach_inv [OF move(1)] show ?case using stop_inv_step by blast
qed

text \<open>Anywhere else it can go on by itself.\<close>

lemma accept_progress:
  assumes "sv_accept s \<noteq> ADone" "\<And>h. sv_accept s = AWait h \<Longrightarrow> sv_open s h \<noteq> Some Accept"
  shows "\<exists>s'. accept_step verify s s'"
proof (cases "sv_accept s")
  case (AWait h)
  with assms(2) show ?thesis by (blast intro: wait_closed)
next
  case (AGot h)
  then show ?thesis by (cases "sv_stopped s") (blast intro: publish publish_stopped)+
next
  case (AAwake h r)
  then show ?thesis
    by (cases "sv_stopped s"; cases r) (auto intro: awake_stopped awake_error awake_client)
next
  case (AVerify h pid)
  then show ?thesis by (cases "verify pid") (blast intro: verify_fail spawn)+
next
  case AStart
  then show ?thesis using sa_parsed by blast
qed (use assms(1) in \<open>blast intro: create_fail stop_close err_close reject\<close>)+

lemma stopped_progress:
  assumes "server_reach verify s" "sv_stopped s"
  shows "sv_accept s = ADone \<or> (\<exists>s'. accept_step verify s s')
    \<or> (\<exists>h s' s''. sv_accept s = AWait h \<and> sv_stop s = SClose (Some h) \<and> stop_step s s' \<and> accept_step verify s' s'')"
proof (cases "\<exists>h. sv_accept s = AWait h")
  case True
  then obtain h where h: "sv_accept s = AWait h" by blast
  show ?thesis
  proof (cases "sv_open s h = Some Accept")
    case True
    with reach_stop_inv [OF assms(1)] h assms(2) have st: "sv_stop s = SClose (Some h)"
      by (auto simp: stop_inv_def)
    let ?s = "(close_handle Stopper h s)\<lparr>sv_stop := SDone\<rparr>"
    have "\<exists>s''. accept_step verify ?s s''"
      using h by (intro accept_progress) simp_all
    with h st close_cur [OF st] show ?thesis by blast
  qed (use h accept_progress [of s verify] in auto)
qed (use accept_progress [of s verify] in blast)

text \<open>Runs that count the steps of the accept goroutine, the clients that wake it included.\<close>

inductive server_run :: "(32 word \<Rightarrow> string result) \<Rightarrow> server \<Rightarrow> nat \<Rightarrow> server \<Rightarrow> bool"
  for verify :: "32 word \<Rightarrow> string result" where
  run_nil: "server_run verify s 0 s"
| run_accept: "server_run verify s n s' \<Longrightarrow> accept_step verify s' s'' \<Longrightarrow> server_run verify s (Suc n) s''"
| run_client: "server_run verify s n s' \<Longrightarrow> client_step s' s'' \<Longrightarrow> server_run verify s (Suc n) s''"
| run_stop: "server_run verify s n s' \<Longrightarrow> stop_step s' s'' \<Longrightarrow> server_run verify s n s''"
| run_other: "server_run verify s n s' \<Longrightarrow> other_step s' s'' \<Longrightarrow> server_run verify s n s''"

lemma stopped_run:
  "server_run verify s n s' \<Longrightarrow> sv_stopped s \<Longrightarrow>
   sv_stopped s' \<and> n + accept_rank (sv_accept s') \<le> accept_rank (sv_accept s) \<and> may_handle s' \<le> may_handle s"
proof (induction rule: server_run.induct)
  case (run_accept s n s' s'')
  then show ?case using stopped_accept_step [of verify s' s''] by auto
next
  case (run_client s n s' s'')
  then show ?case using stopped_client_step [of s' s''] by auto
next
  case (run_stop s n s' s'')
  then show ?case using stopped_server_step [OF by_stop [of s' s'' verify]] by fastforce
next
  case (run_other s n s' s'')
  then show ?case using stopped_server_step [OF by_other [of s' s'' verify]] by fastforce
qed simp

lemma run_reach: "server_run verify s n s' \<Longrightarrow> server_reach verify s \<Longrightarrow> server_reach verify s'"
  by (induction rule: server_run.induct) (blast intro: reach_step server_step.intros)+

lemma accept_rank_bound: "accept_rank pc \<le> 5"
  by (cases pc) auto

section \<open>Verified handlers and pipe instances\<close>

context peer_check
begin

lemma handlers_acceptable: "server_reach verify s \<Longrightarrow> list_all (\<lambda>(h, p). acceptable p) (sv_handlers s)"
proof (induction rule: server_reach.induct)
  case reach_new
  then show ?case by (simp add: new_server_def)
next
  case (reach_step s s')
  from reach_step(2) reach_step.IH show ?case
    by (auto elim!: server_stepE accept_stepE client_stepE stop_stepE other_stepE dest: verify_acceptable)
qed

end

text \<open>The instances created so far.\<close>

fun creates :: "sys_call list \<Rightarrow> create_args list" where
  "creates [] = []"
| "creates (CreateNamedPipe a h # cs) = a # creates cs"
| "creates (CloseHandle w h # cs) = creates cs"

lemma creates_append [simp]: "creates (cs @ ds) = creates cs @ creates ds"
  by (induction cs rule: creates.induct) auto

definition later_creates :: "create_args list \<Rightarrow> bool" where
  "later_creates as \<longleftrightarrow> as = [] \<or> (\<exists>n. as = create_pipe_args True # replicate n (create_pipe_args False))"

fun first_pending :: "accept_pc \<Rightarrow> bool option" where
  "first_pending AStart = Some True"
| "first_pending (ACreate f) = Some f"
| "first_pending ADone = None"
| "first_pending _ = Some False"

definition create_inv :: "server \<Rightarrow> bool" where
  "create_inv s \<longleftrightarrow> later_creates (creates (sv_calls s))
     \<and> (\<forall>f. first_pending (sv_accept s) = Some f \<longrightarrow> f = (creates (sv_calls s) = []))"

lemma later_creates_snoc:
  "later_creates as \<Longrightarrow> later_creates (as @ [create_pipe_args (as = [])])"
proof (cases "as = []")
  case False
  assume "later_creates as"
  with False obtain n where "as = create_pipe_args True # replicate n (create_pipe_args False)"
    by (auto simp: later_creates_def)
  then have "as @ [create_pipe_args False] = create_pipe_args True # replicate (Suc n) (create_pipe_args False)"
    by (simp add: replicate_append_same)
  with False show ?thesis unfolding later_creates_def by (intro disjI2 exI [of _ "Suc n"]) simp
qed (simp add: later_creates_def)

lemma create_inv_step: "server_step verify s s' \<Longrightarrow> create_inv s \<Longrightarrow> create_inv s'"
  by (auto elim!: server_stepE accept_stepE client_stepE stop_stepE other_stepE simp: create_inv_def
      dest: later_creates_snoc)

lemma reach_create_inv: "server_reach verify s \<Longrightarrow> create_inv s"
  by (rule server_runs.run_invariant [OF _ create_inv_step])
    (simp_all add: create_inv_def new_server_def later_creates_def)

text \<open>A server that accepted one client and waits for the next, for the witnesses.\<close>

definition serving_one :: "string \<Rightarrow> server" where
  "serving_one path = \<lparr>sv_cur = None, sv_stopped = False, sv_accept = ACreate False, sv_stop = SIdle,
     sv_handlers = [(0, path)], sv_open = [0 \<mapsto> Accept],
     sv_calls = [CreateNamedPipe (create_pipe_args True) 0]\<rparr>"

text \<open>The server that waits for its first client, and the same after \<open>stop\<close> took the handle.\<close>

definition first_wait :: "bool \<Rightarrow> server" where
  "first_wait stopping = \<lparr>sv_cur = (if stopping then None else Some 0), sv_stopped = stopping, sv_accept = AWait 0,
     sv_stop = (if stopping then SClose (Some 0) else SIdle), sv_handlers = [], sv_open = [0 \<mapsto> Accept],
     sv_calls = [CreateNamedPipe (create_pipe_args True) 0]\<rparr>"

lemma reach_first_wait: "server_reach verify (first_wait stopping)"
proof -
  have "server_reach verify (new_server\<lparr>sv_accept := ACreate True\<rparr>)"
    by (rule server_runs.run_to [OF reach_new by_accept [OF sa_parsed]]) (simp_all add: new_server_def)
  then have "server_reach verify ((first_wait False)\<lparr>sv_cur := None, sv_accept := AGot 0\<rparr>)"
    by (rule server_runs.run_to [OF _ by_accept [OF create_ok [where h = 0]]])
      (simp_all add: new_server_def first_wait_def)
  then have wait: "server_reach verify (first_wait False)"
    by (rule server_runs.run_to [OF _ by_accept [OF publish]]) (simp_all add: first_wait_def)
  then have "server_reach verify (first_wait True)"
    by (rule server_runs.run_to [OF _ by_stop [OF take_cur]]) (simp_all add: first_wait_def)
  with wait show ?thesis by (cases stopping) auto
qed

lemma reach_serving_one:
  assumes "verify pid = Inr path"
  shows "server_reach verify (serving_one path)"
proof -
  let ?w = "first_wait False"
  have "server_reach verify (?w\<lparr>sv_accept := AAwake 0 (Inr pid)\<rparr>)"
    by (rule server_runs.run_to [OF reach_first_wait [where stopping = False] by_client [OF connected
          [where c = Connected and r = "\<lparr>pr_ret = 1, pr_pid = pid, pr_err = []\<rparr>"]]])
      (simp_all add: first_wait_def wait_for_client_def named_pipe_client_pid_def)
  then have "server_reach verify (?w\<lparr>sv_cur := None, sv_accept := AVerify 0 pid\<rparr>)"
    by (rule server_runs.run_to [OF _ by_accept [OF awake_client]]) (simp_all add: first_wait_def)
  then show ?thesis
    by (rule server_runs.run_to [OF _ by_accept [OF spawn [where h = 0 and pid = pid and path = path]]])
      (simp_all add: serving_one_def first_wait_def assms)
qed

section \<open>Properties\<close>

text \<open>Only verified peers are served: every running handler was given the image path of a
  process that \<open>verifyClient\<close> accepted, in every interleaving of the goroutines.\<close>

lemma handlers_verified:
  assumes "server_reach (\<lambda>pid. fst (verify_client a pid)) s"
  shows "list_all (\<lambda>(h, path). client_path_ok a path) (sv_handlers s)"
  using assms by (rule gui.handlers_acceptable)

text \<open>C7. Until the server is stopped, its open pipe handles are exactly those of the accept
  goroutine and of the handlers, none is shared, and the published handle is the instance the
  accept goroutine is waiting on; afterwards none is published.\<close>

theorem pipe_handles_owned:
  assumes "server_reach verify s"
  shows "(\<not> sv_stopped s \<longrightarrow> distinct (owned s) \<and> (\<forall>h. sv_open s h = Some Accept \<longleftrightarrow> h \<in> set (owned s)))
    \<and> sv_cur s = (if sv_stopped s then None else parked (sv_accept s))"
  using reach_inv [OF assms] by (auto simp: own_inv_def cur_inv_def)

theorem pipe_handles_owned_witness:
  "server_reach (\<lambda>_. Inr ''app'') (serving_one ''app'') \<and> distinct (owned (serving_one ''app''))"
  using pipe_handles_owned [OF reach_serving_one [of "\<lambda>_. Inr ''app''" 0 "''app''"]]
    reach_serving_one [of "\<lambda>_. Inr ''app''" 0 "''app''"]
  by (simp add: serving_one_def)

text \<open>C9. Once the server is stopped the accept goroutine ends, with no client needed: it makes at
  most five more steps whatever else runs in between and starts at most one more handler, for a
  client it was verifying; and until it has ended it can move by itself, or is parked in
  \<open>ConnectNamedPipe\<close> on the very handle that \<open>stop\<close> closes next, after which it can move.\<close>

theorem stopped_server_ends:
  assumes "server_reach verify s" "sv_stopped s" "server_run verify s n s'"
  shows "n \<le> 5 \<and> length (sv_handlers s') \<le> length (sv_handlers s) + 1
    \<and> (sv_accept s' = ADone \<or> (\<exists>t. accept_step verify s' t)
       \<or> (\<exists>h t t'. sv_accept s' = AWait h \<and> sv_stop s' = SClose (Some h) \<and> stop_step s' t \<and> accept_step verify t t'))"
proof -
  have "can_spawn (sv_accept s) \<le> 1" by (cases "sv_accept s") auto
  moreover note run = stopped_run [OF assms(3,2)] accept_rank_bound [of "sv_accept s"]
  moreover have "server_reach verify s'" by (rule run_reach [OF assms(3,1)])
  note stopped_progress [OF this conjunct1 [OF run(1)]]
  ultimately show ?thesis by (simp add: may_handle_def)
qed

text \<open>The server waits for its first client when it is stopped: the handle is closed and the
  goroutine ends in three steps.\<close>

theorem stopped_server_ends_witness:
  "server_reach (\<lambda>_. Inr ''app'') (first_wait True) \<and>
   (\<exists>s'. server_run (\<lambda>_. Inr ''app'') (first_wait True) 3 s' \<and> sv_accept s' = ADone \<and> sv_handlers s' = []
     \<and> sv_calls s' = [CreateNamedPipe (create_pipe_args True) 0, CloseHandle Stopper 0, CloseHandle Accept 0])
   \<and> (\<exists>t t'. stop_step (first_wait True) t \<and> accept_step (\<lambda>_. Inr ''app'') t t')"
proof -
  let ?v = "\<lambda>_::32 word. Inr ''app'' :: string result" and ?s = "first_wait True"
  let ?s1 = "(close_handle Stopper 0 ?s)\<lparr>sv_stop := SDone\<rparr>"
  let ?s2 = "?s1\<lparr>sv_accept := AAwake 0 (wait_for_client (ConnectFailed ''aborted'') \<lparr>pr_ret = 0, pr_pid = 0, pr_err = []\<rparr>)\<rparr>"
  let ?s3 = "?s2\<lparr>sv_cur := None, sv_accept := AStopClose 0\<rparr>"
  let ?s4 = "(close_handle Accept 0 ?s3)\<lparr>sv_accept := ADone\<rparr>"
  have closes: "stop_step ?s ?s1" by (rule close_cur) (simp add: first_wait_def)
  have "server_run ?v ?s 0 ?s1" by (rule run_stop [OF run_nil closes])
  moreover have "accept_step ?v ?s1 ?s2" by (rule wait_closed) (simp_all add: first_wait_def)
  moreover have "accept_step ?v ?s2 ?s3" by (rule awake_stopped) (simp_all add: first_wait_def)
  moreover have "accept_step ?v ?s3 ?s4" by (rule stop_close) simp
  ultimately have run: "server_run ?v ?s (Suc (Suc (Suc 0))) ?s4" by (blast intro: run_accept)
  have stopped: "sv_stopped ?s" and nowhere: "sv_accept ?s \<noteq> ADone" "\<And>t. \<not> accept_step ?v ?s t"
    by (auto simp: first_wait_def elim!: accept_stepE)
  from stopped_server_ends [OF reach_first_wait stopped run_nil [of ?v]] nowhere
  have moves: "\<exists>t t'. stop_step ?s t \<and> accept_step ?v t t'" by blast
  have "sv_accept ?s4 = ADone \<and> sv_handlers ?s4 = []
      \<and> sv_calls ?s4 = [CreateNamedPipe (create_pipe_args True) 0, CloseHandle Stopper 0, CloseHandle Accept 0]"
    by (simp add: first_wait_def)
  with run have "\<exists>s'. server_run ?v ?s 3 s' \<and> sv_accept s' = ADone \<and> sv_handlers s' = []
      \<and> sv_calls s' = [CreateNamedPipe (create_pipe_args True) 0, CloseHandle Stopper 0, CloseHandle Accept 0]"
    unfolding numeral_3_eq_3 by blast
  with moves show ?thesis by (intro conjI reach_first_wait)
qed

text \<open>The first instance of the pipe is created with the flag that fails on a squatted name
  and no later one is, and every instance refuses remote clients and carries the descriptor of
  the pipe.\<close>

lemma pipe_instance_flags:
  assumes "server_reach verify s" "i < length (creates (sv_calls s))"
  shows "(ca_open_mode (creates (sv_calls s) ! i) AND file_flag_first_pipe_instance \<noteq> 0 \<longleftrightarrow> i = 0)
    \<and> ca_pipe_mode (creates (sv_calls s) ! i) AND pipe_reject_remote_clients \<noteq> 0
    \<and> sa_descriptor (ca_sa (creates (sv_calls s) ! i)) = pipe_sddl"
proof -
  obtain n where "creates (sv_calls s) = create_pipe_args True # replicate n (create_pipe_args False)"
    using reach_create_inv [OF assms(1)] assms(2) by (auto simp: create_inv_def later_creates_def)
  with assms(2) show ?thesis
    by (cases i) (auto simp: create_pipe_args_def pipe_sa_def pipe_access_duplex_def file_flag_first_pipe_instance_def
        pipe_type_byte_def pipe_readmode_byte_def pipe_wait_mode_def pipe_reject_remote_clients_def)
qed

text \<open>C33. Stopping closes the parked handle twice: after \<open>stop\<close> closed it, the accept goroutine
  wakes and closes the same value again, which by then can name a handle that another part of
  the process has opened.\<close>

theorem stop_closes_foreign_handle:
  "\<exists>s s' h. server_reach verify s \<and> CloseHandle Stopper h \<in> set (sv_calls s)
     \<and> sv_open s h = Some Elsewhere \<and> accept_step verify s s'
     \<and> sv_open s' h = None \<and> last (sv_calls s') = CloseHandle Accept h"
proof -
  let ?c = "[CreateNamedPipe (create_pipe_args True) 0]"
  let ?st = "\<lambda>cur stopped acc stp op calls. \<lparr>sv_cur = cur, sv_stopped = stopped, sv_accept = acc, sv_stop = stp,
     sv_handlers = [], sv_open = op, sv_calls = calls\<rparr>"
  have "server_reach verify (?st None True (AWait 0) (SClose (Some 0)) [0 \<mapsto> Accept] ?c)"
    using reach_first_wait [of verify True] by (simp add: first_wait_def)
  then have "server_reach verify (?st None True (AWait 0) SDone Map.empty (?c @ [CloseHandle Stopper 0]))"
    by (rule server_runs.run_to [OF _ by_stop [OF close_cur]]) (auto simp: close_handle_def fun_eq_iff)
  then have "server_reach verify (?st None True (AWait 0) SDone [0 \<mapsto> Elsewhere] (?c @ [CloseHandle Stopper 0]))"
    by (rule server_runs.run_to [OF _ by_other [OF other_open [where h = 0]]]) simp_all
  then have "server_reach verify (?st None True (AAwake 0 (Inl (''ConnectNamedPipe: '' @ ''aborted''))) SDone
      [0 \<mapsto> Elsewhere] (?c @ [CloseHandle Stopper 0]))"
    by (rule server_runs.run_to [OF _ by_accept [OF wait_closed [where e = "''aborted''"]]])
      (simp_all add: wait_for_client_def)
  then have r: "server_reach verify (?st None True (AStopClose 0) SDone [0 \<mapsto> Elsewhere] (?c @ [CloseHandle Stopper 0]))"
    by (rule server_runs.run_to [OF _ by_accept [OF awake_stopped]]) simp_all
  let ?s = "?st None True (AStopClose 0) SDone [0 \<mapsto> Elsewhere] (?c @ [CloseHandle Stopper 0])"
  have "accept_step verify ?s ((close_handle Accept 0 ?s)\<lparr>sv_accept := ADone\<rparr>)"
    by (rule stop_close) simp
  with r show ?thesis
    by (intro exI [of _ ?s] exI [of _ "(close_handle Accept 0 ?s)\<lparr>sv_accept := ADone\<rparr>"] exI [of _ 0]) simp
qed

end
