(* ===== verification/Service.thy ===== *)
theory Service
  imports Pipe_Server
begin

text \<open>
  The process of the daemon (windows_daemon/main.go, service.go, install.go): what the command
  line selects, the service control loop with the states it reports, and the installation in
  the service manager with the handles it opens and closes.
\<close>

section \<open>Starting the server\<close>

text \<open>\<open>start\<close>: the secret is loaded before the accept loop begins.\<close>

definition server_start :: "'a api_scheme \<Rightarrow> disk \<Rightarrow> (string \<times> server) result \<times> disk" where
  "server_start a d =
     (case load_or_create_token a d of
        (Inl e, d') \<Rightarrow> (Inl e, d')
      | (Inr tok, d') \<Rightarrow> (Inr (tok, new_server), d'))"

section \<open>The service control loop\<close>

datatype svc_state = StartPending | Running | StopPending

text \<open>A status with what the service accepts; an interrogation is answered with the status the
  manager sent.\<close>

datatype svc_status = Status svc_state bool | CurrentStatus nat

datatype svc_cmd = Interrogate nat | StopCmd | ShutdownCmd | OtherCmd nat

text \<open>What \<open>Execute\<close> does: a status sent, the server started or stopped.\<close>

datatype svc_action = Send svc_status | ServerStarted string | ServerStopped

datatype svc_result = Exited "32 word" | Listening

fun execute_loop :: "svc_cmd list \<Rightarrow> svc_action list \<times> svc_result" where
  "execute_loop [] = ([], Listening)"
| "execute_loop (Interrogate st # cs) =
     (case execute_loop cs of (as, r) \<Rightarrow> (Send (CurrentStatus st) # as, r))"
| "execute_loop (StopCmd # cs) = ([Send (Status StopPending False), ServerStopped], Exited 0)"
| "execute_loop (ShutdownCmd # cs) = ([Send (Status StopPending False), ServerStopped], Exited 0)"
| "execute_loop (OtherCmd n # cs) = execute_loop cs"

text \<open>\<open>Execute\<close> on the requests that arrive; the last argument says whether the channel is
  closed after them, which ends the loop.\<close>

definition execute :: "'a api_scheme \<Rightarrow> disk \<Rightarrow> svc_cmd list \<Rightarrow> bool \<Rightarrow> svc_action list \<times> svc_result" where
  "execute a d cmds closed =
     (case fst (server_start a d) of
        Inl e \<Rightarrow> ([Send (Status StartPending False)], Exited 1)
      | Inr (tok, _) \<Rightarrow>
          (case execute_loop cmds of
             (as, r) \<Rightarrow> ([Send (Status StartPending False), ServerStarted tok, Send (Status Running True)] @ as,
                        (if r = Listening \<and> closed then Exited 0 else r))))"

text \<open>\<open>runConsole\<close>: the same server until the process is killed, or a fatal error.\<close>

definition run_console :: "'a api_scheme \<Rightarrow> disk \<Rightarrow> string option \<times> disk" where
  "run_console a d =
     (case server_start a d of
        (Inl e, d') \<Rightarrow> (Some (''failed to start IPC server: '' @ e), d')
      | (Inr _, d') \<Rightarrow> (None, d'))"

section \<open>Installation\<close>

text \<open>The service manager: what each call returns. A service is a handle.\<close>

record scm_api = api +
  executable :: "string result"
  svc_run :: "string \<Rightarrow> string option"
  scm_connect :: "string result"
  scm_open :: "nat result"
  scm_create :: "nat result"
  scm_delete :: "string option"

text \<open>\<open>mgr.Config\<close>, the fields the installation sets.\<close>

record service_config =
  sc_display_name :: string
  sc_description :: string
  sc_start_type :: "32 word"
  sc_service_type :: "32 word"
  sc_dependencies :: "string list"

datatype scm_call =
    Connect
  | OpenService string
  | CreateService string string service_config
  | DeleteService nat
  | CloseService nat
  | Disconnect

definition service_name :: string where
  "service_name = ''FastFlowHelper''"

definition display_name :: string where
  "display_name = ''FastFlow VPN Helper''"

text \<open>\<open>mgr.StartAutomatic\<close> is 2, a process of its own 0x10.\<close>

definition service_config_of :: service_config where
  "service_config_of =
     \<lparr>sc_display_name = display_name,
      sc_description = ''Performs privileged routing / firewall operations for FastFlow VPN.'',
      sc_start_type = 2, sc_service_type = 0x10, sc_dependencies = [''Tcpip'']\<rparr>"

text \<open>The deferred calls run last to first.\<close>

definition install_service :: "'a scm_api_scheme \<Rightarrow> disk \<Rightarrow> (string option \<times> scm_call list) \<times> disk" where
  "install_service a d =
     (case executable a of
        Inl e \<Rightarrow> ((Some (''locate executable: '' @ e), []), d)
      | Inr exe \<Rightarrow>
          (case ensure_secure_dir a (fastflow_dir a) d of
             (Some e, d') \<Rightarrow> ((Some (''secure data dir: '' @ e), []), d')
           | (None, d') \<Rightarrow>
               ((case scm_connect a of
                   Inl e \<Rightarrow> (Some (''connect to service manager (run as admin): '' @ e), [Connect])
                 | Inr _ \<Rightarrow>
                     (case scm_open a of
                        Inr s \<Rightarrow> (Some (''service '' @ go_quote (uni_print a) service_name @ '' already installed''),
                                  [Connect, OpenService service_name, CloseService s, Disconnect])
                      | Inl _ \<Rightarrow>
                          (case scm_create a of
                             Inl e \<Rightarrow> (Some (''create service: '' @ e),
                                       [Connect, OpenService service_name, CreateService service_name exe service_config_of, Disconnect])
                           | Inr s \<Rightarrow> (None,
                                       [Connect, OpenService service_name, CreateService service_name exe service_config_of,
                                        CloseService s, Disconnect])))), d')))"

definition uninstall_service :: "'a scm_api_scheme \<Rightarrow> string option \<times> scm_call list" where
  "uninstall_service a =
     (case scm_connect a of
        Inl e \<Rightarrow> (Some (''connect to service manager (run as admin): '' @ e), [Connect])
      | Inr _ \<Rightarrow>
          (case scm_open a of
             Inl e \<Rightarrow> (Some (''service '' @ go_quote (uni_print a) service_name @ '' not installed: '' @ e),
                       [Connect, OpenService service_name, Disconnect])
           | Inr s \<Rightarrow>
               ((case scm_delete a of Some e \<Rightarrow> Some (''delete service: '' @ e) | None \<Rightarrow> None),
                [Connect, OpenService service_name, DeleteService s, CloseService s, Disconnect])))"

section \<open>The command line\<close>

text \<open>How the process goes on: it prints a line and ends, serves from the console or as a
  service (with the log in its file or not), or ends with a fatal error.\<close>

datatype main_action =
    Printed string
  | Console
  | RunService bool
  | FatalExit string

definition must :: "string option \<Rightarrow> main_action \<Rightarrow> main_action" where
  "must r k = (case r of Some e \<Rightarrow> FatalExit e | None \<Rightarrow> k)"

text \<open>\<open>runService\<close>: the error \<open>svc.Run\<close> ends with.\<close>

definition run_service :: "'a scm_api_scheme \<Rightarrow> string option" where
  "run_service a =
     (case svc_run a service_name of Some e \<Rightarrow> Some (''service failed: '' @ e) | None \<Rightarrow> None)"

text \<open>\<open>os.OpenFile\<close> to append: a file that is not there is made, a directory cannot be opened.\<close>

definition open_append :: "(string \<Rightarrow> string option) \<Rightarrow> string \<Rightarrow> disk \<Rightarrow> bool \<times> disk" where
  "open_append open_err p d =
     (if open_err p \<noteq> None then (False, d)
      else case d p of
          None \<Rightarrow> (True, d(p \<mapsto> \<lparr>o_owner = LocalSystem, o_protected = False, o_data = Some []\<rparr>))
        | Some ob \<Rightarrow> (o_data ob \<noteq> None, d))"

definition setup_service_logging :: "'a api_scheme \<Rightarrow> (string \<Rightarrow> string option) \<Rightarrow> disk \<Rightarrow> bool \<times> disk" where
  "setup_service_logging a open_err d =
     (case ensure_secure_dir a (fastflow_dir a) d of
        (Some e, d') \<Rightarrow> (False, d')
      | (None, d') \<Rightarrow> open_append open_err (path_join [fastflow_dir a, ''daemon.log'']) d')"

text \<open>\<open>main\<close>: the arguments with the program name first, and what \<open>IsWindowsService\<close> says. The disk
  is what the process leaves, or what the service finds when it starts.\<close>

definition main_dispatch ::
  "'a scm_api_scheme \<Rightarrow> (string \<Rightarrow> string option) \<Rightarrow> disk \<Rightarrow> string list \<Rightarrow> bool result \<Rightarrow> main_action \<times> disk" where
  "main_dispatch a open_err d args is_service =
     (let console = (case run_console a d of (r, d') \<Rightarrow> (must r Console, d'));
          service = (case is_service of
            Inl e \<Rightarrow> (FatalExit (''cannot determine service session: '' @ e), d)
          | Inr True \<Rightarrow> (case setup_service_logging a open_err d of
                          (logged, d') \<Rightarrow> (must (run_service a) (RunService logged), d'))
          | Inr False \<Rightarrow> console)
      in if length args > 1 then
           (if args ! 1 = ''install''
            then case install_service a d of
                ((r, _), d') \<Rightarrow> (must r (Printed ''FastFlow helper installed.''), d')
            else if args ! 1 = ''uninstall''
            then (must (fst (uninstall_service a)) (Printed ''FastFlow helper removed.''), d)
            else if args ! 1 = ''debug'' then console
            else service)
         else service)"

section \<open>Properties\<close>

text \<open>A process that serves from the console has a token; one that cannot get it ends.\<close>

lemma console_needs_token:
  "fst (run_console a d) = None \<longleftrightarrow> (\<exists>tok. fst (load_or_create_token a d) = Inr tok)"
  by (auto simp: run_console_def server_start_def split: prod.splits sum.splits)

text \<open>The service starts the server with the token that was loaded, and at most once.\<close>

lemma execute_started:
  "ServerStarted tok \<in> set (fst (execute a d cmds closed)) \<Longrightarrow> fst (load_or_create_token a d) = Inr tok"
proof -
  have "ServerStarted tok \<notin> set (fst (execute_loop cs))" for cs
    by (induction cs rule: execute_loop.induct) (auto split: prod.splits)
  then show "ServerStarted tok \<in> set (fst (execute a d cmds closed)) \<Longrightarrow> ?thesis"
    by (auto simp: execute_def server_start_def split: prod.splits sum.splits)
      (metis fst_conv)
qed

definition stops :: "svc_cmd \<Rightarrow> bool" where
  "stops c \<longleftrightarrow> c = StopCmd \<or> c = ShutdownCmd"

definition answers :: "svc_cmd list \<Rightarrow> svc_action list" where
  "answers cs = concat (map (\<lambda>c. case c of Interrogate st \<Rightarrow> [Send (CurrentStatus st)] | _ \<Rightarrow> []) cs)"

lemma execute_loop_spec:
  "execute_loop cs =
     (answers (takeWhile (\<lambda>c. \<not> stops c) cs)
        @ (if \<exists>c \<in> set cs. stops c then [Send (Status StopPending False), ServerStopped] else []),
      if \<exists>c \<in> set cs. stops c then Exited 0 else Listening)"
  by (induction cs rule: execute_loop.induct) (auto simp: stops_def answers_def)

text \<open>The service reports that it is starting, and running only once the server has a token;
  it then answers every interrogation that comes before the first stop or shutdown, and that
  request makes it report that it is stopping, stop the server once and exit with 0. Without a
  token it exits with 1 and never reports that it runs.\<close>

lemma execute_reports:
  "execute a d cmds closed =
    (case fst (load_or_create_token a d) of
       Inl e \<Rightarrow> ([Send (Status StartPending False)], Exited 1)
     | Inr tok \<Rightarrow>
         ([Send (Status StartPending False), ServerStarted tok, Send (Status Running True)]
            @ answers (takeWhile (\<lambda>c. \<not> stops c) cmds)
            @ (if list_ex stops cmds then [Send (Status StopPending False), ServerStopped] else []),
          if list_ex stops cmds \<or> closed then Exited 0 else Listening))"
  by (auto simp: execute_def server_start_def execute_loop_spec list_ex_iff split: prod.splits sum.splits)

text \<open>The installation registers the service exactly when the data directory is secured, the
  manager is reached and no service of that name exists; on every path the connection to the
  manager is closed last, and the one service handle that was opened or created is closed.\<close>

lemma install_service_spec:
  "(fst (fst (install_service a d)) = None \<longleftrightarrow>
      (\<exists>exe s e s'. executable a = Inr exe \<and> fst (ensure_secure_dir a (fastflow_dir a) d) = None
         \<and> scm_connect a = Inr s \<and> scm_open a = Inl e \<and> scm_create a = Inr s'))
   \<and> (list_ex (\<lambda>c. \<exists>exe. c = CreateService service_name exe service_config_of) (snd (fst (install_service a d))) \<longleftrightarrow>
      (\<exists>exe s e. executable a = Inr exe \<and> fst (ensure_secure_dir a (fastflow_dir a) d) = None
         \<and> scm_connect a = Inr s \<and> scm_open a = Inl e))
   \<and> (case snd (fst (install_service a d)) of
        Connect # OpenService n # cs \<Rightarrow> last cs = Disconnect \<and> count_list cs Disconnect = 1
          \<and> (\<forall>h. count_list cs (CloseService h) =
               (if scm_open a = Inr h \<or> (isl (scm_open a) \<and> scm_create a = Inr h) then 1 else 0))
      | cs \<Rightarrow> cs = [] \<or> cs = [Connect])"
  by (auto simp: install_service_def split: sum.splits prod.splits option.splits)

text \<open>A token file without content is never taken for a token.\<close>

lemma empty_token_fresh:
  assumes "load_or_create_token a d = (Inr t, d')" "Option.bind (d (token_path a)) o_data \<in> {None, Some []}"
  shows "\<exists>b. rand_read a = Inr b \<and> t = hex_encode (rand_buf b)"
  using load_token_on_disk [OF assms(1)] assms(2) trim_space_plain [of "[]"] by auto

lemma logging_reclaims:
  assumes "d (fastflow_dir a) = Some ob" "\<not> trusted (o_owner ob)" "remove_ok a (token_path a)"
    and "setup_service_logging a open_err d = (logged, d')"
  shows "d' = d \<or> Option.bind (d' (token_path a)) o_data \<in> {None, Some []}"
proof -
  have v: "verify_dir_trusted a (fastflow_dir a) d \<noteq> None" using assms(1,2) verify_trusted by fastforce
  obtain r d1 where e: "ensure_secure_dir a (fastflow_dir a) d = (r, d1)" by fastforce
  with v assms(1,3) have "d1 = d \<and> r \<noteq> None \<or> d1 (token_path a) = None \<and> r = None"
    by (auto simp: ensure_secure_dir_def create_directory_def set_named_security_def remove_obj_def
        split: option.splits if_splits)
  with assms(4) e show ?thesis
    by (auto simp: setup_service_logging_def open_append_def split: option.splits if_splits)
qed

text \<open>C28. From the start of the process to the secret of the server: when the data directory was made
  by someone else and the token file in it can be deleted, a service whose server comes up uses a
  freshly drawn token, never the planted one, although the log is opened in that directory first.\<close>

theorem service_discards_planted_token:
  assumes "d (fastflow_dir a) = Some ob" "\<not> trusted (o_owner ob)" "remove_ok a (token_path a)"
    and "main_dispatch a open_err d args is_service = (RunService logged, d')"
    and "ServerStarted tok \<in> set (fst (execute a d' cmds closed))"
  shows "\<exists>b. rand_read a = Inr b \<and> tok = hex_encode (rand_buf b)"
proof -
  obtain d'' where load: "load_or_create_token a d' = (Inr tok, d'')"
    using execute_started [OF assms(5)] by (metis prod.collapse)
  have "setup_service_logging a open_err d = (logged, d')"
    using assms(4) by (auto simp: main_dispatch_def must_def Let_def split: prod.splits option.splits sum.splits if_splits bool.splits)
  from logging_reclaims [OF assms(1-3) this] show ?thesis
  proof
    assume "d' = d"
    with load have "load_or_create_token a d = (Inr tok, d'')" by simp
    then show ?thesis by (rule reclaim_fresh [where d = d, OF assms(1-3)])
  qed (rule empty_token_fresh [OF load])
qed

text \<open>A service manager that accepts everything, on the calls that all succeed.\<close>

definition calm_scm :: scm_api where
  "calm_scm = api.extend calm_api \<lparr>executable = Inr ''daemon.exe'', svc_run = (\<lambda>_. None),
     scm_connect = Inr [], scm_open = Inl ''not found'', scm_create = Inr 1, scm_delete = None\<rparr>"

lemma calm_scm_sel:
  "getenv calm_scm = getenv calm_api" "remove_ok calm_scm = remove_ok calm_api" "svc_run calm_scm = (\<lambda>_. None)"
  "sddl_err calm_scm = sddl_err calm_api" "sddl_owner_err calm_scm = sddl_owner_err calm_api"
  "sddl_dacl_err calm_scm = sddl_dacl_err calm_api" "get_sec_err calm_scm = get_sec_err calm_api"
  "sec_owner_err calm_scm = sec_owner_err calm_api" "system_sid_err calm_scm = system_sid_err calm_api"
  "admins_sid_err calm_scm = admins_sid_err calm_api" "set_sec_err calm_scm = set_sec_err calm_api"
  "read_err calm_scm = read_err calm_api" "write_err calm_scm = write_err calm_api"
  "write_part calm_scm = write_part calm_api" "rand_read calm_scm = rand_read calm_api"
  by (simp_all add: calm_scm_def api.defs)

lemma calm_scm_paths:
  "fastflow_dir calm_scm = fastflow_dir calm_api" "token_path calm_scm = token_path calm_api"
  "client_allowlist_path calm_scm = client_allowlist_path calm_api"
  by (simp_all add: fastflow_dir_def token_path_def client_allowlist_path_def calm_scm_sel)

lemma calm_log_path:
  "path_join [fastflow_dir calm_api, ''daemon.log'']
    = drive_path (CHR ''C'') [''ProgramData'', ''FastFlow'', ''daemon.log'']"
  using path_join_drive [of "[''ProgramData'', ''FastFlow'']" "[''daemon.log'']" "CHR ''C''"]
  by (simp add: calm_paths plain_elem_def is_sep_def)

text \<open>A service that starts in a directory somebody else made.\<close>

lemma squatted_service:
  "\<exists>d. main_dispatch calm_scm (\<lambda>_. None) squatted [''daemon.exe''] (Inr True) = (RunService True, d)
    \<and> ServerStarted (hex_encode (rand_buf [])) \<in> set (fst (execute calm_scm d [] False))"
proof -
  let ?dir = "fastflow_dir calm_api" and ?log = "path_join [fastflow_dir calm_api, ''daemon.log'']"
  let ?ob = "\<lparr>o_owner = Administrators, o_protected = True, o_data = None\<rparr>"
  let ?d1 = "(squatted(?dir \<mapsto> ?ob))(token_path calm_api := None, client_allowlist_path calm_api := None)"
  let ?d2 = "?d1(?log \<mapsto> \<lparr>o_owner = LocalSystem, o_protected = False, o_data = Some []\<rparr>)"
  have desc: "descriptor_err calm_scm ?dir = None"
    using calm_ptr by (simp add: descriptor_err_def calm_scm_sel)
  have apart: "?log \<noteq> ?dir" "?log \<noteq> token_path calm_api" "?log \<noteq> client_allowlist_path calm_api"
      "?dir \<noteq> token_path calm_api" "?dir \<noteq> client_allowlist_path calm_api"
    unfolding calm_log_path by (simp_all add: calm_paths drive_path_def)
  have "verify_dir_trusted calm_scm ?dir squatted \<noteq> None"
    using squatted_sel by (simp add: verify_dir_trusted_def calm_scm_sel)
  then have "ensure_secure_dir calm_scm ?dir squatted = (None, ?d1)"
    using desc squatted_sel
    by (auto simp: ensure_secure_dir_def create_directory_def set_named_security_def remove_obj_def
        calm_scm_sel calm_scm_paths)
  moreover have "?d1 ?log = None" using apart by (simp add: squatted_def)
  ultimately have "setup_service_logging calm_scm (\<lambda>_. None) squatted = (True, ?d2)"
    by (simp add: setup_service_logging_def open_append_def calm_scm_paths)
  then have main: "main_dispatch calm_scm (\<lambda>_. None) squatted [''daemon.exe''] (Inr True) = (RunService True, ?d2)"
    by (simp add: main_dispatch_def run_service_def must_def calm_scm_sel Let_def)
  have "ensure_secure_dir calm_scm ?dir ?d2 = (None, ?d2)"
    using desc apart by (auto simp: ensure_secure_dir_def create_directory_def verify_dir_trusted_def calm_scm_sel)
  moreover have "?d2 (token_path calm_api) = None" using apart by auto
  ultimately have "\<exists>d. load_or_create_token calm_scm ?d2 = (Inr (hex_encode (rand_buf [])), d)"
    by (simp add: load_or_create_token_def read_file_at_def write_file_at_def calm_scm_sel calm_scm_paths Let_def)
  then have "ServerStarted (hex_encode (rand_buf [])) \<in> set (fst (execute calm_scm ?d2 [] False))"
    by (auto simp: execute_def server_start_def)
  with main show ?thesis by blast
qed

theorem service_discards_planted_token_witness:
  "\<exists>d. main_dispatch calm_scm (\<lambda>_. None) squatted [''daemon.exe''] (Inr True) = (RunService True, d)
    \<and> ServerStarted (hex_encode (rand_buf [])) \<in> set (fst (execute calm_scm d [] False))
    \<and> (\<exists>b. rand_read calm_scm = Inr b \<and> hex_encode (rand_buf []) = hex_encode (rand_buf b))"
proof -
  obtain d where d: "main_dispatch calm_scm (\<lambda>_. None) squatted [''daemon.exe''] (Inr True) = (RunService True, d)"
      "ServerStarted (hex_encode (rand_buf [])) \<in> set (fst (execute calm_scm d [] False))"
    using squatted_service by blast
  have "squatted (fastflow_dir calm_scm) = Some \<lparr>o_owner = OtherSid ''S-1-5-21-7'', o_protected = False, o_data = None\<rparr>"
      "remove_ok calm_scm (token_path calm_scm)"
    using squatted_sel(1) by (simp_all add: calm_scm_paths calm_scm_sel)
  from service_discards_planted_token [OF this(1) _ this(2) d] d show ?thesis by (simp add: trusted_def)
qed

end
