(* ===== verification/Handlers.thy ===== *)
theory Handlers
  imports Pipe_Server
begin

text \<open>
  The handler goroutines of the daemon side by side (\<open>go s.handle(...)\<close> of windows_daemon/ipc.go):
  each answers the lines of its client, and the commands of different handlers interleave in
  one process, since nothing in \<open>handle\<close>, \<open>dispatch\<close> or firewall.go takes a lock. A handler in
  the middle of a line is the line with the outcomes its commands have had so far; what it does
  next is read off the sequential operation, run against these outcomes.
\<close>

section \<open>Operations that wait for their commands\<close>

text \<open>The outcomes received so far answer the commands of the operation in order.\<close>

definition replay :: "os \<Rightarrow> string option list \<Rightarrow> os" where
  "replay os rs = os\<lparr>exec_result := \<lambda>h c. if length h < length rs then rs ! length h else None\<rparr>"

text \<open>What an operation does after these outcomes: run another command, or return.\<close>

definition resume :: "(os \<Rightarrow> 'a exec) \<Rightarrow> os \<Rightarrow> string option list \<Rightarrow> command + 'a" where
  "resume m os rs =
     (case run_state (m (replay os rs)) [] of
        (x, cs) \<Rightarrow> if length rs < length cs then Inl (cs ! length rs) else Inr x)"

text \<open>This is sound for operations that depend on an outcome only after they ran the command, as
  every composition of \<open>run\<close> does. Such an operation is a tree of commands.\<close>

datatype 'a prog = Ret 'a | Cmd command "string option \<Rightarrow> 'a prog"

primrec run_prog :: "(log \<Rightarrow> command \<Rightarrow> string option) \<Rightarrow> 'a prog \<Rightarrow> log \<Rightarrow> 'a \<times> log" where
  "run_prog f (Ret x) h = (x, h)"
| "run_prog f (Cmd c k) h = run_prog f (k (f h c)) (h @ [c])"

primrec pbind :: "'a prog \<Rightarrow> ('a \<Rightarrow> 'b prog) \<Rightarrow> 'b prog" where
  "pbind (Ret x) g = g x"
| "pbind (Cmd c k) g = Cmd c (\<lambda>r. pbind (k r) g)"

fun after :: "'a prog \<Rightarrow> string option list \<Rightarrow> 'a prog" where
  "after t [] = t"
| "after (Ret x) (r # rs) = Ret x"
| "after (Cmd c k) (r # rs) = after (k r) rs"

primrec next_of :: "'a prog \<Rightarrow> command + 'a" where
  "next_of (Ret x) = Inr x"
| "next_of (Cmd c k) = Inl c"

definition waits :: "(os \<Rightarrow> 'a exec) \<Rightarrow> bool" where
  "waits m \<longleftrightarrow> (\<forall>os. \<exists>t. \<forall>f h. run_state (m (os\<lparr>exec_result := f\<rparr>)) h = run_prog f t h)"

lemma run_prog_bind: "run_prog f (pbind t g) h = (case run_prog f t h of (x, h') \<Rightarrow> run_prog f (g x) h')"
  by (induction t arbitrary: h) auto

lemma run_prog_log: "\<exists>cs. snd (run_prog f t h) = h @ cs"
proof (induction t arbitrary: h)
  case (Cmd c k)
  then obtain cs where "snd (run_prog f (k (f h c)) (h @ [c])) = (h @ [c]) @ cs" by blast
  then show ?case by simp
qed simp

lemma after_append: "after t (rs @ rs') = after (after t rs) rs'"
proof (induction t rs rule: after.induct)
  case (2 x r rs)
  then show ?case by (cases rs') simp_all
qed simp_all

named_theorems waits_intros \<open>composition of operations that wait for their commands\<close>

lemma waits_return [waits_intros]: "waits (\<lambda>os. return x)"
  unfolding waits_def by (intro allI exI [of _ "Ret x"]) simp

lemma waits_bind [waits_intros]:
  assumes "waits m" "\<And>x. waits (g x)"
  shows "waits (\<lambda>os. State_Monad.bind (m os) (\<lambda>x. g x os))"
  unfolding waits_def
proof
  fix os
  obtain t where t: "run_state (m (os\<lparr>exec_result := f\<rparr>)) h = run_prog f t h" for f h
    using assms(1) unfolding waits_def by blast
  have "\<forall>x. \<exists>u. \<forall>f h. run_state (g x (os\<lparr>exec_result := f\<rparr>)) h = run_prog f u h"
    using assms(2) unfolding waits_def by blast
  then obtain u where u: "run_state (g x (os\<lparr>exec_result := f\<rparr>)) h = run_prog f (u x) h" for x f h
    by metis
  show "\<exists>t. \<forall>f h. run_state (State_Monad.bind (m (os\<lparr>exec_result := f\<rparr>)) (\<lambda>x. g x (os\<lparr>exec_result := f\<rparr>))) h
      = run_prog f t h"
    by (intro exI [of _ "pbind t u"]) (simp add: run_state_bind t u run_prog_bind)
qed

lemma waits_run [waits_intros]:
  assumes "\<And>os f. name (os\<lparr>exec_result := f\<rparr>) = name os"
  shows "waits (\<lambda>os. run os (name os) args)"
  unfolding waits_def
proof
  fix os
  show "\<exists>t. \<forall>f h. run_state (run (os\<lparr>exec_result := f\<rparr>) (name (os\<lparr>exec_result := f\<rparr>)) args) h = run_prog f t h"
    by (intro exI [of _ "Cmd (tool (name os) args) Ret"]) (simp add: assms)
qed

lemma waits_if [waits_intros]:
  "waits m \<Longrightarrow> waits n \<Longrightarrow> waits (\<lambda>os. if b then m os else n os)"
  by (cases b) simp_all

lemma waits_option [waits_intros]:
  assumes "waits m" "\<And>y. waits (g y)"
  shows "waits (\<lambda>os. case x of None \<Rightarrow> m os | Some y \<Rightarrow> g y os)"
  using assms by (cases x) simp_all

text \<open>A choice that the outcomes do not influence.\<close>

lemma waits_fixed:
  assumes "\<And>os. \<exists>n. waits n \<and> (\<forall>f. m (os\<lparr>exec_result := f\<rparr>) = n (os\<lparr>exec_result := f\<rparr>))"
  shows "waits m"
  unfolding waits_def
proof
  fix os
  obtain n where "waits n" "\<forall>f. m (os\<lparr>exec_result := f\<rparr>) = n (os\<lparr>exec_result := f\<rparr>)"
    using assms by blast
  then show "\<exists>t. \<forall>f h. run_state (m (os\<lparr>exec_result := f\<rparr>)) h = run_prog f t h"
    by (simp add: waits_def)
qed

lemma resume_from:
  assumes "run_prog (\<lambda>h c. if length h < length rs then rs ! length h else None) t h = (x, h @ cs)"
  shows "next_of (after t (drop (length h) rs))
    = (if length rs - length h < length cs then Inl (cs ! (length rs - length h)) else Inr x)"
  using assms
proof (induction t arbitrary: h cs)
  case (Ret y)
  then show ?case by (cases "drop (length h) rs") simp_all
next
  case (Cmd c k)
  let ?f = "\<lambda>h c. if length h < length rs then rs ! length h else None"
  obtain ds where ds: "snd (run_prog ?f (k (?f h c)) (h @ [c])) = (h @ [c]) @ ds" using run_prog_log by blast
  with Cmd.prems have cs: "cs = c # ds" and p: "run_prog ?f (k (?f h c)) (h @ [c]) = (x, (h @ [c]) @ ds)"
    by (simp_all add: prod_eq_iff)
  show ?case
  proof (cases "length h < length rs")
    case True
    then have "drop (length h) rs = rs ! length h # drop (length (h @ [c])) rs"
      by (simp add: Cons_nth_drop_Suc)
    with True Cmd.IH [OF _ p] cs show ?thesis by (auto simp: Suc_diff_Suc [symmetric])
  next
    case False
    with cs show ?thesis by simp
  qed
qed

lemma waits_tree:
  assumes "waits m"
  obtains t where "\<And>rs. resume m os rs = next_of (after t rs)"
    and "\<And>h. run_state (m os) h = run_prog (exec_result os) t h"
proof -
  obtain t where t: "run_state (m (os\<lparr>exec_result := f\<rparr>)) h = run_prog f t h" for f h
    using assms unfolding waits_def by blast
  have "resume m os rs = next_of (after t rs)" for rs
  proof -
    let ?f = "\<lambda>h c. if length h < length rs then rs ! length h else None"
    obtain x cs where "run_prog ?f t [] = (x, [] @ cs)" by (cases "run_prog ?f t []") simp
    from resume_from [OF this] this show ?thesis
      by (simp add: resume_def replay_def t)
  qed
  moreover have "run_state (m os) h = run_prog (exec_result os) t h" for h
    using t [of "exec_result os" h] by simp
  ultimately show ?thesis using that by blast
qed

section \<open>The operations of the daemon\<close>

lemma env_update [simp]:
  "system32 (os\<lparr>exec_result := f\<rparr>) name = system32 os name"
  "parse_ipv4_cidr (os\<lparr>exec_result := f\<rparr>) cidr = parse_ipv4_cidr os cidr"
  "netsh_cmd (os\<lparr>exec_result := f\<rparr>) args = netsh_cmd os args"
  "route_cmd (os\<lparr>exec_result := f\<rparr>) c = route_cmd os c"
  "kill_switch_cmd (os\<lparr>exec_result := f\<rparr>) p c = kill_switch_cmd os p c"
  "authorised (os\<lparr>exec_result := f\<rparr>) tok l = authorised os tok l"
proof -
  have e: "uni_print (os\<lparr>exec_result := f\<rparr>) = uni_print os" "getenv (os\<lparr>exec_result := f\<rparr>) = getenv os"
    "uni_fold (os\<lparr>exec_result := f\<rparr>) = uni_fold os" by simp_all
  show "system32 (os\<lparr>exec_result := f\<rparr>) name = system32 os name"
    "parse_ipv4_cidr (os\<lparr>exec_result := f\<rparr>) cidr = parse_ipv4_cidr os cidr"
    "netsh_cmd (os\<lparr>exec_result := f\<rparr>) args = netsh_cmd os args"
    "route_cmd (os\<lparr>exec_result := f\<rparr>) c = route_cmd os c"
    "kill_switch_cmd (os\<lparr>exec_result := f\<rparr>) p c = kill_switch_cmd os p c"
    "authorised (os\<lparr>exec_result := f\<rparr>) tok l = authorised os tok l"
    unfolding system32_def parse_ipv4_cidr_def netsh_cmd_def route_cmd_def kill_switch_cmd_def
      authorised_def e by (rule refl)+
qed

lemma env_replay [simp]:
  "authorised (replay os rs) tok l = authorised os tok l"
  "daemon_cmd (replay os rs) p c = daemon_cmd os p c"
  "daemon_cmd (replay os rs) p = daemon_cmd os p"
  by (simp_all add: replay_def daemon_cmd_def fun_eq_iff)

lemma waits_then_nil [waits_intros]: "waits m \<Longrightarrow> waits k \<Longrightarrow> waits (\<lambda>os. then_nil (m os) (k os))"
  unfolding then_nil_def by (intro waits_intros)

lemma waits_netsh [waits_intros]: "waits (\<lambda>os. netsh os args)"
  unfolding netsh_def by (intro waits_intros) simp

lemma waits_enable [waits_intros]: "waits (\<lambda>os. enable_kill_switch os p)"
  unfolding enable_kill_switch_def by (intro waits_intros)

lemma waits_disable [waits_intros]: "waits (\<lambda>os. disable_kill_switch os p)"
  unfolding disable_kill_switch_def by (intro waits_intros)

lemma waits_add_route [waits_intros]: "waits (\<lambda>os. add_route os cidr gw)"
proof (rule waits_fixed)
  fix os
  show "\<exists>n. waits n \<and> (\<forall>f. add_route (os\<lparr>exec_result := f\<rparr>) cidr gw = n (os\<lparr>exec_result := f\<rparr>))"
  proof (cases "\<exists>ip msk g. parse_ipv4_cidr os cidr = Inr (ip, msk) \<and> Option.bind (parse_ip gw) to4 = Some g")
    case True
    then obtain ip msk g where p: "parse_ipv4_cidr os cidr = Inr (ip, msk)"
        "Option.bind (parse_ip gw) to4 = Some g" by blast
    have "waits (\<lambda>os. run os (system32 os ''route.exe'') [''ADD'', ip, ''MASK'', msk, show_ipv4 g])"
      by (intro waits_intros) simp
    with p show ?thesis by (intro exI conjI) (auto simp: add_route_def)
  next
    case False
    then have "add_route (os\<lparr>exec_result := f\<rparr>) cidr gw
        = return (Some (case parse_ipv4_cidr os cidr of Inl e \<Rightarrow> e
                        | Inr _ \<Rightarrow> ''invalid gateway '' @ go_quote (uni_print os) gw))" for f
      by (auto simp: add_route_def split: sum.splits option.splits)
    then obtain e where "\<forall>f. add_route (os\<lparr>exec_result := f\<rparr>) cidr gw = return (Some e)" by blast
    then show ?thesis using waits_return [of "Some e"] by blast
  qed
qed

lemma waits_remove_route [waits_intros]: "waits (\<lambda>os. remove_route os cidr)"
proof (rule waits_fixed)
  fix os
  show "\<exists>n. waits n \<and> (\<forall>f. remove_route (os\<lparr>exec_result := f\<rparr>) cidr = n (os\<lparr>exec_result := f\<rparr>))"
  proof (cases "parse_ipv4_cidr os cidr")
    case (Inl e)
    then show ?thesis using waits_return [of "Some e"] by (auto simp: remove_route_def)
  next
    case (Inr q)
    have "waits (\<lambda>os. run os (system32 os ''route.exe'') [''DELETE'', fst q])"
      by (intro waits_intros) simp
    with Inr show ?thesis by (intro exI conjI) (auto simp: remove_route_def split: prod.splits)
  qed
qed

lemma waits_dispatch [waits_intros]: "waits (\<lambda>os. dispatch os tok p req)"
  unfolding dispatch_def by (intro waits_intros)

lemma waits_answer: "waits (\<lambda>os. answer os tok p l)"
proof (rule waits_fixed)
  fix os
  show "\<exists>n. waits n \<and> (\<forall>f. answer (os\<lparr>exec_result := f\<rparr>) tok p l = n (os\<lparr>exec_result := f\<rparr>))"
  proof (cases "decode_request (uni_fold os) l")
    case None
    then show ?thesis
      using waits_return [of "write_resp (error_resp 0 ''invalid json'')"]
      by (intro exI conjI) (auto simp: answer_def)
  next
    case (Some req)
    have "waits (\<lambda>os. State_Monad.bind (dispatch os tok p req) (\<lambda>r. return (write_resp r)))"
      by (intro waits_intros)
    with Some show ?thesis by (intro exI conjI) (auto simp: answer_def)
  qed
qed

text \<open>What a handler runs next was authorised and belongs to the daemon's commands.\<close>

lemma resume_answer:
  assumes "resume (\<lambda>os. answer os tok p l) os rs = Inl c"
  shows "authorised os tok l \<and> daemon_cmd os p c"
proof -
  obtain x cs where r: "run_state (answer (replay os rs) tok p l) [] = (x, cs)" by fastforce
  with assms have c: "c \<in> set cs" by (auto simp: resume_def split: if_splits)
  have "list_all (daemon_cmd os p) cs"
    using confinedD [OF answer_confined r] by auto
  moreover have "authorised os tok l"
    using answer_unauthorised [of "replay os rs" tok l p "[]"] r c by (cases "authorised os tok l") auto
  ultimately show ?thesis using c by (auto simp: list_all_iff)
qed

lemma resume_answer_line:
  "resume (\<lambda>os. answer os tok p l) os rs = Inr out \<Longrightarrow> one_line_text out"
  using answer_line [of "replay os rs" tok p l "[]"] by (auto simp: resume_def split: prod.splits if_splits)

section \<open>The daemon\<close>

text \<open>A handler with its reader and what \<open>ReadFile\<close> gave it, the lines it has taken and the answers
  it has written; while it answers a line, that line, the outcomes its commands have had, and
  the outcome of the command it is waiting for. The trace of the process records for every
  command the path and the line it was run for.\<close>

record session =
  ss_pipe :: handle
  ss_path :: string
  ss_reads :: "read_file list"
  ss_reader :: bufio
  ss_in :: "string list"
  ss_run :: "(string \<times> string option list) option"
  ss_wait :: "string option option"
  ss_out :: "string list"

record daemon =
  dm_server :: server
  dm_sessions :: "session list"
  dm_trace :: "(string \<times> string \<times> command) list"

definition new_session :: "handle \<Rightarrow> string \<Rightarrow> session" where
  "new_session h path = \<lparr>ss_pipe = h, ss_path = path, ss_reads = [], ss_reader = new_reader, ss_in = [],
     ss_run = None, ss_wait = None, ss_out = []\<rparr>"

definition new_daemon :: daemon where
  "new_daemon = \<lparr>dm_server = new_server, dm_sessions = [], dm_trace = []\<rparr>"

definition dm_log :: "daemon \<Rightarrow> log" where
  "dm_log d = map (\<lambda>(path, l, c). c) (dm_trace d)"

definition handler_of :: "session \<Rightarrow> handle \<times> string" where
  "handler_of x = (ss_pipe x, ss_path x)"

text \<open>The goroutines of the server and those of the handlers in any order. A handler goes round the
  loop of \<open>handle\<close>: it takes the next line from its reader, after the reads that needed, or ends
  when the read fails; it starts the next command of the line on the log that all handlers share
  and waits for it to end; it writes the answer. Every call can block, and for ever: a read
  without a line, a tool that does not end and a pipe that takes no bytes are steps that are not
  taken, while the others go on.\<close>

inductive daemon_step :: "(32 word \<Rightarrow> string result) \<Rightarrow> os \<Rightarrow> string \<Rightarrow> daemon \<Rightarrow> daemon \<Rightarrow> bool"
  for verify :: "32 word \<Rightarrow> string result" and os :: os and tok :: string where
  server_moves: "server_step verify (dm_server d) s \<Longrightarrow> sv_handlers s = sv_handlers (dm_server d) \<Longrightarrow>
    daemon_step verify os tok d (d\<lparr>dm_server := s\<rparr>)"
| session_starts: "accept_step verify (dm_server d) s \<Longrightarrow>
    sv_handlers s = sv_handlers (dm_server d) @ [(h, path)] \<Longrightarrow>
    daemon_step verify os tok d (d\<lparr>dm_server := s, dm_sessions := dm_sessions d @ [new_session h path]\<rparr>)"
| session_ends: "dm_sessions d = xs @ x # ys \<Longrightarrow> ss_run x = None \<Longrightarrow>
    read_bytes (ss_reader x) reads = (Failed e, b, []) \<Longrightarrow>
    daemon_step verify os tok d
      (d\<lparr>dm_server := (close_handle Handler (ss_pipe x) (dm_server d))\<lparr>sv_handlers := map handler_of (xs @ ys)\<rparr>,
         dm_sessions := xs @ ys\<rparr>)"
| receive_line: "dm_sessions d = xs @ x # ys \<Longrightarrow> ss_run x = None \<Longrightarrow>
    read_bytes (ss_reader x) reads = (Line l, b, []) \<Longrightarrow>
    daemon_step verify os tok d
      (d\<lparr>dm_sessions := xs @ x\<lparr>ss_reads := ss_reads x @ reads, ss_reader := b,
          ss_in := ss_in x @ [l], ss_run := Some (l, [])\<rparr> # ys\<rparr>)"
| start_command: "dm_sessions d = xs @ x # ys \<Longrightarrow> ss_run x = Some (l, rs) \<Longrightarrow> ss_wait x = None \<Longrightarrow>
    resume (\<lambda>os. answer os tok (ss_path x) l) os rs = Inl c \<Longrightarrow>
    daemon_step verify os tok d
      (d\<lparr>dm_sessions := xs @ x\<lparr>ss_wait := Some (exec_result os (dm_log d) c)\<rparr> # ys,
         dm_trace := dm_trace d @ [(ss_path x, l, c)]\<rparr>)"
| command_ends: "dm_sessions d = xs @ x # ys \<Longrightarrow> ss_run x = Some (l, rs) \<Longrightarrow> ss_wait x = Some r \<Longrightarrow>
    daemon_step verify os tok d
      (d\<lparr>dm_sessions := xs @ x\<lparr>ss_run := Some (l, rs @ [r]), ss_wait := None\<rparr> # ys\<rparr>)"
| write_answer: "dm_sessions d = xs @ x # ys \<Longrightarrow> ss_run x = Some (l, rs) \<Longrightarrow> ss_wait x = None \<Longrightarrow>
    resume (\<lambda>os. answer os tok (ss_path x) l) os rs = Inr out \<Longrightarrow>
    daemon_step verify os tok d
      (d\<lparr>dm_sessions := xs @ x\<lparr>ss_run := None, ss_out := ss_out x @ [out]\<rparr> # ys\<rparr>)"

inductive daemon_reach :: "(32 word \<Rightarrow> string result) \<Rightarrow> os \<Rightarrow> string \<Rightarrow> daemon \<Rightarrow> bool"
  for verify :: "32 word \<Rightarrow> string result" and os :: os and tok :: string where
  daemon_new: "daemon_reach verify os tok new_daemon"
| daemon_next: "daemon_reach verify os tok d \<Longrightarrow> daemon_step verify os tok d d' \<Longrightarrow> daemon_reach verify os tok d'"

interpretation daemon_runs: runs new_daemon "daemon_step verify os tok" "daemon_reach verify os tok"
  by unfold_locales (rule daemon_new, erule (1) daemon_next, erule daemon_reach.induct, blast+)

inductive_cases daemon_stepE: "daemon_step verify os tok d d'"

section \<open>Invariants\<close>

text \<open>The handlers of the server are those of the sessions, so that the daemon's server moves as
  the server alone does.\<close>

definition serves :: "daemon \<Rightarrow> server \<Rightarrow> bool" where
  "serves d s \<longleftrightarrow> s = dm_server d \<and> sv_handlers s = map handler_of (dm_sessions d)"

lemma serves_step:
  assumes "serves d s" "daemon_step verify os tok d d'"
  shows "serves d' (dm_server d') \<and> (server_step verify)\<^sup>*\<^sup>* s (dm_server d')"
  using assms(2)
proof (cases rule: daemon_step.cases)
  case (session_starts s' h path)
  with assms(1) by_accept [OF session_starts(2)] show ?thesis
    by (auto simp: serves_def new_session_def handler_of_def)
next
  case (session_ends xs x ys)
  with assms(1) have "sv_handlers (dm_server d) = map handler_of xs @ (ss_pipe x, ss_path x) # map handler_of ys"
    by (auto simp: serves_def handler_of_def)
  from by_other [OF handler_done [OF this]] session_ends assms(1) show ?thesis by (auto simp: serves_def)
qed (use assms(1) in \<open>auto simp: serves_def handler_of_def\<close>)

interpretation daemon_serves: simulation new_daemon "daemon_step verify os tok" "daemon_reach verify os tok"
    new_server "server_step verify" "server_reach verify" serves
  by unfold_locales (simp add: serves_def new_daemon_def new_server_def, use serves_step in blast)

lemma daemon_server:
  "daemon_reach verify os tok d \<Longrightarrow>
   server_reach verify (dm_server d) \<and> sv_handlers (dm_server d) = map handler_of (dm_sessions d)"
  using daemon_serves.reach_related by (auto simp: serves_def)

text \<open>Every line is answered by one line, in order, and at most one is being answered; a handler
  waits for a command only then.\<close>

definition session_inv :: "session \<Rightarrow> bool" where
  "session_inv x \<longleftrightarrow> length (ss_in x) = length (ss_out x) + (if ss_run x = None then 0 else 1)
     \<and> list_all one_line_text (ss_out x) \<and> (ss_run x = None \<longrightarrow> ss_wait x = None)"

lemma sessions_step:
  "daemon_step verify os tok d d' \<Longrightarrow> list_all session_inv (dm_sessions d) \<Longrightarrow> list_all session_inv (dm_sessions d')"
  by (erule daemon_stepE) (auto simp: session_inv_def new_session_def dest: resume_answer_line)

text \<open>The lines a handler has taken are the first lines of the bytes its connection delivers,
  whatever it still reads.\<close>

definition reads_inv :: "session \<Rightarrow> bool" where
  "reads_inv x \<longleftrightarrow> (\<forall>qs. \<exists>t e. delivered (ss_reads x @ qs) = (concat (ss_in x) @ t, e)
       \<and> remaining (ss_reader x) qs = (t, e))
     \<and> list_all one_line_text (ss_in x)"

lemma read_bytes_more:
  "read_bytes b rs = (Line l, b', []) \<Longrightarrow> read_bytes b (rs @ qs) = (Line l, b', qs)"
proof (induction b rs rule: read_bytes.induct)
  case (1 b rs)
  show ?case
  proof (cases "newline \<in> set (b_buf b)")
    case True
    with 1(2) show ?thesis by (auto simp: read_bytes.simps [of b])
  next
    case False
    with 1(2) obtain r rs' where r: "b_err b = None" "rs = r # rs'"
      by (auto simp: read_bytes.simps [of b rs] split: option.splits list.splits)
    with 1 False show ?thesis by (simp add: read_bytes.simps [of b "r # rs'"] read_bytes.simps [of b "r # rs' @ qs"])
  qed
qed

lemma reads_inv_new: "reads_inv (new_session h path)"
  by (simp add: reads_inv_def new_session_def remaining_def new_reader_def split: prod.splits)

lemma reads_inv_line:
  assumes "reads_inv x" "read_bytes (ss_reader x) rs = (Line l, b, [])"
  shows "reads_inv (x\<lparr>ss_reads := ss_reads x @ rs, ss_reader := b, ss_in := ss_in x @ [l], ss_run := r\<rparr>)"
proof -
  have "\<exists>t e. delivered (ss_reads x @ rs @ qs) = (concat (ss_in x) @ l @ t, e) \<and> remaining b qs = (t, e)
     \<and> one_line_text l" for qs
  proof -
    obtain m t e where m: "remaining (ss_reader x) (rs @ qs) = (m @ newline # t, e)" "l = m @ [newline]"
        "newline \<notin> set m" "remaining b qs = (t, e)"
      using read_bytes_spec [of "ss_reader x" "rs @ qs"] read_bytes_more [OF assms(2), of qs] by auto
    moreover obtain u e' where "delivered (ss_reads x @ rs @ qs) = (concat (ss_in x) @ u, e')"
        "remaining (ss_reader x) (rs @ qs) = (u, e')"
      using assms(1) unfolding reads_inv_def by blast
    ultimately show ?thesis by (auto simp: one_line_text_def)
  qed
  with assms(1) show ?thesis by (auto simp: reads_inv_def) blast
qed

lemma reads_step:
  "daemon_step verify os tok d d' \<Longrightarrow> list_all reads_inv (dm_sessions d) \<Longrightarrow> list_all reads_inv (dm_sessions d')"
proof (erule daemon_stepE, goal_cases)
  case (4 xs x ys reads l b)
  then show ?case using reads_inv_line [of x reads l b] by simp
qed (simp_all add: reads_inv_new, simp_all add: reads_inv_def)

lemma reads_of: "daemon_reach verify os tok d \<Longrightarrow> list_all reads_inv (dm_sessions d)"
  by (rule daemon_runs.run_invariant [OF _ reads_step]) (simp_all add: new_daemon_def)

lemma complete_lines_concat: "list_all one_line_text ls \<Longrightarrow> complete_lines (concat ls @ t) = ls @ complete_lines t"
  by (induction ls) (auto simp: one_line_text_def complete_lines_Cons)

lemma reads_inv_lines:
  assumes "reads_inv x"
  shows "\<exists>t. complete_lines (fst (delivered (ss_reads x @ qs))) = ss_in x @ t"
proof -
  obtain t e where "delivered (ss_reads x @ qs) = (concat (ss_in x) @ t, e)" "list_all one_line_text (ss_in x)"
    using assms unfolding reads_inv_def by blast
  then show ?thesis by (simp add: complete_lines_concat)
qed

text \<open>So a handler stands in the loop of \<open>handle\<close>: the loop over its connection is the answers to
  the lines it has taken, and then the loop from the reader it has now.\<close>

lemma serve_lines_append:
  "serve_lines ans (xs @ ys) = do { as \<leftarrow> serve_lines ans xs; bs \<leftarrow> serve_lines ans ys; return (as @ bs) }"
  by (induction xs) simp_all

lemma session_in_loop:
  assumes "reads_inv x"
  shows "handle_loop ans new_reader (ss_reads x @ qs) =
    do { as \<leftarrow> serve_lines ans (ss_in x); bs \<leftarrow> handle_loop ans (ss_reader x) qs; return (as @ bs) }"
proof -
  obtain t e where d: "delivered (ss_reads x @ qs) = (concat (ss_in x) @ t, e)" "remaining (ss_reader x) qs = (t, e)"
      "list_all one_line_text (ss_in x)"
    using assms unfolding reads_inv_def by blast
  then have "remaining new_reader (ss_reads x @ qs) = (concat (ss_in x) @ t, e)"
    by (simp add: remaining_def new_reader_def)
  with d show ?thesis by (simp add: handle_loop_serve serve_def complete_lines_concat serve_lines_append)
qed

text \<open>One read that gives one line leaves the reader empty.\<close>

lemma reads_one_line: "one_line_text l \<Longrightarrow> read_bytes new_reader [ReadOk l] = (Line l, new_reader, [])"
  by (auto simp: one_line_text_def read_bytes.simps new_reader_def fill_def)

lemma daemon_sessions: "daemon_reach verify os tok d \<Longrightarrow> list_all session_inv (dm_sessions d)"
  by (rule daemon_runs.run_invariant [OF _ sessions_step]) (simp_all add: new_daemon_def)

text \<open>Every command that was run belongs to a verified path and an authorised line.\<close>

definition trace_ok :: "(string \<Rightarrow> bool) \<Rightarrow> os \<Rightarrow> string \<Rightarrow> daemon \<Rightarrow> bool" where
  "trace_ok acceptable os tok d \<longleftrightarrow>
     list_all (\<lambda>(path, l, c). acceptable path \<and> authorised os tok l \<and> daemon_cmd os path c) (dm_trace d)"

context peer_check
begin

lemma trace_step:
  assumes "daemon_step verify os tok d d'" "daemon_reach verify os tok d" "trace_ok acceptable os tok d"
  shows "trace_ok acceptable os tok d'"
  using assms(1)
proof (cases rule: daemon_step.cases)
  case (start_command xs x ys l rs c)
  have "list_all (\<lambda>(h, path). acceptable path) (sv_handlers (dm_server d))"
    using handlers_acceptable daemon_server [OF assms(2)] by blast
  then have "acceptable (ss_path x)"
    using daemon_server [OF assms(2)] start_command by (simp add: handler_of_def)
  with resume_answer [OF start_command(5)] start_command assms(3) show ?thesis
    by (simp add: trace_ok_def)
qed (use assms(3) in \<open>simp_all add: trace_ok_def\<close>)

lemma daemon_trace: "daemon_reach verify os tok d \<Longrightarrow> trace_ok acceptable os tok d"
proof (induction rule: daemon_runs.run_induct)
  case start
  then show ?case by (simp add: trace_ok_def new_daemon_def)
qed (rule trace_step)

end

section \<open>Quiet steps\<close>

text \<open>The handlers that are answering a line, and the steps that leave their number as it is.\<close>

definition busy :: "daemon \<Rightarrow> session list" where
  "busy d = filter (\<lambda>x. ss_run x \<noteq> None) (dm_sessions d)"

abbreviation quiet_step :: "(32 word \<Rightarrow> string result) \<Rightarrow> os \<Rightarrow> string \<Rightarrow> daemon \<Rightarrow> daemon \<Rightarrow> bool" where
  "quiet_step verify os tok d d' \<equiv> daemon_step verify os tok d d' \<and> length (busy d') = length (busy d)"

lemma quiet_to:
  "(quiet_step verify os tok)\<^sup>*\<^sup>* d d1 \<Longrightarrow> daemon_step verify os tok d1 d2 \<Longrightarrow> length (busy d2) = length (busy d1) \<Longrightarrow>
   d2 = d3 \<Longrightarrow> (quiet_step verify os tok)\<^sup>*\<^sup>* d d3"
  by (auto intro: rtranclp.rtrancl_into_rtrancl)

lemma quiet_daemon: "(quiet_step verify os tok)\<^sup>*\<^sup>* d d' \<Longrightarrow> (daemon_step verify os tok)\<^sup>*\<^sup>* d d'"
  by (induction rule: rtranclp_induct) (auto intro: rtranclp.rtrancl_into_rtrancl)

section \<open>Accepting clients\<close>

text \<open>A waiting server can take in a client whose process passes the check, on any free handle.\<close>

definition with_client :: "handle \<Rightarrow> string \<Rightarrow> daemon \<Rightarrow> daemon" where
  "with_client h path d =
     d\<lparr>dm_server := (dm_server d)\<lparr>sv_open := (sv_open (dm_server d))(h \<mapsto> Accept),
          sv_calls := sv_calls (dm_server d)
            @ [CreateNamedPipe (create_pipe_args (sv_accept (dm_server d) = ACreate True)) h],
          sv_cur := None, sv_handlers := sv_handlers (dm_server d) @ [(h, path)],
          sv_accept := ACreate False\<rparr>,
       dm_sessions := dm_sessions d @ [new_session h path]\<rparr>"

lemma accept_quietly:
  assumes "sv_accept (dm_server d) = ACreate first" "\<not> sv_stopped (dm_server d)"
    and "sv_open (dm_server d) h = None" "verify pid = Inr path"
  shows "(quiet_step verify os tok)\<^sup>*\<^sup>* d (with_client h path d)"
proof -
  let ?s = "(dm_server d)\<lparr>sv_open := (sv_open (dm_server d))(h \<mapsto> Accept),
     sv_calls := sv_calls (dm_server d) @ [CreateNamedPipe (create_pipe_args first) h]\<rparr>"
  let ?d = "\<lambda>c pc. d\<lparr>dm_server := ?s\<lparr>sv_cur := c, sv_accept := pc\<rparr>\<rparr>"
  have "(quiet_step verify os tok)\<^sup>*\<^sup>* d (?d (sv_cur (dm_server d)) (AGot h))"
    by (rule quiet_to [OF rtranclp.rtrancl_refl server_moves [OF by_accept [OF create_ok [OF assms(1,3)]]]])
      (simp_all add: busy_def)
  then have "(quiet_step verify os tok)\<^sup>*\<^sup>* d (?d (Some h) (AWait h))"
    by (rule quiet_to [OF _ server_moves [OF by_accept [OF publish [where h = h]]]]) (simp_all add: busy_def assms(2))
  then have "(quiet_step verify os tok)\<^sup>*\<^sup>* d (?d (Some h) (AAwake h (Inr pid)))"
    by (rule quiet_to [OF _ server_moves [OF by_client [OF connected
          [where h = h and c = Connected and r = "\<lparr>pr_ret = 1, pr_pid = pid, pr_err = []\<rparr>"]]]])
      (simp_all add: busy_def wait_for_client_def named_pipe_client_pid_def)
  then have "(quiet_step verify os tok)\<^sup>*\<^sup>* d (?d None (AVerify h pid))"
    by (rule quiet_to [OF _ server_moves [OF by_accept [OF awake_client [where h = h and pid = pid]]]])
      (simp_all add: busy_def assms(2))
  then show ?thesis
    by (rule quiet_to [OF _ session_starts [OF spawn [where h = h and pid = pid and path = path]]])
      (simp_all add: busy_def assms(1,4) with_client_def new_session_def)
qed

lemma accept_client:
  assumes "daemon_reach verify os tok d" "sv_accept (dm_server d) = ACreate first" "\<not> sv_stopped (dm_server d)"
    and "sv_open (dm_server d) h = None" "verify pid = Inr path"
  shows "daemon_reach verify os tok (with_client h path d)"
  using daemon_runs.run_steps [OF quiet_daemon [OF accept_quietly [where pid = pid, OF assms(2-4)]] assms(1)] assms(5) .

lemma server_up: "daemon_reach verify os tok (new_daemon\<lparr>dm_server := new_server\<lparr>sv_accept := ACreate True\<rparr>\<rparr>)"
  by (rule daemon_runs.run_to [OF daemon_new server_moves [OF by_accept [OF sa_parsed]]])
    (simp_all add: new_daemon_def new_server_def)

section \<open>A handler alone\<close>

text \<open>When no other part of the daemon moves and its commands end, a handler runs the commands of
  the sequential operation.\<close>

lemma tree_commands:
  assumes "\<And>rs. resume (\<lambda>os. answer os tok (ss_path x) l) os rs = next_of (after t rs)"
    and "dm_sessions d = xs @ x # ys" "ss_run x = Some (l, rs)" "ss_wait x = None"
    and "run_prog (exec_result os) (after t rs) (dm_log d) = (out, dm_log d @ cs)"
  shows "\<exists>rs'. (quiet_step verify os tok)\<^sup>*\<^sup>* d
      (d\<lparr>dm_sessions := xs @ x\<lparr>ss_run := Some (l, rs')\<rparr> # ys,
         dm_trace := dm_trace d @ map (\<lambda>c. (ss_path x, l, c)) cs\<rparr>)
    \<and> resume (\<lambda>os. answer os tok (ss_path x) l) os rs' = Inr out"
  using assms
proof (induction "after t rs" arbitrary: d x rs cs)
  case (Ret y)
  from Ret(1) [symmetric] Ret.prems(1,5) have r: "resume (\<lambda>os. answer os tok (ss_path x) l) os rs = Inr out" "cs = []"
    by simp_all
  moreover have "x\<lparr>ss_run := Some (l, rs)\<rparr> = x" using Ret.prems(3) by (cases x) simp
  then have "d\<lparr>dm_sessions := xs @ x\<lparr>ss_run := Some (l, rs)\<rparr> # ys, dm_trace := dm_trace d @ map (\<lambda>c. (ss_path x, l, c)) cs\<rparr> = d"
    using Ret.prems(2) r(2) by (cases d) simp
  ultimately show ?case by (intro exI [of _ rs]) simp
next
  case (Cmd c k)
  let ?r = "exec_result os (dm_log d) c"
  let ?x = "x\<lparr>ss_run := Some (l, rs @ [?r])\<rparr>"
  let ?d = "d\<lparr>dm_sessions := xs @ ?x # ys, dm_trace := dm_trace d @ [(ss_path x, l, c)]\<rparr>"
  have a: "after t (rs @ [?r]) = k ?r" using Cmd(2) [symmetric] by (simp add: after_append)
  have log: "dm_log ?d = dm_log d @ [c]" by (simp add: dm_log_def)
  have p: "run_prog (exec_result os) (k ?r) (dm_log d @ [c]) = (out, dm_log d @ cs)"
    using Cmd.prems(5) Cmd(2) [symmetric] by simp
  then obtain ds where cs: "cs = c # ds" using run_prog_log [of "exec_result os" "k ?r" "dm_log d @ [c]"] by auto
  have "resume (\<lambda>os. answer os tok (ss_path x) l) os rs = Inl c"
    using Cmd.prems(1) Cmd(2) [symmetric] by simp
  note start = start_command [OF Cmd.prems(2-4) this]
  let ?e = "d\<lparr>dm_sessions := xs @ x\<lparr>ss_wait := Some ?r\<rparr> # ys, dm_trace := dm_trace d @ [(ss_path x, l, c)]\<rparr>"
  have "daemon_step verify os tok ?e ?d"
    using command_ends [of ?e xs "x\<lparr>ss_wait := Some ?r\<rparr>" ys l rs ?r verify os tok] Cmd.prems(3,4)
    by (cases x; cases d) simp
  then have s: "(quiet_step verify os tok)\<^sup>*\<^sup>* d ?d"
    using Cmd.prems(2,3) start
    by (intro converse_rtranclp_into_rtranclp [of _ d ?e] r_into_rtranclp) (simp_all add: busy_def)
  have "\<exists>rs'. (quiet_step verify os tok)\<^sup>*\<^sup>* ?d
      (?d\<lparr>dm_sessions := xs @ ?x\<lparr>ss_run := Some (l, rs')\<rparr> # ys,
         dm_trace := dm_trace ?d @ map (\<lambda>c. (ss_path ?x, l, c)) ds\<rparr>)
    \<and> resume (\<lambda>os. answer os tok (ss_path ?x) l) os rs' = Inr out"
  proof (rule Cmd(1) [where rs = "rs @ [?r]"])
    show "after t (rs @ [?r]) \<in> range k" by (simp add: a)
  qed (use Cmd.prems(1,4) a p cs log in simp_all)
  then obtain rs' where "(quiet_step verify os tok)\<^sup>*\<^sup>* ?d
      (?d\<lparr>dm_sessions := xs @ ?x\<lparr>ss_run := Some (l, rs')\<rparr> # ys,
         dm_trace := dm_trace ?d @ map (\<lambda>c. (ss_path ?x, l, c)) ds\<rparr>)"
    "resume (\<lambda>os. answer os tok (ss_path x) l) os rs' = Inr out" by auto
  with rtranclp_trans [OF s this(1)] show ?case
    by (intro exI [of _ rs']) (simp add: cs)
qed

text \<open>A line just taken.\<close>

definition line_taken :: "read_file list \<Rightarrow> bufio \<Rightarrow> string \<Rightarrow> session \<Rightarrow> session" where
  "line_taken reads b l x =
     x\<lparr>ss_reads := ss_reads x @ reads, ss_reader := b, ss_in := ss_in x @ [l], ss_run := Some (l, [])\<rparr>"

lemma line_taken_simps [simp]:
  "ss_path (line_taken reads b l x) = ss_path x" "ss_in (line_taken reads b l x) = ss_in x @ [l]"
  "ss_run (line_taken reads b l x) = Some (l, [])" "ss_wait (line_taken reads b l x) = ss_wait x"
  "ss_out (line_taken reads b l x) = ss_out x" "ss_pipe (line_taken reads b l x) = ss_pipe x"
  by (simp_all add: line_taken_def)

lemma line_commands:
  assumes "ss_wait x = None"
    and "run_state (answer os tok (ss_path x) l) (dm_log d) = (out, dm_log d @ cs)"
  obtains rs' where "(quiet_step verify os tok)\<^sup>*\<^sup>*
      (d\<lparr>dm_sessions := xs @ line_taken reads b l x # ys\<rparr>)
      (d\<lparr>dm_sessions := xs @ (line_taken reads b l x)\<lparr>ss_run := Some (l, rs')\<rparr> # ys,
         dm_trace := dm_trace d @ map (\<lambda>c. (ss_path x, l, c)) cs\<rparr>)"
    "resume (\<lambda>os. answer os tok (ss_path x) l) os rs' = Inr out"
proof -
  let ?x = "line_taken reads b l x"
  let ?d = "d\<lparr>dm_sessions := xs @ ?x # ys\<rparr>"
  obtain t where t: "\<And>rs. resume (\<lambda>os. answer os tok (ss_path x) l) os rs = next_of (after t rs)"
      "\<And>h. run_state (answer os tok (ss_path x) l) h = run_prog (exec_result os) t h"
    using waits_tree [OF waits_answer, of tok "ss_path x" l os] by metis
  have "\<exists>rs'. (quiet_step verify os tok)\<^sup>*\<^sup>* ?d
      (?d\<lparr>dm_sessions := xs @ ?x\<lparr>ss_run := Some (l, rs')\<rparr> # ys,
         dm_trace := dm_trace ?d @ map (\<lambda>c. (ss_path ?x, l, c)) cs\<rparr>)
    \<and> resume (\<lambda>os. answer os tok (ss_path ?x) l) os rs' = Inr out"
    by (rule tree_commands [where t = t and rs = "[]"]) (use t assms in \<open>simp_all add: dm_log_def\<close>)
  with that show ?thesis by auto
qed

end
