(* ===== verification/Switch_State.thy ===== *)
theory Switch_State
  imports Handlers
begin

text \<open>
  What the kill switch commands leave behind (windows_daemon/firewall.go as ipc.go calls it): the
  outbound policy and the rule for the client, read off the log of commands. One request after
  the other, the two agree and follow the requests; handlers that run at the same time can leave
  them apart.
\<close>

section \<open>The effect of a log\<close>

text \<open>The last policy command decides whether outbound traffic is blocked, the last command on
  the rule for the client whether it is exempt. This counts every command as effective, so it is
  used for logs whose commands all succeeded.\<close>

definition policy_step :: "os \<Rightarrow> bool \<Rightarrow> command \<Rightarrow> bool" where
  "policy_step os b c =
     (if c = netsh_cmd os block_args then True else if c = netsh_cmd os allow_args then False else b)"

definition policy_blocks :: "os \<Rightarrow> log \<Rightarrow> bool" where
  "policy_blocks os = foldl (policy_step os) False"

definition rule_step :: "os \<Rightarrow> string \<Rightarrow> bool \<Rightarrow> command \<Rightarrow> bool" where
  "rule_step os p b c =
     (if c = netsh_cmd os (app_rule_args p) then True
      else if c = netsh_cmd os (delete_args rule_name) then False else b)"

definition client_exempt :: "os \<Rightarrow> string \<Rightarrow> log \<Rightarrow> bool" where
  "client_exempt os p = foldl (rule_step os p) False"

lemma effect_append:
  "policy_blocks os (h @ cs) = foldl (policy_step os) (policy_blocks os h) cs"
  "client_exempt os p (h @ cs) = foldl (rule_step os p) (client_exempt os p h) cs"
  by (simp_all add: policy_blocks_def client_exempt_def)

lemma netsh_cmd_inj [simp]: "netsh_cmd os a = netsh_cmd os b \<longleftrightarrow> a = b"
  by (simp add: netsh_cmd_def)

lemma args_distinct [simp]:
  "block_args \<noteq> allow_args" "allow_args \<noteq> block_args"
  "app_rule_args p \<noteq> block_args" "app_rule_args p \<noteq> allow_args"
  "block_args \<noteq> app_rule_args p" "allow_args \<noteq> app_rule_args p"
  "loopback_rule_args \<noteq> block_args" "loopback_rule_args \<noteq> allow_args"
  "loopback_rule_args \<noteq> app_rule_args p" "loopback_rule_args \<noteq> delete_args n"
  "delete_args n \<noteq> block_args" "delete_args n \<noteq> allow_args" "delete_args n \<noteq> app_rule_args p"
  "app_rule_args p \<noteq> delete_args n" "block_args \<noteq> delete_args n" "allow_args \<noteq> delete_args n"
  "delete_args rule_name_loopback \<noteq> delete_args rule_name"
  by (simp_all add: block_args_def allow_args_def app_rule_args_def loopback_rule_args_def
      delete_args_def rule_name_def rule_name_loopback_def)

lemma effect_enable:
  "p \<noteq> [] \<Longrightarrow> policy_blocks os (h @ enable_plan os p) \<and> client_exempt os p (h @ enable_plan os p)"
  by (simp add: effect_append enable_plan_def policy_step_def rule_step_def)

definition disable_plan :: "os \<Rightarrow> command list" where
  "disable_plan os = [netsh_cmd os allow_args, netsh_cmd os (delete_args rule_name),
     netsh_cmd os (delete_args rule_name_loopback)]"

lemma effect_disable:
  "\<not> policy_blocks os (h @ disable_plan os) \<and> \<not> client_exempt os p (h @ disable_plan os)"
  by (simp add: effect_append disable_plan_def policy_step_def rule_step_def)

lemma route_no_effect:
  assumes "list_all (route_cmd os) cs"
  shows "policy_blocks os (h @ cs) = policy_blocks os h" "client_exempt os p (h @ cs) = client_exempt os p h"
proof -
  have "policy_step os b c = b \<and> rule_step os p b c = b" if "route_cmd os c" for b c
    using that by (auto simp: route_cmd_def policy_step_def rule_step_def netsh_cmd_def block_args_def
        allow_args_def app_rule_args_def delete_args_def)
  then have "foldl (policy_step os) b cs = b" "foldl (rule_step os p) b cs = b" for b
    using assms by (induction cs arbitrary: b) simp_all
  then show "policy_blocks os (h @ cs) = policy_blocks os h" "client_exempt os p (h @ cs) = client_exempt os p h"
    by (simp_all add: effect_append)
qed

section \<open>One request after the other\<close>

text \<open>What the requests ask for: the last authorised \<open>killSwitch\<close> request decides.\<close>

fun wanted :: "string \<Rightarrow> bool \<Rightarrow> request list \<Rightarrow> bool" where
  "wanted tok b [] = b"
| "wanted tok b (r # rs) =
     wanted tok (if req_token r = tok \<and> req_method r = ''killSwitch'' then bool_param r ''enabled'' else b) rs"

definition all_succeed :: "os \<Rightarrow> bool" where
  "all_succeed os \<longleftrightarrow> (\<forall>h c. exec_result os h c = None)"

lemma run_plan_succeeds: "all_succeed os \<Longrightarrow> run_plan os cs h = (None, h @ cs)"
  by (simp add: run_plan_None all_succeed_def)

lemma disable_succeeds:
  "all_succeed os \<Longrightarrow> run_state (disable_kill_switch os p) h = (None, h @ disable_plan os)"
  by (simp add: disable_run all_succeed_def disable_plan_def)

definition switch_is :: "os \<Rightarrow> string \<Rightarrow> bool \<Rightarrow> log \<Rightarrow> bool" where
  "switch_is os p b h \<longleftrightarrow> policy_blocks os h = b \<and> client_exempt os p h = b"

lemma switch_route:
  assumes "confined (route_cmd os) m" "switch_is os p b h"
  shows "switch_is os p b (snd (run_state m h))"
proof -
  obtain cs where "snd (run_state m h) = h @ cs" "list_all (route_cmd os) cs"
    using assms(1) unfolding confined_def by blast
  with route_no_effect [OF this(2)] assms(2) show ?thesis by (simp add: switch_is_def)
qed

lemma switch_dispatch:
  assumes "all_succeed os" "p \<noteq> []" "switch_is os p b h"
  shows "switch_is os p (wanted tok b [req]) (snd (run_state (dispatch os tok p req) h))"
proof (cases "req_token req = tok \<and> req_method req = ''killSwitch''")
  case True
  then show ?thesis
    using assms(1,2) effect_enable effect_disable
    by (simp add: dispatch_def constant_time_compare_eq enable_run_plan run_plan_succeeds
        disable_succeeds switch_is_def)
next
  case False
  note r = switch_route [OF confined_add_route assms(3)] switch_route [OF confined_remove_route assms(3)]
  show ?thesis
  proof (cases "req_token req = tok")
    case True
    with False r assms(3) show ?thesis
      by (simp add: dispatch_def constant_time_compare_eq split: prod.splits) (metis snd_conv)
  next
    case False
    with assms(3) show ?thesis by (simp add: dispatch_unauthorised)
  qed
qed

text \<open>The requests a list of lines carries; a line that is not a request asks for nothing.\<close>

definition requests_of :: "os \<Rightarrow> string list \<Rightarrow> request list" where
  "requests_of os = List.map_filter (decode_request (uni_fold os))"

lemma wanted_append: "wanted tok b (rs @ rs') = wanted tok (wanted tok b rs) rs'"
  by (induction rs arbitrary: b) simp_all

lemma requests_Nil [simp]: "requests_of os [] = []"
  by (simp add: requests_of_def)

lemma requests_Cons: "requests_of os (l # ls) = requests_of os [l] @ requests_of os ls"
  by (simp add: requests_of_def List.map_filter_def)

lemma switch_answer:
  assumes "all_succeed os" "p \<noteq> []" "switch_is os p b h"
  shows "switch_is os p (wanted tok b (requests_of os [l])) (snd (run_state (answer os tok p l) h))"
proof (cases "decode_request (uni_fold os) l")
  case None
  with assms(3) show ?thesis by (simp add: answer_def requests_of_def List.map_filter_def)
next
  case (Some req)
  with switch_dispatch [OF assms, of tok req] show ?thesis
    by (cases "run_state (dispatch os tok p req) h")
      (simp add: answer_def requests_of_def List.map_filter_def)
qed

lemma switch_lines:
  assumes "all_succeed os" "p \<noteq> []"
  shows "switch_is os p b h \<Longrightarrow>
    switch_is os p (wanted tok b (requests_of os ls)) (snd (run_state (serve_lines (answer os tok p) ls) h))"
proof (induction ls arbitrary: b h)
  case (Cons l ls)
  obtain x h1 where a: "run_state (answer os tok p l) h = (x, h1)" by fastforce
  then have "switch_is os p (wanted tok b (requests_of os [l])) h1"
    using switch_answer [OF assms Cons.prems, of tok l] by simp
  from Cons.IH [OF this] a show ?case
    unfolding requests_Cons [of os l ls] wanted_append
    by (cases "run_state (serve_lines (answer os tok p) ls) h1") simp
qed simp

lemma requests_of_clients:
  "list_all client_ok cs \<Longrightarrow> requests_of os (map (\<lambda>c. json_encode (client_doc c) @ [newline]) cs) = map client_req cs"
proof (induction cs)
  case (Cons c cs)
  then have "requests_of os [json_encode (client_doc c) @ [newline]] = [client_req c]"
    by (cases c) (simp add: requests_of_def List.map_filter_def decode_request_doc)
  with Cons show ?case by (simp add: requests_Cons [of os _ "map f cs" for f cs])
qed simp

section \<open>Handlers at the same time\<close>

text \<open>When every command succeeds, a handler's commands are those of the sequential operation.\<close>

lemma resume_succeeds:
  assumes "all_succeed os" "run_state (m os) [] = (x, cs)"
  shows "resume m os (replicate i None) = (if i < length cs then Inl (cs ! i) else Inr x)"
proof -
  have "exec_result os = (\<lambda>h c. None)" using assms(1) by (simp add: all_succeed_def fun_eq_iff)
  moreover have "replay os (replicate i None) = os\<lparr>exec_result := \<lambda>h c. None\<rparr>"
    by (simp add: replay_def fun_eq_iff cong: if_cong)
  ultimately have "replay os (replicate i None) = os" by (metis os.surjective os.update_convs(1))
  with assms(2) show ?thesis by (simp add: resume_def)
qed

text \<open>A handler that took one line, with \<open>i\<close> of its commands done, and one that has answered it.\<close>

definition busy_session :: "handle \<Rightarrow> string \<Rightarrow> string \<Rightarrow> nat \<Rightarrow> session" where
  "busy_session h p l i = \<lparr>ss_pipe = h, ss_path = p, ss_reads = [ReadOk l], ss_reader = new_reader,
     ss_in = [l], ss_run = Some (l, replicate i None), ss_wait = None, ss_out = []\<rparr>"

definition done_session :: "handle \<Rightarrow> string \<Rightarrow> string \<Rightarrow> string \<Rightarrow> session" where
  "done_session h p l out = \<lparr>ss_pipe = h, ss_path = p, ss_reads = [ReadOk l], ss_reader = new_reader,
     ss_in = [l], ss_run = None, ss_wait = None, ss_out = [out]\<rparr>"

definition two_busy :: "server \<Rightarrow> string \<Rightarrow> string \<Rightarrow> string \<Rightarrow> nat \<Rightarrow> nat \<Rightarrow> (string \<times> string \<times> command) list \<Rightarrow> daemon" where
  "two_busy sv p l m i j tr = \<lparr>dm_server = sv, dm_sessions = [busy_session 0 p l i, busy_session 1 p m j], dm_trace = tr\<rparr>"

definition two_done :: "server \<Rightarrow> string \<Rightarrow> string \<Rightarrow> string \<Rightarrow> string \<Rightarrow> string \<Rightarrow> (string \<times> string \<times> command) list \<Rightarrow> daemon" where
  "two_done sv p l m out out' tr = \<lparr>dm_server = sv, dm_sessions = [done_session 0 p l out, done_session 1 p m out'], dm_trace = tr\<rparr>"

lemma replicate_snoc: "replicate i x @ [x] = replicate (Suc i) x"
  by (simp add: replicate_append_same)

lemma busy_command:
  assumes "all_succeed os" "run_state (answer os tok p l) [] = (out, cs)" "i < length cs"
    and "daemon_reach verify os tok \<lparr>dm_server = sv, dm_sessions = xs @ busy_session h p l i # ys, dm_trace = tr\<rparr>"
  shows "daemon_reach verify os tok
    \<lparr>dm_server = sv, dm_sessions = xs @ busy_session h p l (Suc i) # ys, dm_trace = tr @ [(p, l, cs ! i)]\<rparr>"
proof -
  have none: "exec_result os h c = None" for h c using assms(1) by (simp add: all_succeed_def)
  have "resume (\<lambda>os. answer os tok p l) os (replicate i None) = Inl (cs ! i)"
    using resume_succeeds [OF assms(1), of "\<lambda>os. answer os tok p l", OF assms(2)] assms(3) by simp
  then have "daemon_reach verify os tok \<lparr>dm_server = sv,
      dm_sessions = xs @ (busy_session h p l i)\<lparr>ss_wait := Some None\<rparr> # ys, dm_trace = tr @ [(p, l, cs ! i)]\<rparr>"
    by (intro daemon_runs.run_to [OF assms(4) start_command [where xs = xs and x = "busy_session h p l i" and ys = ys
          and l = l and rs = "replicate i None" and c = "cs ! i"]])
      (simp_all add: busy_session_def none)
  then show ?thesis
    by (rule daemon_runs.run_to [OF _ command_ends [where xs = xs and ys = ys and l = l
          and x = "(busy_session h p l i)\<lparr>ss_wait := Some None\<rparr>" and rs = "replicate i None" and r = None]])
      (simp_all add: busy_session_def replicate_snoc)
qed

lemma busy_answer:
  assumes "all_succeed os" "run_state (answer os tok p l) [] = (out, cs)"
    and "daemon_reach verify os tok \<lparr>dm_server = sv, dm_sessions = xs @ busy_session h p l (length cs) # ys, dm_trace = tr\<rparr>"
  shows "daemon_reach verify os tok \<lparr>dm_server = sv, dm_sessions = xs @ done_session h p l out # ys, dm_trace = tr\<rparr>"
proof -
  have "resume (\<lambda>os. answer os tok p l) os (replicate (length cs) None) = Inr out"
    using resume_succeeds [OF assms(1), of "\<lambda>os. answer os tok p l", OF assms(2)] by simp
  then show ?thesis
    by (intro daemon_runs.run_to [OF assms(3) write_answer [where xs = xs and ys = ys and l = l
          and x = "busy_session h p l (length cs)" and rs = "replicate (length cs) None" and out = out]])
      (simp_all add: busy_session_def done_session_def)
qed

lemma busy_steps:
  assumes ok: "all_succeed os"
    and l: "run_state (answer os tok p l) [] = (out, cs)" and m: "run_state (answer os tok p m) [] = (out', ds)"
    and r: "daemon_reach verify os tok (two_busy sv p l m i j tr)"
  shows "i < length cs \<Longrightarrow> daemon_reach verify os tok (two_busy sv p l m (Suc i) j (tr @ [(p, l, cs ! i)]))"
    and "j < length ds \<Longrightarrow> daemon_reach verify os tok (two_busy sv p l m i (Suc j) (tr @ [(p, m, ds ! j)]))"
    and "i = length cs \<Longrightarrow> j = length ds \<Longrightarrow> daemon_reach verify os tok (two_done sv p l m out out' tr)"
proof -
  show "daemon_reach verify os tok (two_busy sv p l m (Suc i) j (tr @ [(p, l, cs ! i)]))" if "i < length cs"
    using busy_command [OF ok l that, where xs = "[]" and ys = "[busy_session 1 p m j]"] r by (simp add: two_busy_def)
  show "daemon_reach verify os tok (two_busy sv p l m i (Suc j) (tr @ [(p, m, ds ! j)]))" if "j < length ds"
    using busy_command [OF ok m that, where xs = "[busy_session 0 p l i]" and ys = "[]"] r by (simp add: two_busy_def)
  assume e: "i = length cs" "j = length ds"
  have "daemon_reach verify os tok
      \<lparr>dm_server = sv, dm_sessions = [done_session 0 p l out, busy_session 1 p m j], dm_trace = tr\<rparr>"
    using busy_answer [OF ok l, where xs = "[]" and ys = "[busy_session 1 p m j]"] r e by (simp add: two_busy_def)
  then show "daemon_reach verify os tok (two_done sv p l m out out' tr)"
    using busy_answer [OF ok m, where xs = "[done_session 0 p l out]" and ys = "[]"] e by (simp add: two_done_def)
qed

lemma append_in_shuffles: "xs @ ys \<in> shuffles xs ys"
  by (induction xs) (simp_all add: Cons_in_shuffles_leftI)

lemma shuffles_map_tags:
  assumes "zs \<in> shuffles xs ys" "\<And>x. h (f x) = x" "\<And>x. h (g x) = x"
  shows "\<exists>ws \<in> shuffles (map f xs) (map g ys). map h ws = zs"
  using assms(1)
proof (induction xs ys arbitrary: zs rule: shuffles.induct)
  case (3 x xs y ys)
  then consider zs' where "zs = x # zs'" "zs' \<in> shuffles xs (y # ys)"
    | zs' where "zs = y # zs'" "zs' \<in> shuffles (x # xs) ys"
    by auto
  then show ?case
  proof cases
    case 1
    with 3(1) obtain ws where "ws \<in> shuffles (map f xs) (map g (y # ys))" "map h ws = zs'" by blast
    with 1(1) assms(2) show ?thesis by (intro bexI [of _ "f x # ws"]) auto
  next
    case 2
    with 3(2) obtain ws where "ws \<in> shuffles (map f (x # xs)) (map g ys)" "map h ws = zs'" by blast
    with 2(1) assms(3) show ?thesis by (intro bexI [of _ "g y # ws"]) auto
  qed
qed (use assms(2,3) in \<open>simp_all add: comp_def\<close>)

text \<open>Every interleaving of their commands can happen.\<close>

lemma busy_interleave:
  assumes "all_succeed os"
    and "run_state (answer os tok p l) [] = (out, cs)" "run_state (answer os tok p m) [] = (out', ds)"
    and "daemon_reach verify os tok (two_busy sv p l m i j tr)"
    and "zs \<in> shuffles (map (\<lambda>c. (p, l, c)) (drop i cs)) (map (\<lambda>c. (p, m, c)) (drop j ds))"
    and "i \<le> length cs" "j \<le> length ds"
  shows "daemon_reach verify os tok (two_done sv p l m out out' (tr @ zs))"
  using assms(4-)
proof (induction zs arbitrary: i j tr)
  case Nil
  then have "i = length cs" "j = length ds" by simp_all
  with busy_steps(3) [OF assms(1-3) Nil(1)] show ?case by simp
next
  case (Cons z zs)
  from Cons.prems(2) consider
      (first) "drop i cs \<noteq> []" "z = (p, l, hd (drop i cs))"
        "zs \<in> shuffles (map (\<lambda>c. (p, l, c)) (tl (drop i cs))) (map (\<lambda>c. (p, m, c)) (drop j ds))"
    | (second) "drop j ds \<noteq> []" "z = (p, m, hd (drop j ds))"
        "zs \<in> shuffles (map (\<lambda>c. (p, l, c)) (drop i cs)) (map (\<lambda>c. (p, m, c)) (tl (drop j ds)))"
    by (auto simp: Cons_in_shuffles_iff hd_map map_tl)
  then show ?case
  proof cases
    case first
    then have i: "i < length cs" by simp
    from first i have z: "z = (p, l, cs ! i)" "zs \<in> shuffles (map (\<lambda>c. (p, l, c)) (drop (Suc i) cs)) (map (\<lambda>c. (p, m, c)) (drop j ds))"
      by (simp_all add: hd_drop_conv_nth drop_Suc tl_drop)
    from Cons.IH [OF busy_steps(1) [OF assms(1-3) Cons.prems(1) i] z(2)] i Cons.prems z(1)
    show ?thesis by simp
  next
    case second
    then have j: "j < length ds" by simp
    from second j have z: "z = (p, m, ds ! j)" "zs \<in> shuffles (map (\<lambda>c. (p, l, c)) (drop i cs)) (map (\<lambda>c. (p, m, c)) (drop (Suc j) ds))"
      by (simp_all add: hd_drop_conv_nth drop_Suc tl_drop)
    from Cons.IH [OF busy_steps(2) [OF assms(1-3) Cons.prems(1) j] z(2)] j Cons.prems z(1)
    show ?thesis by simp
  qed
qed

section \<open>Two clients\<close>

definition switch_request :: "string \<Rightarrow> 64 word \<Rightarrow> bool \<Rightarrow> client_request" where
  "switch_request tok i b = (i, tok, ''killSwitch'', [(''enabled'', JBool b)])"

definition switch_line :: "string \<Rightarrow> 64 word \<Rightarrow> bool \<Rightarrow> string" where
  "switch_line tok i b = json_encode (client_doc (switch_request tok i b)) @ [newline]"

lemma switch_request_ok: "valid_utf8 tok \<Longrightarrow> client_ok (switch_request tok i b)"
  by (simp add: switch_request_def ascii_valid_utf8 wire_params_def max_nesting_depth_def)

lemma switch_line_text: "valid_utf8 tok \<Longrightarrow> one_line_text (switch_line tok i b)"
  unfolding one_line_text_def switch_line_def
  using wire.one_line client_wire [OF switch_request_ok] by blast

lemma switch_line_runs:
  assumes "all_succeed os" "valid_utf8 tok"
  shows "run_state (answer os tok p (switch_line tok i b)) h
    = (write_resp (ok_resp i []), h @ (if b then enable_plan os p else disable_plan os))"
proof -
  have "answer os tok p (switch_line tok i b)
      = do { r \<leftarrow> dispatch os tok p (client_req (switch_request tok i b)); return (write_resp r) }"
    unfolding switch_line_def by (rule answer_client [OF switch_request_ok [OF assms(2)]])
  then show ?thesis
    using assms(1)
    by (simp add: dispatch_def constant_time_compare_eq switch_request_def bool_param_def op_result_def
        enable_run_plan run_plan_succeeds disable_succeeds)
qed

text \<open>Both clients connected and sent their requests, nothing is run yet.\<close>

lemma two_clients:
  assumes v: "verify pid = Inr p" and l: "one_line_text l" "one_line_text m"
  obtains sv where "daemon_reach verify os tok (two_busy sv p l m 0 0 [])"
proof -
  let ?d = "new_daemon\<lparr>dm_server := new_server\<lparr>sv_accept := ACreate True\<rparr>\<rparr>"
  have "daemon_reach verify os tok (with_client 0 p ?d)"
    by (rule accept_client [where pid = pid, OF server_up]) (simp_all add: v new_server_def)
  then have "daemon_reach verify os tok (with_client 1 p (with_client 0 p ?d))"
    by (rule accept_client [where pid = pid and first = False]) (simp_all add: v with_client_def new_server_def)
  moreover define sv where "sv = dm_server (with_client 1 p (with_client 0 p ?d))"
  moreover have "with_client 1 p (with_client 0 p ?d)
      = \<lparr>dm_server = sv, dm_sessions = [new_session 0 p, new_session 1 p], dm_trace = []\<rparr>"
    by (simp add: sv_def with_client_def new_daemon_def)
  ultimately have r: "daemon_reach verify os tok
      \<lparr>dm_server = sv, dm_sessions = [new_session 0 p, new_session 1 p], dm_trace = []\<rparr>"
    by simp
  have "daemon_reach verify os tok
      \<lparr>dm_server = sv, dm_sessions = [busy_session 0 p l 0, new_session 1 p], dm_trace = []\<rparr>"
    by (rule daemon_runs.run_to [OF r receive_line [where xs = "[]" and x = "new_session 0 p"
          and ys = "[new_session 1 p]" and l = l and reads = "[ReadOk l]" and b = new_reader]])
      (simp_all add: l new_session_def busy_session_def reads_one_line)
  then have "daemon_reach verify os tok (two_busy sv p l m 0 0 [])"
    by (rule daemon_runs.run_to [OF _ receive_line [where xs = "[busy_session 0 p l 0]" and x = "new_session 1 p"
          and ys = "[]" and l = m and reads = "[ReadOk m]" and b = new_reader]])
      (simp_all add: l new_session_def busy_session_def two_busy_def reads_one_line)
  then show ?thesis by (rule that)
qed

text \<open>Both clients have their answer: the first asked to disable the switch, the second to
  enable it, and both were told that this was done.\<close>

definition both_answered :: "string \<Rightarrow> string \<Rightarrow> daemon \<Rightarrow> bool" where
  "both_answered tok p d \<longleftrightarrow> dm_sessions d =
     [done_session 0 p (switch_line tok 1 False) (write_resp (ok_resp 1 [])),
      done_session 1 p (switch_line tok 2 True) (write_resp (ok_resp 2 []))]"

lemma answered_interleaving:
  assumes "all_succeed os" "verify pid = Inr p" "valid_utf8 tok"
    and "zs \<in> shuffles (disable_plan os) (enable_plan os p)"
  shows "\<exists>d. daemon_reach verify os tok d \<and> both_answered tok p d \<and> dm_log d = zs"
proof -
  let ?l = "switch_line tok 1 False" and ?m = "switch_line tok 2 True"
  obtain sv where sv: "daemon_reach verify os tok (two_busy sv p ?l ?m 0 0 [])"
    using two_clients [of verify pid p ?l ?m os tok] switch_line_text [OF assms(3)] assms(2) by blast
  obtain ys where ys: "ys \<in> shuffles (map (\<lambda>c. (p, ?l, c)) (disable_plan os)) (map (\<lambda>c. (p, ?m, c)) (enable_plan os p))"
      "map (\<lambda>(path, l, c). c) ys = zs"
    using shuffles_map_tags [OF assms(4), of "\<lambda>(path, l, c). c" "\<lambda>c. (p, ?l, c)" "\<lambda>c. (p, ?m, c)"] by auto
  have "daemon_reach verify os tok (two_done sv p ?l ?m (write_resp (ok_resp 1 [])) (write_resp (ok_resp 2 [])) ([] @ ys))"
    by (rule busy_interleave [OF assms(1) _ _ sv, where cs = "disable_plan os" and ds = "enable_plan os p"])
      (use ys(1) switch_line_runs [OF assms(1,3)] in simp_all)
  with ys(2) show ?thesis
    by (intro exI [of _ "two_done sv p ?l ?m (write_resp (ok_resp 1 [])) (write_resp (ok_resp 2 [])) ys"])
      (simp add: two_done_def both_answered_def dm_log_def)
qed

section \<open>Properties\<close>

text \<open>One request after the other, the kill switch follows the client: whatever bytes it
  sends, when every command succeeds, the policy and the rule for the client agree after each
  session and are as the last authorised kill-switch request asked.\<close>

lemma serial_kill_switch:
  assumes "all_succeed os" "p \<noteq> []" "switch_is os p b h"
  shows "switch_is os p (wanted tok b (requests_of os (complete_lines (fst (delivered rs)))))
    (snd (run_state (handle os tok p rs) h))"
proof (cases "delivered rs")
  case (Pair s e)
  with switch_lines [OF assms, of tok "complete_lines s"] show ?thesis
    by (cases "run_state (serve_lines (answer os tok p) (complete_lines s)) h") (simp add: handle_serve serve_def)
qed

text \<open>C14. Two clients at the same time can leave the switch in a state that no order of their
  requests gives. Both are told that their request succeeded, and either traffic is allowed
  although the rules of an enabled switch are there, or all traffic is blocked, that of the
  client included.\<close>

theorem kill_switch_race:
  assumes "all_succeed os" "verify pid = Inr p" "p \<noteq> []" "valid_utf8 tok"
  shows "(\<exists>d. daemon_reach verify os tok d \<and> both_answered tok p d
      \<and> \<not> policy_blocks os (dm_log d) \<and> client_exempt os p (dm_log d))
    \<and> (\<exists>d. daemon_reach verify os tok d \<and> both_answered tok p d
      \<and> policy_blocks os (dm_log d) \<and> \<not> client_exempt os p (dm_log d))"
proof -
  let ?n = "netsh_cmd os"
  let ?open = "[?n block_args, ?n allow_args, ?n (delete_args rule_name), ?n (delete_args rule_name_loopback),
    ?n (app_rule_args p), ?n loopback_rule_args]"
  let ?lock = "[?n allow_args, ?n block_args, ?n (app_rule_args p), ?n loopback_rule_args,
    ?n (delete_args rule_name), ?n (delete_args rule_name_loopback)]"
  have "?open \<in> shuffles (disable_plan os) (enable_plan os p)" "?lock \<in> shuffles (disable_plan os) (enable_plan os p)"
    using assms(3) by (simp_all add: disable_plan_def enable_plan_def Cons_in_shuffles_iff)
  note runs = this [THEN answered_interleaving [of os verify pid p tok, OF assms(1,2,4)]]
  have "\<not> policy_blocks os ?open \<and> client_exempt os p ?open \<and> policy_blocks os ?lock \<and> \<not> client_exempt os p ?lock"
    by (simp add: policy_blocks_def client_exempt_def policy_step_def rule_step_def)
  with runs show ?thesis by metis
qed

theorem kill_switch_race_witness:
  "\<exists>d. daemon_reach (\<lambda>_. Inr ''app'') plain_os ''t'' d \<and> both_answered ''t'' ''app'' d
     \<and> \<not> policy_blocks plain_os (dm_log d) \<and> client_exempt plain_os ''app'' (dm_log d)"
proof -
  have "all_succeed plain_os" by (simp add: all_succeed_def plain_os_def)
  from kill_switch_race [OF this, of "\<lambda>_. Inr ''app''" 0 "''app''" "''t''"] show ?thesis
    by (simp add: ascii_valid_utf8)
qed

end
