(* ===== verification/Serial_Daemon.thy ===== *)
theory Serial_Daemon
  imports Switch_State "HOL-Library.Sublist"
begin

text \<open>
  When the interleaved daemon is the sequential one (windows_daemon/ipc.go): as long as no line
  arrives while another is being answered, whichever handlers they belong to, the commands and
  the answers are those of the sequential operations applied to the lines in the order of their
  arrival, and these meet a contract that is stated here apart from the code. The steps of the
  server, of handlers that start and end, and of the tools are in any order.
\<close>

section \<open>One line at a time\<close>

lemma busy_split:
  "dm_sessions d = xs @ x # ys \<Longrightarrow> busy d = filter (\<lambda>x. ss_run x \<noteq> None) xs
     @ (if ss_run x = None then [] else [x]) @ filter (\<lambda>x. ss_run x \<noteq> None) ys"
  by (simp add: busy_def)

text \<open>A run with the lines that arrived, each with the path of its handler, and the answers that
  were written, over all handlers.\<close>

inductive serial_run ::
  "(32 word \<Rightarrow> string result) \<Rightarrow> os \<Rightarrow> string \<Rightarrow> (string \<times> string) list \<Rightarrow> string list \<Rightarrow> daemon \<Rightarrow> bool"
  for verify :: "32 word \<Rightarrow> string result" and os :: os and tok :: string where
  serial_new: "serial_run verify os tok [] [] new_daemon"
| serial_line: "serial_run verify os tok ls outs d \<Longrightarrow> busy d = [] \<Longrightarrow> dm_sessions d = xs @ x # ys \<Longrightarrow>
    read_bytes (ss_reader x) reads = (Line l, b, []) \<Longrightarrow>
    serial_run verify os tok (ls @ [(ss_path x, l)]) outs (d\<lparr>dm_sessions := xs @ line_taken reads b l x # ys\<rparr>)"
| serial_answer: "serial_run verify os tok ls outs d \<Longrightarrow> dm_sessions d = xs @ x # ys \<Longrightarrow> ss_run x = Some (l, rs) \<Longrightarrow> ss_wait x = None \<Longrightarrow>
    resume (\<lambda>os. answer os tok (ss_path x) l) os rs = Inr out \<Longrightarrow>
    serial_run verify os tok ls (outs @ [out])
      (d\<lparr>dm_sessions := xs @ x\<lparr>ss_run := None, ss_out := ss_out x @ [out]\<rparr> # ys\<rparr>)"
| serial_other: "serial_run verify os tok ls outs d \<Longrightarrow> daemon_step verify os tok d d' \<Longrightarrow> length (busy d') = length (busy d) \<Longrightarrow>
    serial_run verify os tok ls outs d'"

lemma serial_reach: "serial_run verify os tok ls outs d \<Longrightarrow> daemon_reach verify os tok d"
proof (induction rule: serial_run.induct)
  case (serial_line ls outs d xs x ys reads l b)
  then have "ss_run x = None" using busy_split [OF serial_line(3)] by (auto split: if_splits)
  from daemon_next [OF serial_line(5) receive_line [OF serial_line(3) this serial_line(4)]] show ?case
    by (simp add: line_taken_def)
next
  case (serial_answer ls outs d xs x ys l rs out)
  from daemon_next [OF serial_answer(6) write_answer [OF serial_answer(2-5)]] show ?case .
qed (blast intro: daemon_new daemon_next)+

text \<open>Every run in which at most one handler is busy is of this kind.\<close>

lemma serial_step:
  assumes "serial_run verify os tok ls outs d" "daemon_step verify os tok d d'" "length (busy d') \<le> 1"
  shows "\<exists>ls' outs'. serial_run verify os tok ls' outs' d'"
  using assms(2)
proof (cases rule: daemon_step.cases)
  case (receive_line xs x ys reads l b)
  then have "busy d = []" using assms(3) by (simp add: busy_def)
  from serial_run.serial_line [OF assms(1) this receive_line(2,4)] receive_line(1) show ?thesis
    unfolding line_taken_def by blast
next
  case (write_answer xs x ys l rs out)
  from serial_run.serial_answer [OF assms(1) write_answer(2-5)] write_answer(1) show ?thesis by blast
qed (use serial_run.serial_other [OF assms(1,2)] in \<open>force simp: busy_def new_session_def\<close>)+

section \<open>The sequential daemon\<close>

primrec serve_all :: "os \<Rightarrow> string \<Rightarrow> (string \<times> string) list \<Rightarrow> string list exec" where
  "serve_all os tok [] = return []"
| "serve_all os tok (l # ls) =
     do { out \<leftarrow> answer os tok (fst l) (snd l); outs \<leftarrow> serve_all os tok ls; return (out # outs) }"

lemma serve_all_snoc:
  "run_state (serve_all os tok (ls @ [l])) h =
     (case run_state (serve_all os tok ls) h of (outs, h1) \<Rightarrow>
        case run_state (answer os tok (fst l) (snd l)) h1 of (out, h2) \<Rightarrow> (outs @ [out], h2))"
  by (induction ls arbitrary: h) (simp_all add: run_state_bind split: prod.splits)

text \<open>What is left of the line being answered leads to where the sequential operation leads.\<close>

definition continues :: "os \<Rightarrow> string \<Rightarrow> string \<Rightarrow> string \<Rightarrow> string option list \<Rightarrow> log \<Rightarrow> string \<times> log \<Rightarrow> bool" where
  "continues os tok path l rs h z \<longleftrightarrow>
     (\<exists>t. (\<forall>rs. resume (\<lambda>os. answer os tok path l) os rs = next_of (after t rs))
        \<and> run_prog (exec_result os) (after t rs) h = z)"

lemma continues_start: "continues os tok path l [] h (run_state (answer os tok path l) h)"
  using waits_tree [OF waits_answer, of tok path l os] unfolding continues_def
  by (metis after.simps(1))

lemma continues_command:
  assumes "continues os tok path l rs h z" "resume (\<lambda>os. answer os tok path l) os rs = Inl c"
  shows "continues os tok path l (rs @ [exec_result os h c]) (h @ [c]) z"
proof -
  obtain t where t: "\<forall>rs. resume (\<lambda>os. answer os tok path l) os rs = next_of (after t rs)"
      "run_prog (exec_result os) (after t rs) h = z"
    using assms(1) unfolding continues_def by blast
  with assms(2) obtain k where "after t rs = Cmd c k" by (cases "after t rs") auto
  with t have "run_prog (exec_result os) (after t (rs @ [exec_result os h c])) (h @ [c]) = z"
    by (simp add: after_append)
  with t(1) show ?thesis unfolding continues_def by blast
qed

lemma continues_answer:
  assumes "continues os tok path l rs h z" "resume (\<lambda>os. answer os tok path l) os rs = Inr out"
  shows "z = (out, h)"
proof -
  obtain t where t: "\<forall>rs. resume (\<lambda>os. answer os tok path l) os rs = next_of (after t rs)"
      "run_prog (exec_result os) (after t rs) h = z"
    using assms(1) unfolding continues_def by blast
  with assms(2) show ?thesis by (cases "after t rs") auto
qed

text \<open>The outcomes of a handler, with that of the command it waits for.\<close>

definition had :: "string option list \<Rightarrow> session \<Rightarrow> string option list" where
  "had rs x = rs @ (case ss_wait x of None \<Rightarrow> [] | Some r \<Rightarrow> [r])"

text \<open>Nobody is busy and all lines are answered, or one handler answers the last of them.\<close>

definition serial_inv :: "os \<Rightarrow> string \<Rightarrow> (string \<times> string) list \<Rightarrow> string list \<Rightarrow> daemon \<Rightarrow> bool" where
  "serial_inv os tok ls outs d \<longleftrightarrow>
     (busy d = [] \<and> run_state (serve_all os tok ls) [] = (outs, dm_log d)) \<or>
     (\<exists>ls' x l rs h. busy d = [x] \<and> ss_run x = Some (l, rs)
        \<and> ls = ls' @ [(ss_path x, l)] \<and> run_state (serve_all os tok ls') [] = (outs, h)
        \<and> continues os tok (ss_path x) l (had rs x) (dm_log d) (run_state (answer os tok (ss_path x) l) h))"

lemma only_busy:
  assumes "busy d = [y]" "dm_sessions d = xs @ x # ys" "ss_run x \<noteq> None"
  shows "x = y \<and> busy (d\<lparr>dm_sessions := xs @ z # ys, dm_trace := tr\<rparr>) = (if ss_run z = None then [] else [z])"
  using assms(1) busy_split [OF assms(2)] assms(3) by (auto simp: busy_def Cons_eq_append_conv split: if_splits)

lemma serial_inv_busy:
  assumes "serial_inv os tok ls outs d" "dm_sessions d = xs @ x # ys" "ss_run x = Some (l, rs)"
  obtains ls' h where "busy d = [x]" "ls = ls' @ [(ss_path x, l)]"
    "run_state (serve_all os tok ls') [] = (outs, h)"
    "continues os tok (ss_path x) l (had rs x) (dm_log d) (run_state (answer os tok (ss_path x) l) h)"
proof -
  have "busy d \<noteq> []" using busy_split [OF assms(2)] assms(3) by simp
  with assms(1) obtain ls' y m rs' h where y: "busy d = [y]" "ss_run y = Some (m, rs')" "ls = ls' @ [(ss_path y, m)]"
      "run_state (serve_all os tok ls') [] = (outs, h)"
      "continues os tok (ss_path y) m (had rs' y) (dm_log d) (run_state (answer os tok (ss_path y) m) h)"
    unfolding serial_inv_def by blast
  from only_busy [OF y(1) assms(2)] assms(3) y(2) have "y = x" "m = l" "rs' = rs" by auto
  with y that show ?thesis by blast
qed

text \<open>A step of the busy handler that leaves it busy with the same line.\<close>

lemma serial_inv_same:
  assumes "busy d = [x]" "dm_sessions d = xs @ x # ys" "ss_run x \<noteq> None"
    and "ls = ls' @ [(ss_path x, l)]" "run_state (serve_all os tok ls') [] = (outs, h)"
    and "ss_run z = Some (l, rs)" "ss_path z = ss_path x"
    and "continues os tok (ss_path x) l (had rs z) (map (\<lambda>(path, l, c). c) tr) (run_state (answer os tok (ss_path x) l) h)"
  shows "serial_inv os tok ls outs (d\<lparr>dm_sessions := xs @ z # ys, dm_trace := tr\<rparr>)"
proof -
  have "busy (d\<lparr>dm_sessions := xs @ z # ys, dm_trace := tr\<rparr>) = [z]" using only_busy [OF assms(1-3)] assms(6) by simp
  with assms(4-8) show ?thesis unfolding serial_inv_def
    by (intro disjI2 exI [of _ ls'] exI [of _ z] exI [of _ l]) (simp add: dm_log_def)
qed

lemma serial_inv_command:
  assumes "serial_inv os tok ls outs d" "dm_sessions d = xs @ x # ys" "ss_run x = Some (l, rs)" "ss_wait x = None"
    and "resume (\<lambda>os. answer os tok (ss_path x) l) os rs = Inl c"
  shows "serial_inv os tok ls outs
    (d\<lparr>dm_sessions := xs @ x\<lparr>ss_wait := Some (exec_result os (dm_log d) c)\<rparr> # ys,
       dm_trace := dm_trace d @ [(ss_path x, l, c)]\<rparr>)"
proof -
  obtain ls' h where y: "busy d = [x]" "ls = ls' @ [(ss_path x, l)]" "run_state (serve_all os tok ls') [] = (outs, h)"
      "continues os tok (ss_path x) l (had rs x) (dm_log d) (run_state (answer os tok (ss_path x) l) h)"
    by (rule serial_inv_busy [OF assms(1-3)])
  have "had rs x = rs" using assms(4) by (simp add: had_def)
  with y(4) have "continues os tok (ss_path x) l rs (dm_log d) (run_state (answer os tok (ss_path x) l) h)" by simp
  from continues_command [OF this assms(5)] assms(3) show ?thesis
    by (intro serial_inv_same [OF y(1) assms(2) _ y(2,3)]) (auto simp: had_def dm_log_def)
qed

lemma serial_inv_ends:
  assumes "serial_inv os tok ls outs d" "dm_sessions d = xs @ x # ys" "ss_run x = Some (l, rs)" "ss_wait x = Some r"
  shows "serial_inv os tok ls outs (d\<lparr>dm_sessions := xs @ x\<lparr>ss_run := Some (l, rs @ [r]), ss_wait := None\<rparr> # ys\<rparr>)"
proof -
  let ?x = "x\<lparr>ss_run := Some (l, rs @ [r]), ss_wait := None\<rparr>"
  obtain ls' h where y: "busy d = [x]" "ls = ls' @ [(ss_path x, l)]" "run_state (serve_all os tok ls') [] = (outs, h)"
      "continues os tok (ss_path x) l (had rs x) (dm_log d) (run_state (answer os tok (ss_path x) l) h)"
    by (rule serial_inv_busy [OF assms(1-3)])
  have "had (rs @ [r]) ?x = had rs x" using assms(4) by (simp add: had_def)
  with y(4) assms(3) have "serial_inv os tok ls outs (d\<lparr>dm_sessions := xs @ ?x # ys, dm_trace := dm_trace d\<rparr>)"
    by (intro serial_inv_same [OF y(1) assms(2) _ y(2,3)]) (auto simp: dm_log_def)
  then show ?thesis by simp
qed

lemma serial_inv_answer:
  assumes "serial_inv os tok ls outs d" "dm_sessions d = xs @ x # ys" "ss_run x = Some (l, rs)" "ss_wait x = None"
    and "resume (\<lambda>os. answer os tok (ss_path x) l) os rs = Inr out"
  shows "serial_inv os tok ls (outs @ [out])
    (d\<lparr>dm_sessions := xs @ x\<lparr>ss_run := None, ss_out := ss_out x @ [out]\<rparr> # ys\<rparr>)"
proof -
  obtain ls' h where y: "busy d = [x]" "ls = ls' @ [(ss_path x, l)]" "run_state (serve_all os tok ls') [] = (outs, h)"
      "continues os tok (ss_path x) l (had rs x) (dm_log d) (run_state (answer os tok (ss_path x) l) h)"
    by (rule serial_inv_busy [OF assms(1-3)])
  have "had rs x = rs" using assms(4) by (simp add: had_def)
  with y(4) have z: "run_state (answer os tok (ss_path x) l) h = (out, dm_log d)"
    using continues_answer [OF _ assms(5)] by auto
  let ?x = "x\<lparr>ss_run := None, ss_out := ss_out x @ [out]\<rparr>"
  let ?d = "d\<lparr>dm_sessions := xs @ ?x # ys\<rparr>"
  have "busy ?d = []" using only_busy [OF y(1) assms(2), where z = ?x and tr = "dm_trace d"] assms(3) by (simp add: busy_def)
  moreover have "dm_log ?d = dm_log d" by (simp add: dm_log_def)
  ultimately show ?thesis using y(2,3) z unfolding serial_inv_def by (simp add: serve_all_snoc)
qed

text \<open>A handler that is not busy does not wait for a command.\<close>

lemma idle_ready: "daemon_reach verify os tok d \<Longrightarrow> dm_sessions d = xs @ x # ys \<Longrightarrow> busy d = [] \<Longrightarrow>
  ss_run x = None \<and> ss_wait x = None"
  using daemon_sessions [of verify os tok d] busy_split [of d xs x ys] by (auto simp: session_inv_def split: if_splits)

lemma serial_inv_other:
  assumes "serial_inv os tok ls outs d" "daemon_step verify os tok d d'" "length (busy d') = length (busy d)"
  shows "serial_inv os tok ls outs d'"
  using assms(2)
proof (cases rule: daemon_step.cases)
  case (start_command xs x ys l rs c)
  from serial_inv_command [OF assms(1) start_command(2-5)] start_command(1) show ?thesis by simp
next
  case (command_ends xs x ys l rs r)
  from serial_inv_ends [OF assms(1) command_ends(2-4)] command_ends(1) show ?thesis by simp
qed (use assms(1,3) in \<open>auto simp: serial_inv_def busy_def dm_log_def new_session_def split: if_splits\<close>)

lemma serial_run_inv: "serial_run verify os tok ls outs d \<Longrightarrow> serial_inv os tok ls outs d"
proof (induction rule: serial_run.induct)
  case serial_new
  show ?case by (simp add: serial_inv_def busy_def new_daemon_def dm_log_def)
next
  case (serial_line ls outs d xs x ys reads l b)
  let ?x = "line_taken reads b l x"
  let ?d = "d\<lparr>dm_sessions := xs @ ?x # ys\<rparr>"
  have "run_state (serve_all os tok ls) [] = (outs, dm_log d)" using serial_line(2,5) by (auto simp: serial_inv_def)
  moreover have "busy ?d = [?x]" using serial_line(2) busy_split [OF serial_line(3)] by (auto simp: busy_def)
  moreover have "dm_log ?d = dm_log d" by (simp add: dm_log_def)
  moreover have "had [] ?x = []"
    using idle_ready [OF serial_reach [OF serial_line(1)] serial_line(3,2)] by (simp add: had_def)
  ultimately show ?case using continues_start [of os tok "ss_path x" l "dm_log d"] unfolding serial_inv_def
    by (intro disjI2 exI [of _ ls] exI [of _ ?x] exI [of _ l]) simp
next
  case (serial_answer ls outs d xs x ys l rs out)
  show ?case by (rule serial_inv_answer [OF serial_answer(6,2-5)])
next
  case (serial_other ls outs d d')
  show ?case by (rule serial_inv_other [OF serial_other(4,2,3)])
qed

lemma serial_served:
  "serial_run verify os tok ls outs d \<Longrightarrow> busy d = [] \<Longrightarrow> run_state (serve_all os tok ls) [] = (outs, dm_log d)"
  using serial_run_inv by (fastforce simp: serial_inv_def)

section \<open>What the lines ask for\<close>

text \<open>The contract of the daemon, apart from its code. A request asks for a refusal, a pong or a
  list of commands, each marked when its failure ends the list and is the answer.\<close>

datatype demand = Refuse string | Pong | Commands "(command \<times> bool) list"

definition enable_demand :: "os \<Rightarrow> string \<Rightarrow> (command \<times> bool) list" where
  "enable_demand os path = [(netsh_cmd os block_args, True)]
     @ (if path = [] then [] else [(netsh_cmd os (app_rule_args path), True)])
     @ [(netsh_cmd os loopback_rule_args, True)]"

definition disable_demand :: "os \<Rightarrow> (command \<times> bool) list" where
  "disable_demand os = [(netsh_cmd os allow_args, True), (netsh_cmd os (delete_args rule_name), False),
     (netsh_cmd os (delete_args rule_name_loopback), False)]"

text \<open>Parameters of the wrong type count as absent.\<close>

definition text_of :: "json option \<Rightarrow> string" where
  "text_of v = (case v of Some (JStr s) \<Rightarrow> s | _ \<Rightarrow> [])"

definition route_demand :: "os \<Rightarrow> request \<Rightarrow> (string \<times> string \<Rightarrow> string list result) \<Rightarrow> demand" where
  "route_demand os req args =
     (case and_then (parse_ipv4_cidr os (text_of (req_params req ''cidr''))) args of
        Inl e \<Rightarrow> Refuse e | Inr as \<Rightarrow> Commands [(tool (system32 os ''route.exe'') as, True)])"

definition gateway_args :: "os \<Rightarrow> request \<Rightarrow> string \<times> string \<Rightarrow> string list result" where
  "gateway_args os req = (\<lambda>(net, msk). let gw = text_of (req_params req ''gateway'') in
     case Option.bind (parse_ip gw) to4 of
       None \<Rightarrow> Inl (''invalid gateway '' @ go_quote (uni_print os) gw)
     | Some g \<Rightarrow> Inr [''ADD'', net, ''MASK'', msk, show_ipv4 g])"

definition demand_of :: "os \<Rightarrow> string \<Rightarrow> string \<Rightarrow> request \<Rightarrow> demand" where
  "demand_of os tok path req =
     (if req_token req \<noteq> tok then Refuse ''unauthorized''
      else if req_method req = ''ping'' then Pong
      else if req_method req = ''killSwitch'' then
        Commands (if req_params req ''enabled'' = Some (JBool True) then enable_demand os path else disable_demand os)
      else if req_method req = ''addRoute'' then route_demand os req (gateway_args os req)
      else if req_method req = ''removeRoute'' then route_demand os req (\<lambda>(net, msk). Inr [''DELETE'', net])
      else Refuse (''unknown method: '' @ req_method req))"

text \<open>Running a list of commands on a log: the error that ended it, if one did.\<close>

fun run_commands :: "os \<Rightarrow> (command \<times> bool) list \<Rightarrow> log \<Rightarrow> string option \<times> log" where
  "run_commands os [] h = (None, h)"
| "run_commands os ((c, needed) # cs) h =
     (case (exec_result os h c, needed) of
        (Some e, True) \<Rightarrow> (Some e, h @ [c])
      | _ \<Rightarrow> run_commands os cs (h @ [c]))"

fun meet :: "os \<Rightarrow> 64 word \<Rightarrow> demand \<Rightarrow> log \<Rightarrow> response \<times> log" where
  "meet os i (Refuse e) h = (\<lparr>resp_id = i, resp_ok = False, resp_result = [], resp_error = e\<rparr>, h)"
| "meet os i Pong h = (\<lparr>resp_id = i, resp_ok = True, resp_result = [(''pong'', JBool True)], resp_error = []\<rparr>, h)"
| "meet os i (Commands cs) h =
     (case run_commands os cs h of
        (None, h') \<Rightarrow> (\<lparr>resp_id = i, resp_ok = True, resp_result = [], resp_error = []\<rparr>, h')
      | (Some e, h') \<Rightarrow> (\<lparr>resp_id = i, resp_ok = False, resp_result = [], resp_error = e\<rparr>, h'))"

text \<open>The answers to the lines in order, each line with the path of its client.\<close>

fun meet_lines :: "os \<Rightarrow> string \<Rightarrow> (string \<times> string) list \<Rightarrow> log \<Rightarrow> string list \<times> log" where
  "meet_lines os tok [] h = ([], h)"
| "meet_lines os tok ((path, l) # ls) h =
     (case (case decode_request (uni_fold os) l of
              None \<Rightarrow> meet os 0 (Refuse ''invalid json'') h
            | Some req \<Rightarrow> meet os (req_id req) (demand_of os tok path req) h) of
        (r, h') \<Rightarrow> (case meet_lines os tok ls h' of (outs, h'') \<Rightarrow> (write_resp r # outs, h'')))"

text \<open>The code of the operations meets it.\<close>

lemma run_commands_needed: "run_commands os (map (\<lambda>c. (c, True)) cs) h = run_plan os cs h"
  by (induction cs arbitrary: h) (simp_all split: option.splits)

lemma enable_meets: "run_state (enable_kill_switch os p) h = run_commands os (enable_demand os p) h"
proof -
  have "enable_demand os p = map (\<lambda>c. (c, True)) (enable_plan os p)"
    by (simp add: enable_demand_def enable_plan_def)
  then show ?thesis by (simp add: enable_run_plan run_commands_needed)
qed

lemma disable_meets: "run_state (disable_kill_switch os p) h = run_commands os (disable_demand os) h"
  by (simp add: disable_run Let_def disable_demand_def split: option.splits)

lemma params_meet:
  "bool_param req k \<longleftrightarrow> req_params req k = Some (JBool True)" "string_param req k = text_of (req_params req k)"
  by (auto simp: bool_param_def string_param_def text_of_def split: option.splits json.splits)

definition route_outcome :: "os \<Rightarrow> demand \<Rightarrow> log \<Rightarrow> string option \<times> log" where
  "route_outcome os q h = (case q of Refuse e \<Rightarrow> (Some e, h) | Pong \<Rightarrow> (None, h) | Commands cs \<Rightarrow> run_commands os cs h)"

lemma meet_outcome: "q \<noteq> Pong \<Longrightarrow> meet os i q h = (case route_outcome os q h of (e, h') \<Rightarrow> (op_result i e, h'))"
  by (cases q) (simp_all add: route_outcome_def op_result_def error_resp_def ok_resp_def split: prod.splits option.splits)

lemma route_demand_not_pong: "route_demand os req args \<noteq> Pong"
  by (simp add: route_demand_def split: sum.splits)

lemma add_route_meets:
  "run_state (add_route os (text_of (req_params req ''cidr'')) (text_of (req_params req ''gateway''))) h
     = route_outcome os (route_demand os req (gateway_args os req)) h"
  by (simp add: add_route_def route_demand_def gateway_args_def route_outcome_def Let_def
      split: sum.splits option.splits prod.splits)

lemma remove_route_meets:
  "run_state (remove_route os (text_of (req_params req ''cidr''))) h
     = route_outcome os (route_demand os req (\<lambda>(net, msk). Inr [''DELETE'', net])) h"
  by (simp add: remove_route_def route_demand_def route_outcome_def split: sum.splits option.splits prod.splits)

lemma meet_simps:
  "meet os i (Refuse e) h = (error_resp i e, h)" "meet os i Pong h = (ok_resp i [(''pong'', JBool True)], h)"
  "meet os i (Commands cs) h = (case run_commands os cs h of (e, h') \<Rightarrow> (op_result i e, h'))"
  "meet os i (route_demand os req args) h = (case route_outcome os (route_demand os req args) h of (e, h') \<Rightarrow> (op_result i e, h'))"
  by (simp_all add: meet_outcome [OF route_demand_not_pong] error_resp_def ok_resp_def op_result_def
      split: prod.splits option.splits)

lemma dispatch_meets: "run_state (dispatch os tok p req) h = meet os (req_id req) (demand_of os tok p req) h"
  by (simp add: dispatch_def demand_of_def constant_time_compare_eq enable_meets disable_meets params_meet
      add_route_meets remove_route_meets meet_simps del: meet.simps split: prod.splits)

lemma serve_all_meets: "run_state (serve_all os tok ls) h = meet_lines os tok ls h"
proof (induction ls arbitrary: h)
  case (Cons l ls)
  obtain path line where l: "l = (path, line)" by (cases l)
  show ?case
    by (simp add: l Cons answer_def dispatch_meets run_state_bind error_resp_def split: option.splits prod.splits)
qed simp

section \<open>Whose lines they are\<close>

context peer_check
begin

lemma line_paths: "serial_run verify os tok ls outs d \<Longrightarrow> \<forall>(path, l) \<in> set ls. acceptable path"
proof (induction rule: serial_run.induct)
  case (serial_line ls outs d xs x ys reads l b)
  note reach = serial_reach [OF serial_line(1)]
  have "list_all (\<lambda>(h, path). acceptable path) (sv_handlers (dm_server d))"
    using handlers_acceptable daemon_server [OF reach] by blast
  with daemon_server [OF reach] serial_line(3,5) show ?case by (auto simp: handler_of_def)
qed simp_all

end

section \<open>The kill switch\<close>

lemma requests_append: "requests_of os (ls @ ls') = requests_of os ls @ requests_of os ls'"
  by (simp add: requests_of_def List.map_filter_def)

lemma serve_all_switch:
  assumes "all_succeed os" "p \<noteq> []"
  shows "switch_is os p b h \<Longrightarrow> fst ` set ls \<subseteq> {p} \<Longrightarrow>
    switch_is os p (wanted tok b (requests_of os (map snd ls))) (snd (run_state (serve_all os tok ls) h))"
proof (induction ls rule: rev_induct)
  case (snoc l ls)
  obtain outs h1 where r: "run_state (serve_all os tok ls) h = (outs, h1)" by fastforce
  from snoc have "switch_is os p (wanted tok b (requests_of os (map snd ls))) h1" by (simp add: r)
  from switch_answer [OF assms this, of tok "snd l"] snoc(3) show ?case
    unfolding serve_all_snoc
    by (cases "run_state (answer os tok p (snd l)) h1") (simp add: r requests_append wanted_append)
qed simp

section \<open>Each client's part\<close>

text \<open>The lines and the answers of a handler are among those of the run, in order.\<close>

definition part_of :: "(string \<times> string) list \<Rightarrow> string list \<Rightarrow> session \<Rightarrow> bool" where
  "part_of ls outs x \<longleftrightarrow> subseq (map (Pair (ss_path x)) (ss_in x)) ls \<and> subseq (ss_out x) outs"

lemma part_of_mono: "part_of ls outs x \<Longrightarrow> part_of (ls @ ls') (outs @ outs') x"
  by (auto simp: part_of_def intro: subseq_order.trans [OF _ subseq_rev_drop_many] list_emb_prefix)

lemma serial_parts: "serial_run verify os tok ls outs d \<Longrightarrow> list_all (part_of ls outs) (dm_sessions d)"
proof (induction rule: serial_run.induct)
  case (serial_line ls outs d xs x ys reads l b)
  then have "part_of (ls @ [(ss_path x, l)]) outs (line_taken reads b l x)"
    by (auto simp: part_of_def intro: list_emb_append_mono)
  with serial_line(3,5) part_of_mono [of ls outs _ "[(ss_path x, l)]" "[]"] show ?case
    by (auto simp: list_all_iff)
next
  case (serial_answer ls outs d xs x ys l rs out)
  then have "part_of ls (outs @ [out]) (x\<lparr>ss_run := None, ss_out := ss_out x @ [out]\<rparr>)"
    by (auto simp: part_of_def intro: list_emb_append_mono)
  with serial_answer(2,6) part_of_mono [of ls outs _ "[]" "[out]"] show ?case
    by (auto simp: list_all_iff)
next
  case (serial_other ls outs d d')
  from serial_other(2) show ?case
    by cases (use serial_other(3,4) in \<open>auto simp: busy_def part_of_def new_session_def list_all_iff split: if_splits\<close>)
qed (simp add: new_daemon_def)

section \<open>Such runs exist\<close>

lemma serial_others:
  "(quiet_step verify os tok)\<^sup>*\<^sup>* d d' \<Longrightarrow> serial_run verify os tok ls outs d \<Longrightarrow> serial_run verify os tok ls outs d'"
  by (induction rule: rtranclp_induct) (simp, metis serial_other)

text \<open>A line that arrives when nobody is busy can be answered.\<close>

lemma serial_extend:
  assumes "serial_run verify os tok ls outs d" "busy d = []" "dm_sessions d = xs @ x # ys" "one_line_text l"
    and "ss_reader x = new_reader"
    and "run_state (answer os tok (ss_path x) l) (dm_log d) = (out, dm_log d @ cs)"
  shows "serial_run verify os tok (ls @ [(ss_path x, l)]) (outs @ [out])
    (d\<lparr>dm_sessions := xs @ x\<lparr>ss_reads := ss_reads x @ [ReadOk l], ss_in := ss_in x @ [l], ss_out := ss_out x @ [out]\<rparr> # ys,
       dm_trace := dm_trace d @ map (\<lambda>c. (ss_path x, l, c)) cs\<rparr>)"
proof -
  let ?x = "line_taken [ReadOk l] new_reader l x"
  let ?tr = "dm_trace d @ map (\<lambda>c. (ss_path x, l, c)) cs"
  have n: "ss_run x = None" "ss_wait x = None"
    using idle_ready [OF serial_reach [OF assms(1)] assms(3,2)] by simp_all
  obtain rs' where rs': "(quiet_step verify os tok)\<^sup>*\<^sup>* (d\<lparr>dm_sessions := xs @ ?x # ys\<rparr>)
        (d\<lparr>dm_sessions := xs @ ?x\<lparr>ss_run := Some (l, rs')\<rparr> # ys, dm_trace := ?tr\<rparr>)"
      "resume (\<lambda>os. answer os tok (ss_path x) l) os rs' = Inr out"
    by (rule line_commands [OF n(2) assms(6)])
  have "serial_run verify os tok (ls @ [(ss_path x, l)]) outs (d\<lparr>dm_sessions := xs @ ?x # ys\<rparr>)"
    by (rule serial_line [OF assms(1-3)]) (simp add: assms(4,5) reads_one_line)
  from serial_others [OF rs'(1) this]
  have r: "serial_run verify os tok (ls @ [(ss_path x, l)]) outs
      (d\<lparr>dm_sessions := xs @ ?x\<lparr>ss_run := Some (l, rs')\<rparr> # ys, dm_trace := ?tr\<rparr>)" .
  show ?thesis
    using serial_answer [OF r, where xs = xs and x = "?x\<lparr>ss_run := Some (l, rs')\<rparr>" and ys = ys and l = l and rs = rs' and out = out]
      rs'(2) n assms(5) by (cases x; cases d) (simp add: line_taken_def)
qed

text \<open>Two clients that connected one after the other.\<close>

definition two_sessions :: "string \<Rightarrow> daemon" where
  "two_sessions p = with_client 1 p (with_client 0 p (new_daemon\<lparr>dm_server := new_server\<lparr>sv_accept := ACreate True\<rparr>\<rparr>))"

lemma serial_two_sessions:
  assumes "verify pid = Inr p"
  shows "serial_run verify os tok [] [] (two_sessions p)"
proof -
  let ?d = "new_daemon\<lparr>dm_server := new_server\<lparr>sv_accept := ACreate True\<rparr>\<rparr>"
  have "(quiet_step verify os tok)\<^sup>*\<^sup>* new_daemon ?d"
    by (rule quiet_to [OF rtranclp.rtrancl_refl server_moves [OF by_accept [OF sa_parsed]]])
      (simp_all add: new_daemon_def new_server_def busy_def)
  moreover have "(quiet_step verify os tok)\<^sup>*\<^sup>* ?d (with_client 0 p ?d)"
    by (rule accept_quietly [where pid = pid]) (simp_all add: assms new_server_def)
  moreover have "(quiet_step verify os tok)\<^sup>*\<^sup>* (with_client 0 p ?d) (two_sessions p)"
    unfolding two_sessions_def
    by (rule accept_quietly [where pid = pid and first = False]) (simp_all add: assms with_client_def new_server_def)
  ultimately show ?thesis using serial_others [OF _ serial_new] by (meson rtranclp_trans)
qed

lemma two_sessions_state:
  "dm_sessions (two_sessions p) = [new_session 0 p, new_session 1 p]" "busy (two_sessions p) = []"
  "dm_log (two_sessions p) = []"
  by (simp_all add: two_sessions_def with_client_def new_daemon_def busy_def new_session_def dm_log_def)

text \<open>The first enables the switch, then the second disables it.\<close>

lemma serial_on_off:
  assumes "verify pid = Inr p" "all_succeed os" "valid_utf8 tok"
  obtains d where "serial_run verify os tok [(p, switch_line tok 1 True), (p, switch_line tok 2 False)]
      [write_resp (ok_resp 1 []), write_resp (ok_resp 2 [])] d"
    "busy d = []" "dm_log d = enable_plan os p @ disable_plan os"
proof -
  let ?l = "switch_line tok 1 True" and ?m = "switch_line tok 2 False" and ?d = "two_sessions p"
  let ?x = "(new_session 0 p)\<lparr>ss_reads := [ReadOk ?l], ss_in := [?l], ss_out := [write_resp (ok_resp 1 [])]\<rparr>"
  let ?y = "(new_session 1 p)\<lparr>ss_reads := [ReadOk ?m], ss_in := [?m], ss_out := [write_resp (ok_resp 2 [])]\<rparr>"
  let ?tr = "map (\<lambda>c. (p, ?l, c)) (enable_plan os p)"
  have two: "serial_run verify os tok [] [] ?d"
    by (rule serial_two_sessions [where pid = pid]) (rule assms(1))
  note lines = switch_line_text [OF assms(3)] and runs = switch_line_runs [OF assms(2,3)]
  have "serial_run verify os tok [(p, ?l)] [write_resp (ok_resp 1 [])]
      (?d\<lparr>dm_sessions := [?x, new_session 1 p], dm_trace := ?tr\<rparr>)"
    using serial_extend [OF two two_sessions_state(2), where xs = "[]" and x = "new_session 0 p"
        and ys = "[new_session 1 p]" and l = ?l and out = "write_resp (ok_resp 1 [])" and cs = "enable_plan os p"]
    using lines runs two_sessions_state [of p] by (simp add: new_session_def dm_log_def)
  from serial_extend [OF this, where xs = "[?x]" and x = "new_session 1 p" and ys = "[]" and l = ?m
        and out = "write_resp (ok_resp 2 [])" and cs = "disable_plan os"]
  have "serial_run verify os tok [(p, ?l), (p, ?m)] [write_resp (ok_resp 1 []), write_resp (ok_resp 2 [])]
      (?d\<lparr>dm_sessions := [?x, ?y], dm_trace := ?tr @ map (\<lambda>c. (p, ?m, c)) (disable_plan os)\<rparr>)"
    using lines runs by (simp add: new_session_def dm_log_def busy_def)
  then show ?thesis by (rule that) (simp_all add: busy_def new_session_def dm_log_def comp_def)
qed

section \<open>Properties\<close>

text \<open>C12. As long as no line arrives while another is being answered, the daemon meets its
  contract for all its clients together: the answers written and the commands run, in every such
  run of the server, the accept goroutine and the handlers, are those the contract gives for the
  lines in the order of their arrival, the token check and the failures of the commands included.
  Every line came from a client whose image the peer check accepts, and what a handler took are
  the first lines of the bytes its connection delivered.\<close>

theorem one_line_at_a_time:
  assumes "serial_run (\<lambda>pid. fst (verify_client a pid)) os tok ls outs d" "busy d = []"
  shows "meet_lines os tok ls [] = (outs, dm_log d)
    \<and> (\<forall>(path, l) \<in> set ls. client_path_ok a path)
    \<and> (\<forall>x \<in> set (dm_sessions d).
         subseq (map (Pair (ss_path x)) (ss_in x)) ls \<and> subseq (ss_out x) outs
         \<and> length (ss_out x) = length (ss_in x)
         \<and> (\<exists>t. complete_lines (fst (delivered (ss_reads x))) = ss_in x @ t))"
proof -
  note reach = serial_reach [OF assms(1)]
  have "length (ss_out x) = length (ss_in x)" if "x \<in> set (dm_sessions d)" for x
  proof -
    have "ss_run x = None" using that assms(2) by (cases "ss_run x") (auto simp: busy_def filter_empty_conv)
    with daemon_sessions [OF reach] that show ?thesis by (auto simp: session_inv_def list_all_iff)
  qed
  moreover have "\<exists>t. complete_lines (fst (delivered (ss_reads x))) = ss_in x @ t" if "x \<in> set (dm_sessions d)" for x
    using reads_inv_lines [of x "[]"] reads_of [OF reach] that by (simp add: list_all_iff)
  ultimately show ?thesis
    using serial_served [OF assms] serial_parts [OF assms(1)] gui.line_paths [OF assms(1)]
    by (simp add: serve_all_meets part_of_def list_all_iff)
qed

text \<open>A daemon where the installed client enabled the switch on one connection and disabled it on
  another.\<close>

theorem one_line_at_a_time_witness:
  "\<exists>(a :: process_api) p d. serial_run (\<lambda>pid. fst (verify_client a pid)) plain_os ''t''
      [(p, switch_line ''t'' 1 True), (p, switch_line ''t'' 2 False)] [write_resp (ok_resp 1 []), write_resp (ok_resp 2 [])] d
    \<and> snd (meet_lines plain_os ''t'' [(p, switch_line ''t'' 1 True), (p, switch_line ''t'' 2 False)] [])
        = enable_plan plain_os p @ disable_plan plain_os
    \<and> client_path_ok a p"
proof -
  let ?p = "expected_client_path calm_api"
  let ?ls = "[(?p, switch_line ''t'' 1 True), (?p, switch_line ''t'' 2 False)]"
  have v: "(\<lambda>pid. fst (verify_client (peer_at ?p) pid)) 0 = Inr ?p" by (rule peer_at_accepted)
  have "all_succeed plain_os" by (simp add: all_succeed_def plain_os_def)
  from serial_on_off [where verify = "\<lambda>pid. fst (verify_client (peer_at ?p) pid)" and pid = 0 and p = ?p
      and os = plain_os and tok = "''t''", OF v this ascii_valid_utf8]
  obtain d where d: "serial_run (\<lambda>pid. fst (verify_client (peer_at ?p) pid)) plain_os ''t'' ?ls
      [write_resp (ok_resp 1 []), write_resp (ok_resp 2 [])] d" "busy d = []"
    "dm_log d = enable_plan plain_os ?p @ disable_plan plain_os"
    by auto
  from one_line_at_a_time [OF d(1,2)] d(1,3) show ?thesis
    by (intro exI [of _ "peer_at ?p"] exI [of _ ?p] exI [of _ d]) auto
qed

text \<open>C13. In such a run the kill switch follows the clients: when every command succeeds and the
  clients run the same image, then whenever no handler is busy the policy and the rule for the
  client agree and are as the last authorised kill-switch request asked, whichever handler it
  came to, and whether or not other clients connected, failed the check or left in between.\<close>

theorem one_at_a_time_switch:
  assumes "serial_run verify os tok ls outs d" "busy d = []" "all_succeed os" "p \<noteq> []" "fst ` set ls \<subseteq> {p}"
  shows "policy_blocks os (dm_log d) = wanted tok False (requests_of os (map snd ls))
    \<and> client_exempt os p (dm_log d) = wanted tok False (requests_of os (map snd ls))"
proof -
  have "run_state (serve_all os tok ls) [] = (outs, dm_log d)" by (rule serial_served [OF assms(1,2)])
  moreover have "switch_is os p False []" by (simp add: switch_is_def policy_blocks_def client_exempt_def)
  ultimately show ?thesis using serve_all_switch [OF assms(3,4) _ assms(5), of False "[]" tok]
    by (simp add: switch_is_def)
qed

theorem one_at_a_time_switch_witness:
  "\<exists>ls outs d. serial_run (\<lambda>_. Inr ''app'') plain_os ''t'' ls outs d \<and> length ls = 2
     \<and> \<not> policy_blocks plain_os (dm_log d) \<and> \<not> client_exempt plain_os ''app'' (dm_log d)"
proof -
  let ?cs = "[switch_request ''t'' 1 True, switch_request ''t'' 2 False]"
  let ?ls = "[(''app'', switch_line ''t'' 1 True), (''app'', switch_line ''t'' 2 False)]"
  have ok: "all_succeed plain_os" by (simp add: all_succeed_def plain_os_def)
  then obtain d where d: "serial_run (\<lambda>_. Inr ''app'') plain_os ''t'' ?ls
      [write_resp (ok_resp 1 []), write_resp (ok_resp 2 [])] d" "busy d = []"
    by (rule serial_on_off [of "\<lambda>_. Inr ''app''" 0 "''app''" plain_os "''t''", rotated]) (simp_all add: ascii_valid_utf8)
  have "list_all client_ok ?cs" by (simp add: switch_request_ok ascii_valid_utf8)
  from requests_of_clients [OF this, of plain_os]
  have "wanted ''t'' False (requests_of plain_os (map snd ?ls)) = False"
    by (simp add: switch_line_def) (simp add: switch_request_def bool_param_def)
  with one_at_a_time_switch [OF d ok, of "''app''"] d(1) show ?thesis by (intro exI [of _ ?ls]) auto
qed

end
