(* ===== verification/Peer_Processes.thy ===== *)
theory Peer_Processes
  imports Pipe_Server
begin

text \<open>
  Whom the peer check names (\<open>waitForClient\<close> of windows_daemon/pipe.go and \<open>verifyClient\<close> of
  security.go) among processes that come and go. The system reports the number of the process
  that connected; the daemon looks that number up later, when it can belong to another process.
\<close>

section \<open>Processes\<close>

text \<open>The live processes with the paths of their images. Opening a number gives a handle of the
  process that has it now, and the name of its image; both can fail as \<open>a\<close> says.\<close>

type_synonym processes = "32 word \<rightharpoonup> string"

definition process_now :: "process_api \<Rightarrow> processes \<Rightarrow> process_api" where
  "process_now a ps = a\<lparr>
     open_process := (\<lambda>pid. if ps pid = None then Inl ''The parameter is incorrect.''
       else case open_process a pid of Inl e \<Rightarrow> Inl e | Inr _ \<Rightarrow> Inr (unat pid)),
     image_name := (\<lambda>h n. case ps (word_of_nat h) of
        None \<Rightarrow> Inl ''The handle is invalid.''
      | Some img \<Rightarrow> (case image_name a h n of Inl e \<Rightarrow> Inl e | Inr _ \<Rightarrow> Inr img))\<rparr>"

definition verify_now :: "process_api \<Rightarrow> processes \<Rightarrow> 32 word \<Rightarrow> string result" where
  "verify_now a ps pid = fst (verify_client (process_now a ps) pid)"

lemma process_now_paths: "client_path_ok (process_now a ps) = client_path_ok a"
proof -
  have "expected_client_path (process_now a ps) = expected_client_path a"
    by (simp add: process_now_def expected_client_path_def program_files_dir_def)
  then show ?thesis by (simp add: client_path_ok_def fun_eq_iff) (simp add: process_now_def)
qed

lemma verify_now_Inr: "verify_now a ps pid = Inr path \<Longrightarrow> ps pid = Some path \<and> client_path_ok a path"
proof -
  assume v: "verify_now a ps pid = Inr path"
  then have "client_path_ok a path"
    using gui.verify_acceptable [of "process_now a ps" pid path] by (simp add: verify_now_def process_now_paths)
  moreover obtain h where "open_process (process_now a ps) pid = Inr h" "image_name (process_now a ps) h max_path = Inr path"
    using v by (auto simp: verify_now_def verify_client_Inr)
  ultimately show ?thesis by (auto simp: process_now_def split: option.splits if_splits sum.splits)
qed

section \<open>The daemon among processes\<close>

text \<open>The server, the processes, and for every handle who connected on it.\<close>

record world =
  wd_server :: server
  wd_procs :: processes
  wd_client :: "handle \<rightharpoonup> 32 word \<times> string"

definition new_world :: world where
  "new_world = \<lparr>wd_server = new_server, wd_procs = Map.empty, wd_client = Map.empty\<rparr>"

text \<open>The number the daemon is going to look up.\<close>

fun looked_up :: "accept_pc \<Rightarrow> 32 word option" where
  "looked_up (AAwake h (Inr pid)) = Some pid"
| "looked_up (AVerify h pid) = Some pid"
| "looked_up _ = None"

definition connects :: "server \<Rightarrow> server \<Rightarrow> bool" where
  "connects s s' \<longleftrightarrow> looked_up (sv_accept s) = None \<and> looked_up (sv_accept s') \<noteq> None"

text \<open>A client connects as a live process; the server moves otherwise, against the processes there
  are now; a process starts with a free number, or ends. With \<open>stays\<close> a process whose number is
  going to be looked up does not end.\<close>

inductive world_step :: "process_api \<Rightarrow> bool \<Rightarrow> world \<Rightarrow> world \<Rightarrow> bool" for a :: process_api and stays :: bool where
  client_connects: "sv_accept (wd_server w) = AWait h \<Longrightarrow> sv_open (wd_server w) h = Some Accept \<Longrightarrow>
    wd_procs w pid = Some img \<Longrightarrow>
    wait_for_client c r = Inr pid \<Longrightarrow>
    world_step a stays w (w\<lparr>wd_server := (wd_server w)\<lparr>sv_accept := AAwake h (wait_for_client c r)\<rparr>,
      wd_client := (wd_client w)(h \<mapsto> (pid, img))\<rparr>)"
| world_server: "server_step (verify_now a (wd_procs w)) (wd_server w) s \<Longrightarrow> \<not> connects (wd_server w) s \<Longrightarrow>
    world_step a stays w (w\<lparr>wd_server := s\<rparr>)"
| process_starts: "wd_procs w pid = None \<Longrightarrow>
    world_step a stays w (w\<lparr>wd_procs := (wd_procs w)(pid \<mapsto> img)\<rparr>)"
| process_ends: "stays \<longrightarrow> looked_up (sv_accept (wd_server w)) \<noteq> Some pid \<Longrightarrow>
    world_step a stays w (w\<lparr>wd_procs := (wd_procs w)(pid := None)\<rparr>)"

inductive world_reach :: "process_api \<Rightarrow> bool \<Rightarrow> world \<Rightarrow> bool" for a :: process_api and stays :: bool where
  world_new: "world_reach a stays new_world"
| world_next: "world_reach a stays w \<Longrightarrow> world_step a stays w w' \<Longrightarrow> world_reach a stays w'"

interpretation world_runs: runs new_world "world_step a stays" "world_reach a stays"
  by unfold_locales (rule world_new, erule (1) world_next, erule world_reach.induct, blast+)

inductive_cases world_stepE: "world_step a stays w w'"

section \<open>Invariants\<close>

text \<open>The invariants of the server do not depend on what the peer check answers.\<close>

definition world_sound :: "process_api \<Rightarrow> world \<Rightarrow> bool" where
  "world_sound a w \<longleftrightarrow> cur_inv (wd_server w) \<and> own_inv (wd_server w)
     \<and> list_all (\<lambda>(h, path). client_path_ok a path) (sv_handlers (wd_server w))"

lemma handlers_grow:
  "server_step verify s s' \<Longrightarrow>
   set (sv_handlers s') \<subseteq> set (sv_handlers s) \<union> {(h, path). \<exists>pid. sv_accept s = AVerify h pid \<and> verify pid = Inr path}"
  by (auto elim!: server_stepE accept_stepE client_stepE stop_stepE other_stepE)

lemma world_sound_step: "world_step a stays w w' \<Longrightarrow> world_sound a w \<Longrightarrow> world_sound a w'"
proof (erule world_step.cases, goal_cases)
  case (1 v h pid img c r)
  then have "server_step (\<lambda>_. Inr []) (wd_server w) (wd_server w')"
    using by_client [OF connected [of "wd_server w" h c r]] by simp
  with 1 cur_inv_step own_inv_step show ?case by (auto simp: world_sound_def)
next
  case (2 v s)
  then have "client_path_ok a path" if "(h, path) \<in> set (sv_handlers s)" for h path
    using handlers_grow [OF 2(4)] that verify_now_Inr by (auto simp: world_sound_def list_all_iff)
  with 2 cur_inv_step own_inv_step show ?case by (auto simp: world_sound_def list_all_iff)
qed (simp_all add: world_sound_def)

lemma reach_world_sound: "world_reach a stays w \<Longrightarrow> world_sound a w"
  by (rule world_runs.run_invariant [OF _ world_sound_step])
    (simp_all add: world_sound_def new_world_def new_server_def cur_inv_def own_inv_def owned_def)

text \<open>Until the server stops, every handler was given the image of the process that connected on its
  handle, and the number to look up still belongs to the process that is waiting.\<close>

fun about :: "accept_pc \<Rightarrow> (handle \<times> 32 word) option" where
  "about (AAwake h (Inr pid)) = Some (h, pid)"
| "about (AVerify h pid) = Some (h, pid)"
| "about _ = None"

definition named :: "world \<Rightarrow> bool" where
  "named w \<longleftrightarrow> sv_stopped (wd_server w) \<or>
     (\<forall>(h, path) \<in> set (sv_handlers (wd_server w)). \<exists>pid. wd_client w h = Some (pid, path))
     \<and> (\<forall>h pid. about (sv_accept (wd_server w)) = Some (h, pid) \<longrightarrow>
          (\<exists>img. wd_client w h = Some (pid, img) \<and> wd_procs w pid = Some img))"

lemma looked_up_about: "looked_up pc = map_option snd (about pc)"
  by (cases pc rule: about.cases) simp_all

lemma about_accept:
  "accept_step verify s s' \<Longrightarrow> about (sv_accept s') = Some x \<Longrightarrow> about (sv_accept s) \<in> {None, Some x}
     \<and> (about (sv_accept s) = None \<longrightarrow> (\<exists>h r. sv_accept s = AWait h))"
  by (erule accept_stepE) (simp_all add: wait_for_client_def)

lemma about_client:
  "client_step s s' \<Longrightarrow> about (sv_accept s) = None"
  by (auto elim!: client_stepE)

lemma accept_only: "stop_step s s' \<or> other_step s s' \<Longrightarrow> sv_accept s' = sv_accept s"
  by (auto elim!: stop_stepE other_stepE)

lemma about_step:
  assumes "server_step verify s s'" "\<not> connects s s'" "about (sv_accept s') = Some x"
  shows "about (sv_accept s) = Some x"
  using assms(1)
proof (cases rule: server_step.cases)
  case by_accept
  with about_accept [OF by_accept assms(3)] assms(2,3) show ?thesis
    by (auto simp: connects_def looked_up_about)
next
  case by_client
  with about_client [OF by_client] assms(2,3) show ?thesis by (auto simp: connects_def looked_up_about)
qed (use accept_only [of s s'] assms(3) in simp_all)

lemma stopped_stays: "server_step verify s s' \<Longrightarrow> sv_stopped s \<Longrightarrow> sv_stopped s'"
  by (auto elim!: server_stepE accept_stepE client_stepE stop_stepE other_stepE)

lemma named_step:
  assumes "world_step a True w w'" "world_sound a w" "named w"
  shows "named w'"
  using assms(1)
proof (cases rule: world_step.cases)
  case (client_connects h pid img c r)
  show ?thesis
  proof (cases "sv_stopped (wd_server w)")
    case False
    with assms(2) client_connects have "h \<notin> fst ` set (sv_handlers (wd_server w))"
      by (auto simp: world_sound_def own_inv_def owned_def)
    then have "wd_client w' g = wd_client w g" if "(g, path) \<in> set (sv_handlers (wd_server w))" for g path
      using that client_connects(1) by (auto simp: image_iff)
    with assms(3) False client_connects show ?thesis by (auto simp: named_def)
  qed (use client_connects in \<open>simp add: named_def\<close>)
next
  case (world_server s)
  show ?thesis
  proof (cases "sv_stopped s")
    case False
    then have old: "\<not> sv_stopped (wd_server w)" using stopped_stays [OF world_server(2)] by blast
    have "\<exists>pid. wd_client w h = Some (pid, path)" if "(h, path) \<in> set (sv_handlers s)" for h path
    proof (cases "(h, path) \<in> set (sv_handlers (wd_server w))")
      case False
      with handlers_grow [OF world_server(2)] that obtain pid where pid: "sv_accept (wd_server w) = AVerify h pid"
          "verify_now a (wd_procs w) pid = Inr path" by auto
      with assms(3) old verify_now_Inr [OF pid(2)] show ?thesis by (auto simp: named_def)
    qed (use assms(3) old in \<open>auto simp: named_def\<close>)
    moreover have "\<exists>img. wd_client w h = Some (pid, img) \<and> wd_procs w pid = Some img"
      if "about (sv_accept s) = Some (h, pid)" for h pid
      using about_step [OF world_server(2,3) that] assms(3) old by (auto simp: named_def)
    ultimately show ?thesis using world_server by (auto simp: named_def)
  qed (use world_server in \<open>simp add: named_def\<close>)
next
  case (process_starts pid img)
  with assms(3) show ?thesis by (fastforce simp: named_def)
next
  case (process_ends pid)
  have "looked_up pc = Some pid'" if "about pc = Some (h, pid')" for pc h pid'
    using that by (cases pc rule: about.cases) simp_all
  with process_ends assms(3) show ?thesis by (fastforce simp: named_def)
qed

lemma reach_named: "world_reach a True w \<Longrightarrow> named w"
proof (induction rule: world_runs.run_induct)
  case start
  then show ?case by (simp add: named_def new_world_def new_server_def)
next
  case (move w w')
  show ?case by (rule named_step [OF move(2) reach_world_sound [OF move(1)] move.IH])
qed

text \<open>A run in which the number is handed on between the connection and the look-up.\<close>

definition served_world :: "32 word \<Rightarrow> string \<Rightarrow> string \<Rightarrow> world" where
  "served_world pid img path = \<lparr>wd_server = serving_one path, wd_procs = [pid \<mapsto> path], wd_client = [0 \<mapsto> (pid, img)]\<rparr>"

definition awake_world :: "32 word \<Rightarrow> string \<Rightarrow> string \<Rightarrow> world" where
  "awake_world pid img path = \<lparr>wd_server = \<lparr>sv_cur = Some 0, sv_stopped = False, sv_accept = AAwake 0 (Inr pid),
     sv_stop = SIdle, sv_handlers = [], sv_open = [0 \<mapsto> Accept],
     sv_calls = [CreateNamedPipe (create_pipe_args True) 0]\<rparr>, wd_procs = [pid \<mapsto> path], wd_client = [0 \<mapsto> (pid, img)]\<rparr>"

lemma connected_world:
  "world_reach a stays (awake_world pid img img)"
proof -
  let ?w = "\<lambda>s. \<lparr>wd_server = s, wd_procs = [pid \<mapsto> img], wd_client = Map.empty\<rparr>"
  let ?st = "\<lambda>cur acc. \<lparr>sv_cur = cur, sv_stopped = False, sv_accept = acc, sv_stop = SIdle,
     sv_handlers = [], sv_open = [0 \<mapsto> Accept], sv_calls = [CreateNamedPipe (create_pipe_args True) 0]\<rparr>"
  have "world_reach a stays (?w new_server)"
    by (rule world_runs.run_to [OF world_new process_starts [where pid = pid and img = img]])
      (simp_all add: new_world_def)
  then have "world_reach a stays (?w (new_server\<lparr>sv_accept := ACreate True\<rparr>))"
    by (rule world_runs.run_to [OF _ world_server [OF by_accept [OF sa_parsed]]])
      (simp_all add: new_server_def connects_def)
  then have "world_reach a stays (?w (?st None (AGot 0)))"
    by (rule world_runs.run_to [OF _ world_server [OF by_accept [OF create_ok [where h = 0]]]])
      (simp_all add: new_server_def connects_def)
  then have "world_reach a stays (?w (?st (Some 0) (AWait 0)))"
    by (rule world_runs.run_to [OF _ world_server [OF by_accept [OF publish]]]) (simp_all add: connects_def)
  then show ?thesis
    by (rule world_runs.run_to [OF _ client_connects
          [where h = 0 and pid = pid and img = img and c = Connected and r = "\<lparr>pr_ret = 1, pr_pid = pid, pr_err = []\<rparr>"]])
      (simp_all add: wait_for_client_def named_pipe_client_pid_def awake_world_def)
qed

text \<open>From a client that has connected, the accept goroutine looks its number up and serves it.\<close>

lemma served_from_awake:
  assumes "world_reach a stays (awake_world pid img path)"
    and "verify_now a [pid \<mapsto> path] pid = Inr path"
  shows "world_reach a stays (served_world pid img path)"
proof -
  have "world_reach a stays \<lparr>wd_server = \<lparr>sv_cur = None, sv_stopped = False, sv_accept = AVerify 0 pid,
     sv_stop = SIdle, sv_handlers = [], sv_open = [0 \<mapsto> Accept],
     sv_calls = [CreateNamedPipe (create_pipe_args True) 0]\<rparr>, wd_procs = [pid \<mapsto> path], wd_client = [0 \<mapsto> (pid, img)]\<rparr>"
    by (rule world_runs.run_to [OF assms(1) world_server [OF by_accept [OF awake_client]]])
      (simp_all add: connects_def awake_world_def)
  then show ?thesis
    by (rule world_runs.run_to [OF _ world_server [OF by_accept [OF spawn [where h = 0 and pid = pid and path = path]]]])
      (simp_all add: connects_def assms(2) served_world_def serving_one_def)
qed

lemma verify_now_peer_at: "fst (verify_client (peer_at path) pid) = Inr path \<Longrightarrow>
    verify_now (peer_at path) [pid \<mapsto> path] pid = Inr path"
  by (simp add: verify_now_def verify_client_Inr) (auto simp: peer_at_def process_now_def expected_client_path_def program_files_dir_def)

section \<open>Properties\<close>

text \<open>C8. As long as a process that has connected stays alive until its number was looked up, the
  path a handler works with is the image of the very process that connected on its handle, and
  one the peer check accepts, whatever other processes come and go.\<close>

theorem peer_identity:
  assumes "world_reach a True w" "\<not> sv_stopped (wd_server w)" "(h, path) \<in> set (sv_handlers (wd_server w))"
  shows "(\<exists>pid. wd_client w h = Some (pid, path)) \<and> client_path_ok a path"
  using reach_named [OF assms(1)] reach_world_sound [OF assms(1)] assms(2,3)
  by (auto simp: named_def world_sound_def list_all_iff)

theorem peer_identity_witness:
  "\<exists>a w pid path. world_reach a True w \<and> sv_handlers (wd_server w) = [(0, path)] \<and> wd_client w 0 = Some (pid, path)
     \<and> client_path_ok a path"
proof -
  let ?p = "expected_client_path calm_api" and ?w = "\<lambda>p. served_world 7 p p"
  have reach: "world_reach (peer_at ?p) True (?w ?p)"
    by (rule served_from_awake [OF connected_world verify_now_peer_at [OF peer_at_accepted]])
  have "client_path_ok (peer_at ?p) ?p"
    using peer_identity [OF reach, of 0 ?p] by (simp add: served_world_def serving_one_def)
  with reach show ?thesis
    by (intro exI [of _ "peer_at ?p"] exI [of _ "?w ?p"] exI [of _ 7] exI [of _ ?p])
      (simp add: served_world_def serving_one_def)
qed

text \<open>C32. Without that the number can be handed on: a process the peer check would refuse connects and
  ends, the installed client starts under its number, and the daemon serves the connection of
  the first as that of the second.\<close>

theorem peer_pid_reused:
  assumes "verify_now a [pid \<mapsto> path] pid = Inr path" "\<not> client_path_ok a img"
  shows "\<exists>w. world_reach a False w \<and> \<not> sv_stopped (wd_server w) \<and> sv_handlers (wd_server w) = [(0, path)]
    \<and> wd_client w 0 = Some (pid, img) \<and> client_path_ok a path \<and> verify_now a [pid \<mapsto> img] pid \<noteq> Inr path"
proof -
  have "world_reach a False (served_world pid img path)"
  proof (rule served_from_awake [OF _ assms(1)])
    note gone = world_runs.run_to [OF connected_world [of a False pid img] process_ends [where pid = pid] refl]
    show "world_reach a False (awake_world pid img path)"
      by (rule world_runs.run_to [OF gone process_starts [where pid = pid and img = path]]) (simp_all add: awake_world_def)
  qed
  moreover have "verify_now a [pid \<mapsto> img] pid \<noteq> Inr path"
    using verify_now_Inr [of a "[pid \<mapsto> img]" pid path] verify_now_Inr [OF assms(1)] assms(2) by auto
  ultimately show ?thesis using verify_now_Inr [OF assms(1)]
    by (intro exI [of _ "served_world pid img path"]) (simp add: served_world_def serving_one_def)
qed

theorem peer_pid_reused_witness:
  "\<exists>a w path. world_reach a False w \<and> sv_handlers (wd_server w) = [(0, path)]
     \<and> wd_client w 0 = Some (7, ''C:other.exe'') \<and> \<not> client_path_ok a ''C:other.exe''"
proof -
  let ?p = "expected_client_path calm_api"
  let ?q = "drive_path (CHR ''C'') [''Program Files'', ''FastFlow'', ''fastflow_vpn.exe'']"
  have other: "\<not> client_path_ok (peer_at ?p) ''C:other.exe''"
  proof -
    have "expected_client_path (peer_at ?p) = ?q" by (rule expected_path_default) (simp add: peer_at_def)
    moreover have "is_ascii ''C:other.exe''" "is_ascii ?q" "length ?q \<noteq> length ''C:other.exe''"
      by (simp_all add: drive_path_def)
    ultimately show ?thesis
      by (auto simp: client_path_ok_def equal_fold_ascii simp del: list.map dest: map_eq_imp_length_eq)
  qed
  from peer_pid_reused [OF verify_now_peer_at [OF peer_at_accepted] other] obtain w where
    "world_reach (peer_at ?p) False w" "sv_handlers (wd_server w) = [(0, ?p)]"
    "wd_client w 0 = Some (7, ''C:other.exe'')"
    by auto
  with other show ?thesis by blast
qed

end
