(* ===== verification/Authenticode.thy ===== *)
theory Authenticode
  imports Data_Dir
begin

text \<open>
  The signature checks of windows_daemon/authenticode.go as traces of calls: the chain check of
  \<open>verifyAuthenticode\<close> and the publisher check of \<open>verifySignerCN\<close>. What wintrust.dll and
  crypt32.dll answer is an environment; every handle is a number it gives.
\<close>

unbundle bit_operations_syntax

section \<open>Chain check\<close>

record guid =
  g_data1 :: "32 word"
  g_data2 :: "16 word"
  g_data3 :: "16 word"
  g_data4 :: "8 word list"

record wintrust_file_info =
  fi_size :: "32 word"
  fi_path :: string
  fi_handle :: "64 word"
  fi_known_subject :: "guid option"

record wintrust_data =
  wd_size :: "32 word"
  wd_policy_callback :: "64 word"
  wd_sip_client :: "64 word"
  wd_ui :: "32 word"
  wd_revocation :: "32 word"
  wd_union :: "32 word"
  wd_file :: wintrust_file_info
  wd_state_action :: "32 word"
  wd_state :: "64 word"
  wd_url :: "string option"
  wd_prov_flags :: "32 word"
  wd_ui_context :: "32 word"
  wd_signature_settings :: "64 word"

definition wtd_ui_none :: "32 word" where "wtd_ui_none = 2"
definition wtd_revoke_none :: "32 word" where "wtd_revoke_none = 0"
definition wtd_choice_file :: "32 word" where "wtd_choice_file = 1"
definition wtd_state_action_verify :: "32 word" where "wtd_state_action_verify = 1"
definition wtd_state_action_close :: "32 word" where "wtd_state_action_close = 2"
definition wtd_safe_advanced_flags :: "32 word" where "wtd_safe_advanced_flags = 0x100"

definition wintrust_action_verify :: guid where
  "wintrust_action_verify = \<lparr>g_data1 = 0x00aac56b, g_data2 = 0xcd44, g_data3 = 0x11d0,
     g_data4 = [0x8c, 0xc2, 0x00, 0xc0, 0x4f, 0xc2, 0x95, 0xee]\<rparr>"

definition cert_query_object_file :: "64 word" where "cert_query_object_file = 0x00000001"
definition cert_query_content_flag_pkcs7_signed :: "64 word" where "cert_query_content_flag_pkcs7_signed = 0x00000400"
definition cert_query_format_flag_binary :: "64 word" where "cert_query_format_flag_binary = 0x00000002"
definition cmsg_signer_cert_info_param :: "64 word" where "cmsg_signer_cert_info_param = 34"
definition cert_find_subject_cert :: "64 word" where "cert_find_subject_cert = 0x000B0000"
definition x509_asn_encoding :: "64 word" where "x509_asn_encoding = 0x00000001"
definition pkcs7_asn_encoding :: "64 word" where "pkcs7_asn_encoding = 0x00010000"
definition cert_name_simple_display_type :: "64 word" where "cert_name_simple_display_type = 4"

datatype trust_call =
    WinVerifyTrust guid wintrust_data
  | CryptQueryObject "64 word" string "64 word" "64 word"
  | CryptMsgGetParam nat "64 word" "32 word option"
  | CertFindCertificateInStore nat "64 word" "64 word" string
  | CertGetNameString nat "64 word" "nat option"
  | CertFreeCertificateContext nat
  | CertCloseStore nat
  | CryptMsgClose nat

text \<open>The handles and return values of the libraries. \<open>WinVerifyTrust\<close> stores a handle of its state
  in the structure it is given; a \<open>CryptQueryObject\<close> that succeeds gives a store and a message; 0 is
  the certificate that was not found. Every failing call sets an error.\<close>

record trust_api = env +
  win_verify_trust :: "wintrust_data \<Rightarrow> 64 word \<times> 64 word"
  last_error :: "trust_call \<Rightarrow> string"
  query_object :: "string \<Rightarrow> (nat \<times> nat) option"
  signer_info_size :: "nat \<Rightarrow> (32 word) option"
  signer_info :: "nat \<Rightarrow> 32 word \<Rightarrow> string option"
  find_certificate :: "nat \<Rightarrow> string \<Rightarrow> nat"
  name_size :: "nat \<Rightarrow> nat"
  name_string :: "nat \<Rightarrow> nat \<Rightarrow> string"

text \<open>A call with \<open>None\<close> asks for the size of the answer. The structures of the 64-bit daemon are
  32 and 88 bytes long.\<close>

definition verify_request :: "string \<Rightarrow> wintrust_data" where
  "verify_request path =
     \<lparr>wd_size = 88, wd_policy_callback = 0, wd_sip_client = 0,
      wd_ui = wtd_ui_none, wd_revocation = wtd_revoke_none, wd_union = wtd_choice_file,
      wd_file = \<lparr>fi_size = 32, fi_path = path, fi_handle = 0, fi_known_subject = None\<rparr>,
      wd_state_action = wtd_state_action_verify, wd_state = 0, wd_url = None,
      wd_prov_flags = wtd_safe_advanced_flags, wd_ui_context = 0, wd_signature_settings = 0\<rparr>"

definition verify_authenticode :: "'a trust_api_scheme \<Rightarrow> string \<Rightarrow> string option \<times> trust_call list" where
  "verify_authenticode a path =
     (case utf16_ptr path of
        Some e \<Rightarrow> (Some e, [])
      | None \<Rightarrow>
          (let wd = verify_request path;
               (r, st) = win_verify_trust a wd;
               calls = [WinVerifyTrust wintrust_action_verify wd,
                      WinVerifyTrust wintrust_action_verify
                        (wd\<lparr>wd_state := st, wd_state_action := wtd_state_action_close\<rparr>)]
           in if r \<noteq> 0
              then (Some (''WinVerifyTrust failed (0x'' @ hex_digits 8 (unat r mod 2 ^ 32) @ '') for ''
                          @ go_quote (uni_print a) path), calls)
              else (None, calls)))"

section \<open>Publisher check\<close>

text \<open>The name of the signer, once its certificate was found.\<close>

definition check_subject :: "'a trust_api_scheme \<Rightarrow> string \<Rightarrow> string \<Rightarrow> nat \<Rightarrow> string option \<times> trust_call list" where
  "check_subject a path want cert =
     (let n = name_size a cert;
          get_size = CertGetNameString cert cert_name_simple_display_type None in
      if n \<le> 1 then (Some (''empty signer subject for '' @ go_quote (uni_print a) path), [get_size])
      else
        (let subject = name_string a cert n;
             calls = [get_size, CertGetNameString cert cert_name_simple_display_type (Some n)]
         in if \<not> equal_fold (uni_fold a) (trim_space subject) (trim_space want)
            then (Some (''client signed by '' @ go_quote (uni_print a) subject @ '', expected ''
                        @ go_quote (uni_print a) want), calls)
            else (None, calls)))"

text \<open>The signer of an opened message, up to the deferred closing of store and message.\<close>

definition check_signer :: "'a trust_api_scheme \<Rightarrow> string \<Rightarrow> string \<Rightarrow> nat \<Rightarrow> nat \<Rightarrow> string option \<times> trust_call list" where
  "check_signer a path want store msg =
     (let get_size = CryptMsgGetParam msg cmsg_signer_cert_info_param None in
      case signer_info_size a msg of
        None \<Rightarrow> (Some (''CryptMsgGetParam(size): '' @ last_error a get_size), [get_size])
      | Some n \<Rightarrow>
          if n = 0 then (Some (''CryptMsgGetParam(size): '' @ last_error a get_size), [get_size])
          else let get_data = CryptMsgGetParam msg cmsg_signer_cert_info_param (Some n) in
            case signer_info a msg n of
              None \<Rightarrow> (Some (''CryptMsgGetParam(data): '' @ last_error a get_data),
                       [get_size, get_data])
            | Some info \<Rightarrow>
                (let cert = find_certificate a store info;
                     calls = [get_size, get_data,
                              CertFindCertificateInStore store (x509_asn_encoding OR pkcs7_asn_encoding)
                                cert_find_subject_cert info]
                 in if cert = 0
                    then (Some (''signer certificate not found for '' @ go_quote (uni_print a) path), calls)
                    else case check_subject a path want cert of
                        (r, cs) \<Rightarrow> (r, calls @ cs @ [CertFreeCertificateContext cert])))"

definition verify_signer_cn :: "'a trust_api_scheme \<Rightarrow> string \<Rightarrow> string \<Rightarrow> string option \<times> trust_call list" where
  "verify_signer_cn a path want =
     (case utf16_ptr path of
        Some e \<Rightarrow> (Some e, [])
      | None \<Rightarrow>
          (let query = CryptQueryObject cert_query_object_file path cert_query_content_flag_pkcs7_signed
                         cert_query_format_flag_binary in
           case query_object a path of
             None \<Rightarrow> (Some (''CryptQueryObject('' @ go_quote (uni_print a) path @ ''): '' @ last_error a query),
                      [query])
           | Some (store, msg) \<Rightarrow>
               (case check_signer a path want store msg of
                  (r, cs) \<Rightarrow> (r, query # cs @ [CertCloseStore store, CryptMsgClose msg]))))"

section \<open>Handles\<close>

text \<open>What a trace releases, and the certificates it found.\<close>

fun releases :: "trust_call list \<Rightarrow> trust_call list" where
  "releases [] = []"
| "releases (CertFreeCertificateContext c # cs) = CertFreeCertificateContext c # releases cs"
| "releases (CertCloseStore s # cs) = CertCloseStore s # releases cs"
| "releases (CryptMsgClose m # cs) = CryptMsgClose m # releases cs"
| "releases (_ # cs) = releases cs"

lemma releases_append [simp]: "releases (cs @ ds) = releases cs @ releases ds"
  by (induction cs rule: releases.induct) auto

text \<open>The certificate the publisher check works with, if it gets that far.\<close>

definition signer_cert :: "'a trust_api_scheme \<Rightarrow> nat \<Rightarrow> nat \<Rightarrow> nat option" where
  "signer_cert a store msg =
     Option.bind (signer_info_size a msg) (\<lambda>n. if n = 0 then None
       else Option.bind (signer_info a msg n) (\<lambda>info.
         if find_certificate a store info = 0 then None else Some (find_certificate a store info)))"

lemma check_subject_releases: "releases (snd (check_subject a path want c)) = []"
  by (simp add: check_subject_def Let_def)

lemma check_signer_spec:
  "releases (snd (check_signer a path want store msg))
     = (case signer_cert a store msg of None \<Rightarrow> [] | Some c \<Rightarrow> [CertFreeCertificateContext c])"
  "fst (check_signer a path want store msg) = None \<longleftrightarrow>
     (\<exists>c. signer_cert a store msg = Some c \<and> fst (check_subject a path want c) = None)"
  using check_subject_releases [of a path want]
  by (auto simp: check_signer_def signer_cert_def Let_def split: option.splits prod.splits)
    (metis snd_conv)+

section \<open>Properties\<close>

text \<open>The chain check passes exactly when WinVerifyTrust returns zero for the file, without a
  user interface and without revocation, and the state this call built is the one that is
  released, in every case.\<close>

lemma verify_authenticode_spec:
  "(fst (verify_authenticode a path) = None \<longleftrightarrow> CHR 0x00 \<notin> set path \<and> fst (win_verify_trust a (verify_request path)) = 0)
   \<and> snd (verify_authenticode a path) =
        (if CHR 0x00 \<in> set path then []
         else [WinVerifyTrust wintrust_action_verify (verify_request path),
               WinVerifyTrust wintrust_action_verify
                 ((verify_request path)\<lparr>wd_state := snd (win_verify_trust a (verify_request path)),
                                        wd_state_action := wtd_state_action_close\<rparr>)])"
  by (simp add: verify_authenticode_def utf16_ptr_def Let_def split: prod.split)

text \<open>C39. The publisher check passes exactly when the signer's certificate is found and its name
  equals the wanted one up to case and surrounding space; on every path the message, the store
  and a certificate that was found are released, each once and the certificate first.\<close>

theorem verify_signer_cn_spec:
  assumes "CHR 0x00 \<notin> set path" "query_object a path = Some (store, msg)"
  shows "(fst (verify_signer_cn a path want) = None \<longleftrightarrow>
      (\<exists>c. signer_cert a store msg = Some c \<and> 1 < name_size a c
         \<and> equal_fold (uni_fold a) (trim_space (name_string a c (name_size a c))) (trim_space want)))
    \<and> releases (snd (verify_signer_cn a path want))
      = (case signer_cert a store msg of None \<Rightarrow> [] | Some c \<Rightarrow> [CertFreeCertificateContext c])
        @ [CertCloseStore store, CryptMsgClose msg]"
proof -
  obtain r cs where r: "check_signer a path want store msg = (r, cs)" by fastforce
  have "fst (check_subject a path want c) = None \<longleftrightarrow> 1 < name_size a c
      \<and> equal_fold (uni_fold a) (trim_space (name_string a c (name_size a c))) (trim_space want)" for c
    by (auto simp: check_subject_def Let_def)
  with check_signer_spec [of a path want store msg] r assms show ?thesis
    by (simp add: verify_signer_cn_def utf16_ptr_def Let_def)
qed

text \<open>Libraries that find a signer of the given name.\<close>

definition signed_by :: "string \<Rightarrow> trust_api" where
  "signed_by name = \<lparr>getenv = (\<lambda>_. []), uni_fold = (\<lambda>r. r), uni_print = (\<lambda>_. False),
     win_verify_trust = (\<lambda>_. (0, 7)), last_error = (\<lambda>_. []), query_object = (\<lambda>_. Some (1, 2)),
     signer_info_size = (\<lambda>_. Some 10), signer_info = (\<lambda>_ _. Some ''info''),
     find_certificate = (\<lambda>_ _. 3), name_size = (\<lambda>_. Suc (length name)), name_string = (\<lambda>_ _. name)\<rparr>"

theorem verify_signer_cn_spec_witness:
  "releases (snd (verify_signer_cn (signed_by ''Acme'') ''a.exe'' ''Acme''))
     = [CertFreeCertificateContext 3, CertCloseStore 1, CryptMsgClose 2]
   \<and> fst (verify_signer_cn (signed_by ''Acme'') ''a.exe'' ''Acme'') = None"
proof -
  have q: "query_object (signed_by ''Acme'') ''a.exe'' = Some (1, 2)" by (simp add: signed_by_def)
  have c: "signer_cert (signed_by ''Acme'') 1 2 = Some 3" by (simp add: signer_cert_def signed_by_def)
  have n: "name_size (signed_by ''Acme'') 3 = 5" "name_string (signed_by ''Acme'') 3 5 = ''Acme''"
    by (simp_all add: signed_by_def)
  show ?thesis
    using verify_signer_cn_spec [OF _ q, of "''Acme''"] c n by simp
qed

end
