(* ===== verification/Go_Float.thy ===== *)
theory Go_Float
  imports Prelude Complex_Main
begin

text \<open>
  Go's \<open>float64\<close> as far as the traffic meter needs it: a finite value is the rational it
  stands for, and every operation rounds its exact result to 53 significant bits, halves to
  even. Values here stay far from the limits of the exponent.
\<close>

section \<open>Rounding\<close>

fun bits :: "nat \<Rightarrow> nat" where
  "bits n = (if n = 0 then 0 else Suc (bits (n div 2)))"

declare bits.simps [simp del]

definition pow2 :: "int \<Rightarrow> rat" where
  "pow2 k = (if 0 \<le> k then 2 ^ nat k else 1 / 2 ^ nat (- k))"

text \<open>The exponent of the leading bit of a positive rational.\<close>

definition log2_floor :: "rat \<Rightarrow> int" where
  "log2_floor x =
     (case quotient_of x of
        (p, q) \<Rightarrow> (let b = int (bits (nat p)) - int (bits (nat q))
                   in if pow2 b \<le> x then b else b - 1))"

definition round_even :: "rat \<Rightarrow> int" where
  "round_even x =
     (let f = \<lfloor>x\<rfloor>; d = x - of_int f
      in if d < 1 / 2 then f else if 1 / 2 < d then f + 1 else if even f then f else f + 1)"

definition fl_pos :: "rat \<Rightarrow> rat" where
  "fl_pos x = (let e = log2_floor x - 52 in of_int (round_even (x / pow2 e)) * pow2 e)"

definition fl :: "rat \<Rightarrow> rat" where
  "fl x = (if x = 0 then 0 else if 0 < x then fl_pos x else - fl_pos (- x))"

text \<open>Conversion to \<open>int64\<close> drops the fraction; what a value out of range gives is left to the
  machine.\<close>

definition trunc :: "rat \<Rightarrow> int" where
  "trunc x = (if 0 \<le> x then \<lfloor>x\<rfloor> else - \<lfloor>- x\<rfloor>)"

definition float_to_int64 :: "(rat \<Rightarrow> 64 word) \<Rightarrow> rat \<Rightarrow> 64 word" where
  "float_to_int64 ovf x =
     (if - (2 ^ 63) \<le> trunc x \<and> trunc x < 2 ^ 63 then word_of_int (trunc x) else ovf x)"

section \<open>Integers of at most 53 bits are exact\<close>

lemma bits_bound: "n < 2 ^ bits n"
proof (induction n rule: bits.induct)
  case (1 n)
  show ?case
  proof (cases "n = 0")
    case False
    then have "n div 2 < 2 ^ bits (n div 2)" using 1 by blast
    then show ?thesis using False by (subst bits.simps) (simp; linarith)
  qed simp
qed

lemma bits_lower: "0 < n \<Longrightarrow> 2 ^ (bits n - 1) \<le> n"
proof (induction n rule: bits.induct)
  case (1 n)
  show ?case
  proof (cases "n div 2 = 0")
    case True
    then have "n = 1" using 1(2) by linarith
    then show ?thesis by (simp add: bits.simps)
  next
    case False
    then have "2 ^ (bits (n div 2) - 1) \<le> n div 2" using 1 by simp
    moreover have "0 < bits (n div 2)" using False by (subst bits.simps) simp
    ultimately have "2 ^ bits (n div 2) \<le> n"
      by (cases "bits (n div 2)"; simp; linarith)
    then show ?thesis using 1(2) by (subst bits.simps) simp
  qed
qed

lemma bits_pos: "0 < n \<Longrightarrow> 0 < bits n"
  by (subst bits.simps) simp

lemma bits_le: "n < 2 ^ k \<Longrightarrow> bits n \<le> k"
proof (rule ccontr)
  assume a: "n < 2 ^ k" "\<not> bits n \<le> k"
  have "0 < n"
  proof (rule ccontr)
    assume "\<not> 0 < n"
    with a(2) show False by (simp add: bits.simps)
  qed
  then have "2 ^ (bits n - 1) \<le> n" by (rule bits_lower)
  moreover have "(2::nat) ^ k \<le> 2 ^ (bits n - 1)" using a(2) by (intro power_increasing) simp_all
  ultimately show False using a(1) by linarith
qed

lemma round_even_int [simp]: "round_even (of_int k) = k"
  by (simp add: round_even_def)

lemma log2_floor_nat: "0 < n \<Longrightarrow> log2_floor (of_nat n) = int (bits n) - 1"
proof -
  assume n: "0 < n"
  have "quotient_of (of_nat n) = (int n, 1)" 
    using quotient_of_Fract [of "int n" 1] Fract_of_nat_eq [of n] by (simp add: Rat.normalize_def)
  moreover have "bits (Suc 0) = 1" by (simp add: bits.simps)
  moreover have "pow2 (int (bits n) - 1) \<le> of_nat n"
  proof -
    have "pow2 (int (bits n) - 1) = of_nat (2 ^ (bits n - 1))"
      using bits_pos [OF n] by (simp add: pow2_def nat_diff_distrib)
    also have "\<dots> \<le> of_nat n" using bits_lower [OF n] by (simp only: of_nat_le_iff)
    finally show ?thesis .
  qed
  ultimately show ?thesis by (simp add: log2_floor_def)
qed

lemma fl_nat: "n < 2 ^ 53 \<Longrightarrow> fl (of_nat n) = of_nat n"
proof (cases "n = 0")
  case False
  assume n: "n < 2 ^ 53"
  have b: "0 < bits n" "bits n \<le> 53" using bits_pos bits_le [OF n] False by auto
  define k where "k = 53 - bits n"
  have e: "log2_floor (of_nat n) - 52 = - int k"
    using log2_floor_nat [of n] False b by (simp add: k_def)
  have p: "pow2 (- int k) = 1 / 2 ^ k" by (cases k) (simp_all add: pow2_def nat_add_distrib)
  have "(of_nat n :: rat) / pow2 (- int k) = of_int (int n * 2 ^ k)" by (simp add: p)
  then have "fl_pos (of_nat n) = of_int (int n * 2 ^ k) * pow2 (- int k)"
    by (simp only: fl_pos_def e Let_def round_even_int)
  also have "\<dots> = of_nat n" by (simp add: p)
  finally show ?thesis using False by (simp add: fl_def)
qed (simp add: fl_def)

lemma trunc_nat [simp]: "trunc (of_nat n) = int n"
  by (simp add: trunc_def)

end
