(* ===== verification/Traffic.thy ===== *)
theory Traffic
  imports Go_Float Go_Json_Roundtrip
begin

text \<open>
  The traffic meter (vpn_engine/traffic.go): the counters read by reflection from the statistics
  service, one tick of the poller that turns them into totals and rates, and the text that
  \<open>GetStats\<close> returns (\<open>statsJSON\<close> of engine_controller.go). Byte counts are 64-bit words,
  times are nanoseconds.
\<close>

section \<open>Samples\<close>

record sample =
  rate :: "64 word"
  total :: "64 word"

record snapshot =
  up :: sample
  down :: sample
  snap_at :: int

definition zero_sample :: sample where
  "zero_sample = \<lparr>rate = 0, total = 0\<rparr>"

definition zero_snapshot :: snapshot where
  "zero_snapshot = \<lparr>up = zero_sample, down = zero_sample, snap_at = 0\<rparr>"

definition read_traffic :: "snapshot option \<Rightarrow> sample \<times> sample" where
  "read_traffic snap = (case snap of None \<Rightarrow> (zero_sample, zero_sample) | Some s \<Rightarrow> (up s, down s))"

section \<open>One tick of the poller\<close>

definition outbound_tags :: "string list" where
  "outbound_tags = [''proxy'', ''direct'']"

text \<open>A second, in nanoseconds.\<close>

definition traffic_poll_interval :: int where
  "traffic_poll_interval = 1000000000"

definition stats_counter_name :: "string \<Rightarrow> string \<Rightarrow> string" where
  "stats_counter_name tag direction = ''outbound>>>'' @ tag @ ''>>>traffic>>>'' @ direction"

type_synonym stats_reader = "string \<Rightarrow> 64 word"

definition read_totals :: "stats_reader \<Rightarrow> 64 word \<times> 64 word" where
  "read_totals rd = foldl (\<lambda>(u, d) tag. (u + rd (stats_counter_name tag ''uplink''),
                                          d + rd (stats_counter_name tag ''downlink''))) (0, 0) outbound_tags"

text \<open>\<open>now.Sub\<close> saturates at the limits of a duration; \<open>Seconds\<close> adds whole seconds and the
  fraction.\<close>

definition time_sub :: "int \<Rightarrow> int \<Rightarrow> int" where
  "time_sub a b = max (- (2 ^ 63)) (min (2 ^ 63 - 1) (a - b))"

definition trunc_div :: "int \<Rightarrow> int \<Rightarrow> int" where
  "trunc_div a b = (if 0 \<le> a then a div b else - ((- a) div b))"

definition seconds :: "int \<Rightarrow> rat" where
  "seconds d =
     (let sec = trunc_div d 1000000000; nsec = d - sec * 1000000000
      in fl (fl (of_int sec) + fl (fl (of_int nsec) / 1000000000)))"

definition per_second :: "(rat \<Rightarrow> 64 word) \<Rightarrow> 64 word \<Rightarrow> rat \<Rightarrow> 64 word" where
  "per_second ovf delta dt =
     (if sint delta \<le> 0 \<or> dt \<le> 0 then 0
      else float_to_int64 ovf (fl (fl (of_int (sint delta)) / dt)))"

record poller =
  last_snap :: snapshot
  have_last :: bool

definition new_poller :: poller where
  "new_poller = \<lparr>last_snap = zero_snapshot, have_last = False\<rparr>"

text \<open>A tick: the poller's next state, and the snapshot it publishes, which is the one it keeps.\<close>

definition poll_tick :: "(rat \<Rightarrow> 64 word) \<Rightarrow> stats_reader \<Rightarrow> int \<Rightarrow> poller \<Rightarrow> poller" where
  "poll_tick ovf rd now p =
     (let (u, d) = read_totals rd;
          dt = seconds (time_sub now (snap_at (last_snap p)));
          ru = (if have_last p then per_second ovf (u - total (up (last_snap p))) dt else 0);
          rd = (if have_last p then per_second ovf (d - total (down (last_snap p))) dt else 0)
      in \<lparr>last_snap = \<lparr>up = \<lparr>rate = ru, total = u\<rparr>, down = \<lparr>rate = rd, total = d\<rparr>, snap_at = now\<rparr>,
          have_last = True\<rparr>)"

section \<open>Reading a counter by reflection\<close>

text \<open>Values as \<open>reflect\<close> shows them. A pointer is nil or points to a value.\<close>

datatype rval =
    RInvalid
  | RInt64 "64 word"
  | RString string
  | RStruct "(string \<times> rval) list"
  | RPtr "rval option"
  | ROther

fun deref :: "rval \<Rightarrow> rval" where
  "deref (RPtr None) = RInvalid"
| "deref (RPtr (Some v)) = v"
| "deref v = v"

text \<open>\<open>FieldByName\<close> panics, here \<open>None\<close>, unless the value is a struct.\<close>

fun field_by_name :: "rval \<Rightarrow> string \<Rightarrow> rval option" where
  "field_by_name (RStruct fs) n = Some (case map_of fs n of None \<Rightarrow> RInvalid | Some v \<Rightarrow> v)"
| "field_by_name _ n = None"

definition stat_value :: "rval \<Rightarrow> 64 word" where
  "stat_value resp =
     (case deref resp of
        RStruct fs \<Rightarrow>
          (case deref (case map_of fs ''Stat'' of None \<Rightarrow> RInvalid | Some v \<Rightarrow> v) of
             RStruct gs \<Rightarrow> (case map_of gs ''Value'' of Some (RInt64 w) \<Rightarrow> w | _ \<Rightarrow> 0)
           | _ \<Rightarrow> 0)
      | _ \<Rightarrow> 0)"

text \<open>What calling the method did: it panicked, or returned a response and an error. The kind of
  the error value can be one that \<open>IsNil\<close> panics on.\<close>

datatype err_value = NilError | SomeError | NotNillable

datatype call_outcome = CallPanic | CallReturned rval err_value

text \<open>The method found by name: the kinds of its parameters, the number of its results, the type
  its second parameter points to as a zero value, and the call. The core is third-party code,
  so these are given.\<close>

datatype param_kind = KindPtr | KindOther

record stats_method =
  m_in :: "param_kind list"
  m_out :: nat
  m_request :: rval
  m_call :: "string \<Rightarrow> call_outcome"

text \<open>The statistics service of a context: no server, no service, no such method, or the method.\<close>

definition new_v2ray_stats_reader :: "stats_method option option option \<Rightarrow> stats_method option" where
  "new_v2ray_stats_reader server =
     (case server of
        None \<Rightarrow> None
      | Some None \<Rightarrow> None
      | Some (Some None) \<Rightarrow> None
      | Some (Some (Some m)) \<Rightarrow>
          (if length (m_in m) \<noteq> 2 \<or> m_out m \<noteq> 2 \<or> m_in m ! 1 \<noteq> KindPtr then None else Some m))"

definition v2ray_read :: "stats_method \<Rightarrow> string \<Rightarrow> 64 word" where
  "v2ray_read m name =
     (case field_by_name (m_request m) ''Name'' of
        Some (RString _) \<Rightarrow>
          (case m_call m name of
             CallPanic \<Rightarrow> 0
           | CallReturned resp NilError \<Rightarrow> stat_value resp
           | CallReturned resp SomeError \<Rightarrow> 0
           | CallReturned resp NotNillable \<Rightarrow> 0)
      | _ \<Rightarrow> 0)"

section \<open>The text of the statistics\<close>

definition quoted :: "string \<Rightarrow> string" where
  "quoted s = CHR 0x22 # s @ [CHR 0x22]"

definition show_int64 :: "64 word \<Rightarrow> string" where
  "show_int64 w = show_int (sint w)"

definition stats_json :: "snapshot option \<Rightarrow> string" where
  "stats_json snap =
     (case read_traffic snap of
        (u, d) \<Rightarrow>
          ''{'' @ quoted ''uplink'' @ '':'' @ show_int64 (rate u)
          @ '','' @ quoted ''downlink'' @ '':'' @ show_int64 (rate d)
          @ '','' @ quoted ''uplinkTotal'' @ '':'' @ show_int64 (total u)
          @ '','' @ quoted ''downlinkTotal'' @ '':'' @ show_int64 (total d) @ ''}'')"

section \<open>Lemmas\<close>

lemma read_totals_eq:
  "read_totals rd =
     (rd ''outbound>>>proxy>>>traffic>>>uplink'' + rd ''outbound>>>direct>>>traffic>>>uplink'',
      rd ''outbound>>>proxy>>>traffic>>>downlink'' + rd ''outbound>>>direct>>>traffic>>>downlink'')"
  by (simp add: read_totals_def outbound_tags_def stats_counter_name_def)

lemma seconds_one: "seconds 1000000000 = 1"
  using fl_nat [of 1] fl_nat [of 0] by (simp add: seconds_def trunc_div_def)

lemma per_second_one:
  assumes "0 \<le> sint d" "sint d < 2 ^ 53"
  shows "per_second ovf d 1 = d"
proof -
  obtain n where n: "sint d = int n" using assms(1) nonneg_int_cases by blast
  have b: "n < 2 ^ 53" using assms(2) n by simp
  have "word_of_int (sint d) = d" by simp
  then have d: "word_of_nat n = d" unfolding n by simp
  show ?thesis
    unfolding per_second_def n using b d fl_nat [OF b]
    by (auto simp: float_to_int64_def)
qed

lemma enc_plain: "\<forall>c \<in> set s. html_safe c \<Longrightarrow> enc_string s = quoted s"
proof -
  assume "\<forall>c \<in> set s. html_safe c"
  then have "esc_string s = s"
    by (induction s) (simp_all add: esc_string_ascii esc_ascii_def html_safe_def)
  then show ?thesis by (simp add: enc_string_def quoted_def quote_char_def)
qed

definition stats_doc :: "snapshot option \<Rightarrow> json" where
  "stats_doc snap =
     (case read_traffic snap of
        (u, d) \<Rightarrow> JObj [(''uplink'', JNum (show_int64 (rate u))), (''downlink'', JNum (show_int64 (rate d))),
          (''uplinkTotal'', JNum (show_int64 (total u))), (''downlinkTotal'', JNum (show_int64 (total d)))])"

lemma stats_json_encode: "stats_json snap = json_encode (stats_doc snap)"
proof -
  have "enc_string ''uplink'' = quoted ''uplink''" "enc_string ''downlink'' = quoted ''downlink''"
    "enc_string ''uplinkTotal'' = quoted ''uplinkTotal''" "enc_string ''downlinkTotal'' = quoted ''downlinkTotal''"
    by (rule enc_plain; simp add: html_safe_def quote_char_def bslash_def)+
  then show ?thesis by (simp add: stats_json_def stats_doc_def split: prod.split)
qed

text \<open>A counter that can be read: the method takes a request with a string field \<open>Name\<close>, returns
  without error, and its response holds an integer \<open>Stat.Value\<close>.\<close>

definition reads_counter :: "stats_method \<Rightarrow> string \<Rightarrow> 64 word \<Rightarrow> bool" where
  "reads_counter m name w \<longleftrightarrow>
     (\<exists>s resp fs gs v. field_by_name (m_request m) ''Name'' = Some (RString s)
        \<and> m_call m name = CallReturned resp NilError \<and> deref resp = RStruct fs
        \<and> map_of fs ''Stat'' = Some v \<and> deref v = RStruct gs \<and> map_of gs ''Value'' = Some (RInt64 w))"

section \<open>Properties\<close>

text \<open>C27. The text \<open>GetStats\<close> returns is a JSON document with the four fields the client reads,
  in this order, each the decimal of the signed counter, also before the first sample.\<close>

theorem stats_json_parses: "json_parse (stats_json snap) = Some (stats_doc snap)"
proof -
  have "json_ok max_nesting_depth (stats_doc snap)"
    by (simp add: stats_doc_def show_int64_def lex_show_int max_nesting_depth_def split: prod.split)
  moreover have "json_fix (stats_doc snap) = stats_doc snap"
    by (simp add: stats_doc_def ascii_valid_utf8 [unfolded valid_utf8_def] split: prod.split)
  ultimately show ?thesis by (simp add: stats_json_encode json_parse_encode)
qed

text \<open>C26. Two ticks one second apart report as totals the sums of the counters that the core keeps
  for its two outbounds under their own names, those of the uplink as up and those of the
  downlink as down, and as rates the growth of each total over that second, when it grew by less
  than 2^53 bytes; a total that shrank, as after a reset of the counters, is reported with rate
  zero.\<close>

theorem poll_rates:
  assumes "p1 = poll_tick ovf rd1 t new_poller" "p2 = poll_tick ovf rd2 (t + traffic_poll_interval) p1"
    and "u1 = rd1 ''outbound>>>proxy>>>traffic>>>uplink'' + rd1 ''outbound>>>direct>>>traffic>>>uplink''"
    and "d1 = rd1 ''outbound>>>proxy>>>traffic>>>downlink'' + rd1 ''outbound>>>direct>>>traffic>>>downlink''"
    and "u2 = rd2 ''outbound>>>proxy>>>traffic>>>uplink'' + rd2 ''outbound>>>direct>>>traffic>>>uplink''"
    and "d2 = rd2 ''outbound>>>proxy>>>traffic>>>downlink'' + rd2 ''outbound>>>direct>>>traffic>>>downlink''"
    and "sint (u2 - u1) < 2 ^ 53" "sint (d2 - d1) < 2 ^ 53"
  shows "up (last_snap p1) = \<lparr>rate = 0, total = u1\<rparr> \<and> down (last_snap p1) = \<lparr>rate = 0, total = d1\<rparr>
    \<and> up (last_snap p2) = \<lparr>rate = (if sint (u2 - u1) \<le> 0 then 0 else u2 - u1), total = u2\<rparr>
    \<and> down (last_snap p2) = \<lparr>rate = (if sint (d2 - d1) \<le> 0 then 0 else d2 - d1), total = d2\<rparr>"
proof -
  have dt: "seconds (time_sub (t + traffic_poll_interval) t) = 1"
    by (simp add: time_sub_def traffic_poll_interval_def seconds_one)
  have rates: "per_second ovf w 1 = (if sint w \<le> 0 then 0 else w)" if "sint w < 2 ^ 53" for w
    by (cases "sint w \<le> 0") (use that per_second_one [of w ovf] in \<open>auto simp: per_second_def\<close>)
  have totals: "read_totals rd1 = (u1, d1)" "read_totals rd2 = (u2, d2)"
    using assms(3-6) by (simp_all add: read_totals_eq)
  show ?thesis
    using assms(7,8) dt rates totals unfolding assms(1,2) by (simp add: poll_tick_def new_poller_def Let_def)
qed

text \<open>Readers whose counters all differ: 101, 10 and 1000, 5 at the first tick, more at the second
  but for the downlink of the proxy, which was reset.\<close>

definition four_counters :: "64 word \<Rightarrow> 64 word \<Rightarrow> 64 word \<Rightarrow> 64 word \<Rightarrow> stats_reader" where
  "four_counters pu du pd dd name =
     (if name = ''outbound>>>proxy>>>traffic>>>uplink'' then pu
      else if name = ''outbound>>>direct>>>traffic>>>uplink'' then du
      else if name = ''outbound>>>proxy>>>traffic>>>downlink'' then pd
      else if name = ''outbound>>>direct>>>traffic>>>downlink'' then dd else 0)"

theorem poll_rates_witness:
  "last_snap (poll_tick (\<lambda>_. 0) (four_counters 701 14 0 6) 3000000000
     (poll_tick (\<lambda>_. 0) (four_counters 101 10 1000 5) 2000000000 new_poller))
   = \<lparr>up = \<lparr>rate = 604, total = 715\<rparr>, down = \<lparr>rate = 0, total = 6\<rparr>, snap_at = 3000000000\<rparr>"
proof -
  let ?p = "poll_tick (\<lambda>_. 0) (four_counters 701 14 0 6) 3000000000
     (poll_tick (\<lambda>_. 0) (four_counters 101 10 1000 5) 2000000000 new_poller)"
  have "up (last_snap ?p) = \<lparr>rate = 604, total = 715\<rparr> \<and> down (last_snap ?p) = \<lparr>rate = 0, total = 6\<rparr>"
    using poll_rates [OF refl refl, of 111 "four_counters 101 10 1000 5" 1005 715 "four_counters 701 14 0 6" 6
        "\<lambda>_. 0" 2000000000]
    by (simp add: four_counters_def traffic_poll_interval_def)
  moreover have "snap_at (last_snap ?p) = 3000000000" by (simp add: poll_tick_def Let_def split: prod.splits)
  ultimately show ?thesis by (cases "last_snap ?p") simp
qed

text \<open>Reading a counter gives its value when the method takes a request with a string field
  \<open>Name\<close>, returns without error, and its response holds an integer \<open>Stat.Value\<close> behind pointers
  or not; in every other case, a panic of the core included, it gives zero.\<close>

lemma v2ray_read_total:
  "v2ray_read m name = w \<longleftrightarrow>
     (if \<exists>w'. reads_counter m name w' then reads_counter m name w else w = 0)"
  by (auto simp: v2ray_read_def stat_value_def reads_counter_def
      split: option.splits rval.splits call_outcome.splits err_value.splits)

end
