(* ===== verification/Engine.thy ===== *)
theory Engine
  imports Traffic
begin

text \<open>
  The engine behind the exported functions (vpn_engine/engine_controller.go): one instance of
  the core at most, its status, the last error and the descriptor of the tunnel. The core is
  third-party code, so what each of its calls does is given, per start attempt; the record also
  keeps what the code cannot see, the instances and contexts that are still alive.
\<close>

section \<open>Status\<close>

datatype engine_status = Stopped | Starting | Running | Stopping | Error

fun status_index :: "engine_status \<Rightarrow> nat" where
  "status_index Stopped = 0"
| "status_index Starting = 1"
| "status_index Running = 2"
| "status_index Stopping = 3"
| "status_index Error = 4"

text \<open>The constants are the values of \<open>iota\<close>, stored as an \<open>int32\<close>.\<close>

definition status_code :: "engine_status \<Rightarrow> 32 word" where
  "status_code s = word_of_nat (status_index s)"

lemma status_index_inj: "status_index s = status_index t \<Longrightarrow> s = t"
  by (cases s; cases t; simp)

lemma status_code_simps [simp]:
  "status_code Stopped = 0" "status_code Starting = 1" "status_code Running = 2"
  "status_code Stopping = 3" "status_code Error = 4"
  by (simp_all add: status_code_def)

text \<open>The statuses are ordered as their values.\<close>

instantiation engine_status :: linorder
begin

definition less_eq_engine_status :: "engine_status \<Rightarrow> engine_status \<Rightarrow> bool" where
  "less_eq_engine_status s t \<longleftrightarrow> status_index s \<le> status_index t"

definition less_engine_status :: "engine_status \<Rightarrow> engine_status \<Rightarrow> bool" where
  "less_engine_status s t \<longleftrightarrow> status_index s < status_index t"

instance
  by standard (auto simp: less_eq_engine_status_def less_engine_status_def dest: status_index_inj)

end

text \<open>\<open>String\<close> on the stored integer; anything else reads as stopped.\<close>

definition status_string :: "32 word \<Rightarrow> string" where
  "status_string w =
     (if w = 1 then ''starting'' else if w = 2 then ''running''
      else if w = 3 then ''stopping'' else if w = 4 then ''error'' else ''stopped'')"

section \<open>The core\<close>

datatype outcome = Fine | Fails string | Panics string

text \<open>Closing an instance ends within the five seconds \<open>forceCleanupLocked\<close> waits, after them, by
  returning or by a panic, or never.\<close>

datatype close_outcome = Closed | ClosePanics string | ClosesLate | PanicsLate string | CloseHangs

text \<open>What the core does in the n-th start attempt: building the context, parsing the
  configuration, making, starting and closing the instance, and looking for the statistics
  service, which is found, missing or panics.\<close>

record core =
  core_context :: "nat \<Rightarrow> outcome"
  core_parse :: "nat \<Rightarrow> string \<Rightarrow> outcome"
  core_new :: "nat \<Rightarrow> outcome"
  core_start :: "nat \<Rightarrow> outcome"
  core_close :: "nat \<Rightarrow> close_outcome"
  core_stats :: "nat \<Rightarrow> outcome"
  core_stack :: string

section \<open>State\<close>

text \<open>An instance and a context are named by the attempt that made them. \<open>live_boxes\<close> are the
  instances made and not closed, \<open>closing\<close> those whose Close outlasted the wait and still runs in
  its goroutine, \<open>live_ctxs\<close> the contexts not cancelled, \<open>pollers\<close> the contexts
  a poller was started for; \<open>statuses\<close> is every status stored.\<close>

record engine =
  instance_of :: "nat option"
  cancel_of :: "nat option"
  status :: "32 word"
  last_error :: string
  tun_fd :: "32 word"
  traffic :: "snapshot option"
  attempts :: nat
  live_boxes :: "nat set"
  closing :: "nat set"
  live_ctxs :: "nat set"
  pollers :: "nat set"
  statuses :: "engine_status list"

definition new_engine :: engine where
  "new_engine = \<lparr>instance_of = None, cancel_of = None, status = status_code Stopped, last_error = [],
     tun_fd = -1, traffic = None, attempts = 0, live_boxes = {}, closing = {}, live_ctxs = {}, pollers = {},
     statuses = []\<rparr>"

definition set_status :: "engine_status \<Rightarrow> engine \<Rightarrow> engine" where
  "set_status s e = e\<lparr>status := status_code s, statuses := statuses e @ [s]\<rparr>"

definition set_error :: "string \<Rightarrow> engine \<Rightarrow> engine" where
  "set_error msg e = set_status Error (e\<lparr>last_error := msg\<rparr>)"

text \<open>A call returns, blocks for ever while it holds the mutex, or takes the process down.\<close>

datatype 'a run = Done 'a | Blocks | Crashes

definition run_bind :: "'a run \<Rightarrow> ('a \<Rightarrow> 'b run) \<Rightarrow> 'b run" where
  "run_bind m f = (case m of Done x \<Rightarrow> f x | Blocks \<Rightarrow> Blocks | Crashes \<Rightarrow> Crashes)"

lemma run_bind_simps [simp]:
  "run_bind (Done x) f = f x" "run_bind Blocks f = Blocks" "run_bind Crashes f = Crashes"
  by (simp_all add: run_bind_def)

section \<open>Operations\<close>

definition cancel_ctx :: "nat \<Rightarrow> engine \<Rightarrow> engine" where
  "cancel_ctx n e = e\<lparr>live_ctxs := live_ctxs e - {n}\<rparr>"

text \<open>\<open>forceCleanupLocked\<close>: the instance is closed in a goroutine of its own, which no recover
  guards, and waited for five seconds at most.\<close>

definition force_cleanup :: "core \<Rightarrow> engine \<Rightarrow> engine run" where
  "force_cleanup c e =
     run_bind
       (case instance_of e of
          None \<Rightarrow> Done e
        | Some b \<Rightarrow>
            (case core_close c b of
               Closed \<Rightarrow> Done (e\<lparr>instance_of := None, live_boxes := live_boxes e - {b}\<rparr>)
             | ClosePanics m \<Rightarrow> Crashes
             | _ \<Rightarrow> Done (e\<lparr>instance_of := None, closing := insert b (closing e)\<rparr>)))
       (\<lambda>e. Done (case cancel_of e of
                   None \<Rightarrow> e
                 | Some n \<Rightarrow> (cancel_ctx n e)\<lparr>cancel_of := None\<rparr>))"

text \<open>The deferred recover of \<open>start\<close>.\<close>

definition recovered :: "core \<Rightarrow> string \<Rightarrow> engine \<Rightarrow> (string option \<times> engine) run" where
  "recovered c m e =
     (let msg = ''engine panic: '' @ m @ newline # core_stack c
      in run_bind (force_cleanup c (set_error msg e)) (\<lambda>e'. Done (Some msg, e')))"

definition failed :: "nat \<Rightarrow> string \<Rightarrow> engine \<Rightarrow> (string option \<times> engine) run" where
  "failed n msg e = Done (Some msg, set_error msg (cancel_ctx n e))"

text \<open>The end of \<open>start\<close>, once the instance runs.\<close>

definition start_finish :: "core \<Rightarrow> nat \<Rightarrow> engine \<Rightarrow> (string option \<times> engine) run" where
  "start_finish c n e =
     (let e1 = set_status Running (e\<lparr>instance_of := Some n, cancel_of := Some n, last_error := []\<rparr>)
      in case core_stats c n of
           Panics m \<Rightarrow> recovered c m e1
         | Fails m \<Rightarrow> Done (None, e1)
         | Fine \<Rightarrow> Done (None, e1\<lparr>pollers := insert n (pollers e1)\<rparr>))"

text \<open>An instance that did not start is closed on the spot, however long that takes.\<close>

definition start_box :: "core \<Rightarrow> nat \<Rightarrow> engine \<Rightarrow> (string option \<times> engine) run" where
  "start_box c n e =
     (case core_start c n of
        Fine \<Rightarrow> start_finish c n e
      | Panics m \<Rightarrow> recovered c m e
      | Fails m \<Rightarrow>
          (case core_close c n of
             CloseHangs \<Rightarrow> Blocks
           | ClosePanics m' \<Rightarrow> recovered c m' e
           | PanicsLate m' \<Rightarrow> recovered c m' e
           | _ \<Rightarrow> failed n (''start instance: '' @ m) (e\<lparr>live_boxes := live_boxes e - {n}\<rparr>)))"

definition start :: "core \<Rightarrow> string \<Rightarrow> engine \<Rightarrow> (string option \<times> engine) run" where
  "start c config e =
     (if instance_of e \<noteq> None then Done (Some ''engine already running'', e)
      else
        (let n = attempts e;
             e1 = (set_status Starting e)\<lparr>attempts := Suc n, live_ctxs := insert n (live_ctxs e)\<rparr>
         in case core_context c n of
              Panics m \<Rightarrow> recovered c m e1
            | _ \<Rightarrow>
                (case core_parse c n config of
                   Panics m \<Rightarrow> recovered c m e1
                 | Fails m \<Rightarrow> failed n (''parse config: '' @ m) e1
                 | Fine \<Rightarrow>
                     (case core_new c n of
                        Panics m \<Rightarrow> recovered c m e1
                      | Fails m \<Rightarrow> failed n (''create instance: '' @ m) e1
                      | Fine \<Rightarrow> start_box c n (e1\<lparr>live_boxes := insert n (live_boxes e1)\<rparr>)))))"

definition stop :: "core \<Rightarrow> engine \<Rightarrow> engine run" where
  "stop c e =
     (if instance_of e = None then Done (set_status Stopped e)
      else run_bind (force_cleanup c (set_status Stopping e)) (\<lambda>e'. Done (set_status Stopped e')))"

section \<open>Exported functions\<close>

text \<open>A string crosses the boundary up to its first NUL byte.\<close>

definition c_string :: "string \<Rightarrow> string" where
  "c_string s = takeWhile (\<lambda>c. c \<noteq> CHR 0x00) s"

definition StartEngine :: "core \<Rightarrow> string \<Rightarrow> engine \<Rightarrow> (string \<times> engine) run" where
  "StartEngine c config e =
     run_bind (start c (c_string config) e)
       (\<lambda>(r, e'). Done (c_string (case r of Some msg \<Rightarrow> ''ERROR: '' @ msg | None \<Rightarrow> ''SUCCESS''), e'))"

definition StopEngine :: "core \<Rightarrow> engine \<Rightarrow> engine run" where
  "StopEngine c e = stop c e"

definition GetStatus :: "engine \<Rightarrow> string" where
  "GetStatus e = c_string (status_string (status e))"

definition GetEngineLastError :: "engine \<Rightarrow> string" where
  "GetEngineLastError e = c_string (last_error e)"

definition GetStats :: "engine \<Rightarrow> string" where
  "GetStats e = c_string (stats_json (traffic e))"

definition SetTunFd :: "32 word \<Rightarrow> engine \<Rightarrow> engine" where
  "SetTunFd fd e = e\<lparr>tun_fd := fd\<rparr>"

section \<open>Sequences of calls\<close>

text \<open>What happens to the engine: the calls of the host, and the end of a Close that outlasted the
  wait. A panic there meets no recover.\<close>

definition close_ends :: "core \<Rightarrow> nat \<Rightarrow> engine \<Rightarrow> engine run" where
  "close_ends c b e =
     (if b \<in> closing e then
        (case core_close c b of
           ClosesLate \<Rightarrow> Done (e\<lparr>closing := closing e - {b}, live_boxes := live_boxes e - {b}\<rparr>)
         | PanicsLate m \<Rightarrow> Crashes
         | _ \<Rightarrow> Done e)
      else Done e)"

datatype api_call = CallStart string | CallStop | CallSetTunFd "32 word" | CloseEnds nat

fun engine_call :: "core \<Rightarrow> api_call \<Rightarrow> engine \<Rightarrow> engine run" where
  "engine_call c (CallStart config) e = run_bind (StartEngine c config e) (\<lambda>(_, e'). Done e')"
| "engine_call c CallStop e = StopEngine c e"
| "engine_call c (CallSetTunFd fd) e = Done (SetTunFd fd e)"
| "engine_call c (CloseEnds b) e = close_ends c b e"

fun engine_calls :: "core \<Rightarrow> api_call list \<Rightarrow> engine \<Rightarrow> engine run" where
  "engine_calls c [] e = Done e"
| "engine_calls c (k # ks) e = run_bind (engine_call c k e) (engine_calls c ks)"

section \<open>Invariant\<close>

lemma run_bind_Done: "run_bind m f = Done y \<longleftrightarrow> (\<exists>x. m = Done x \<and> f x = Done y)"
  by (cases m) simp_all

lemma set_status_simps [simp]:
  "closing (set_status s e) = closing e" "instance_of (set_status s e) = instance_of e" "cancel_of (set_status s e) = cancel_of e"
  "status (set_status s e) = status_code s" "last_error (set_status s e) = last_error e"
  "attempts (set_status s e) = attempts e" "live_boxes (set_status s e) = live_boxes e"
  "live_ctxs (set_status s e) = live_ctxs e" "statuses (set_status s e) = statuses e @ [s]"
  "tun_fd (set_status s e) = tun_fd e"
  by (simp_all add: set_status_def)

lemma set_error_simps [simp]:
  "closing (set_error m e) = closing e" "instance_of (set_error m e) = instance_of e" "cancel_of (set_error m e) = cancel_of e"
  "status (set_error m e) = status_code Error" "last_error (set_error m e) = m"
  "attempts (set_error m e) = attempts e" "live_boxes (set_error m e) = live_boxes e"
  "live_ctxs (set_error m e) = live_ctxs e" "statuses (set_error m e) = statuses e @ [Error]"
  by (simp_all add: set_error_def)

lemma cancel_ctx_simps [simp]:
  "closing (cancel_ctx n e) = closing e" "instance_of (cancel_ctx n e) = instance_of e" "cancel_of (cancel_ctx n e) = cancel_of e"
  "status (cancel_ctx n e) = status e" "last_error (cancel_ctx n e) = last_error e"
  "attempts (cancel_ctx n e) = attempts e" "live_boxes (cancel_ctx n e) = live_boxes e"
  "live_ctxs (cancel_ctx n e) = live_ctxs e - {n}" "statuses (cancel_ctx n e) = statuses e"
  by (simp_all add: cancel_ctx_def)

text \<open>What the mutex protects between calls: the instance and the cancel function are set
  together and belong to the last attempt, the status says running exactly when there is an
  instance, and both are alive; what is still being closed in the background are other
  instances.\<close>

definition engine_inv :: "engine \<Rightarrow> bool" where
  "engine_inv e \<longleftrightarrow>
     cancel_of e = instance_of e
     \<and> (if instance_of e = None then status e \<in> {status_code Stopped, status_code Error}
        else status e = status_code Running \<and> the (instance_of e) < attempts e
             \<and> the (instance_of e) \<in> live_boxes e \<and> the (instance_of e) \<in> live_ctxs e)
     \<and> closing e \<subseteq> {..<attempts e} - set_option (instance_of e)"

lemma force_cleanup_Done:
  assumes "force_cleanup c e = Done e'" "cancel_of e = instance_of e"
  shows "instance_of e' = None \<and> cancel_of e' = None \<and> status e' = status e \<and> last_error e' = last_error e
    \<and> attempts e' = attempts e \<and> statuses e' = statuses e
    \<and> live_ctxs e' = live_ctxs e - set_option (instance_of e)
    \<and> live_boxes e - set_option (instance_of e) \<subseteq> live_boxes e' \<and> live_boxes e' \<subseteq> live_boxes e
    \<and> closing e \<subseteq> closing e' \<and> closing e' \<subseteq> closing e \<union> set_option (instance_of e)"
proof (cases "instance_of e")
  case None
  with assms show ?thesis by (simp add: force_cleanup_def)
next
  case (Some b)
  with assms show ?thesis
    by (cases "core_close c b") (auto simp: force_cleanup_def)
qed

lemma recovered_Done:
  assumes "recovered c m e = Done (r, e')" "cancel_of e = instance_of e"
  shows "(\<exists>msg. r = Some msg \<and> last_error e' = msg) \<and> instance_of e' = None \<and> cancel_of e' = None
    \<and> status e' = status_code Error \<and> attempts e' = attempts e \<and> statuses e' = statuses e @ [Error]
    \<and> live_ctxs e' = live_ctxs e - set_option (instance_of e)
    \<and> live_boxes e - set_option (instance_of e) \<subseteq> live_boxes e' \<and> live_boxes e' \<subseteq> live_boxes e
    \<and> closing e \<subseteq> closing e' \<and> closing e' \<subseteq> closing e \<union> set_option (instance_of e)"
proof -
  from assms(1) obtain msg where f: "force_cleanup c (set_error msg e) = Done e'" "r = Some msg"
    by (auto simp: recovered_def Let_def run_bind_Done)
  with force_cleanup_Done [OF f(1)] assms(2) show ?thesis by simp
qed

text \<open>The results of a start: an error is returned and stored and no instance is kept, or the new
  instance runs.\<close>

definition start_failed :: "string option \<Rightarrow> engine \<Rightarrow> engine \<Rightarrow> bool" where
  "start_failed r e e' \<longleftrightarrow> (\<exists>msg. r = Some msg \<and> last_error e' = msg) \<and> instance_of e' = None
     \<and> cancel_of e' = None \<and> status e' = status_code Error \<and> attempts e' = Suc (attempts e)
     \<and> statuses e' \<in> {statuses e @ [Starting, Error], statuses e @ [Starting, Running, Error]}
     \<and> live_boxes e \<subseteq> insert (attempts e) (live_boxes e') \<and> live_boxes e' \<subseteq> insert (attempts e) (live_boxes e)
     \<and> closing e \<subseteq> closing e' \<and> closing e' \<subseteq> insert (attempts e) (closing e)"

definition start_succeeded :: "string option \<Rightarrow> engine \<Rightarrow> engine \<Rightarrow> bool" where
  "start_succeeded r e e' \<longleftrightarrow> r = None \<and> instance_of e' = Some (attempts e)
     \<and> cancel_of e' = Some (attempts e) \<and> status e' = status_code Running \<and> last_error e' = []
     \<and> attempts e' = Suc (attempts e) \<and> statuses e' = statuses e @ [Starting, Running]
     \<and> live_boxes e' = insert (attempts e) (live_boxes e) \<and> live_ctxs e' = insert (attempts e) (live_ctxs e)
     \<and> closing e' = closing e"

lemma start_finish_Done:
  assumes "start_finish c n e1 = Done (r, e')" "n = attempts e"
    and "statuses e1 = statuses e @ [Starting]" "attempts e1 = Suc n"
    and "live_boxes e1 = insert n (live_boxes e)" "live_ctxs e1 = insert n (live_ctxs e)" "closing e1 = closing e"
  shows "start_failed r e e' \<or> start_succeeded r e e'"
proof (cases "core_stats c n")
  case (Panics m)
  let ?e = "set_status Running (e1\<lparr>instance_of := Some n, cancel_of := Some n, last_error := []\<rparr>)"
  from Panics assms(1) have "recovered c m ?e = Done (r, e')" by (simp add: start_finish_def Let_def)
  from recovered_Done [OF this] assms(2-) show ?thesis by (auto simp: start_failed_def)
qed (use assms in \<open>auto simp: start_finish_def Let_def start_succeeded_def\<close>)

lemma start_failedI:
  assumes "r = Some (last_error e')" "instance_of e' = None" "cancel_of e' = None"
    and "status e' = status_code Error" "attempts e' = Suc (attempts e)"
    and "statuses e' = statuses e @ [Starting, Error]"
    and "live_boxes e - {attempts e} \<subseteq> live_boxes e'" "live_boxes e' \<subseteq> insert (attempts e) (live_boxes e)"
    and "closing e' = closing e"
  shows "start_failed r e e'"
proof -
  have "live_boxes e \<subseteq> insert (attempts e) (live_boxes e')" using assms(7) by blast
  then show ?thesis using assms(1-6,8,9) unfolding start_failed_def by blast
qed

text \<open>A recovered panic before the instance was kept, and a reported failure.\<close>

lemma recovered_failed:
  assumes "recovered c m e1 = Done (r, e')" "instance_of e1 = None" "cancel_of e1 = None"
    and "statuses e1 = statuses e @ [Starting]" "attempts e1 = Suc (attempts e)"
    and "live_boxes e - {attempts e} \<subseteq> live_boxes e1" "live_boxes e1 \<subseteq> insert (attempts e) (live_boxes e)"
    and "closing e1 = closing e"
  shows "start_failed r e e'"
proof (rule start_failedI)
  note r = recovered_Done [OF assms(1)]
  have b: "live_boxes e' = live_boxes e1" using r assms(2,3) by auto
  show "live_boxes e - {attempts e} \<subseteq> live_boxes e'" "live_boxes e' \<subseteq> insert (attempts e) (live_boxes e)"
    using assms(6,7) b by simp_all
  show "closing e' = closing e" using r assms(2,3,8) by auto
qed (use recovered_Done [OF assms(1)] assms(2-5) in simp_all)

lemma failed_failed:
  assumes "failed n msg e1 = Done (r, e')" "instance_of e1 = None" "cancel_of e1 = None"
    and "statuses e1 = statuses e @ [Starting]" "attempts e1 = Suc (attempts e)"
    and "live_boxes e - {attempts e} \<subseteq> live_boxes e1" "live_boxes e1 \<subseteq> insert (attempts e) (live_boxes e)"
    and "closing e1 = closing e"
  shows "start_failed r e e'"
proof (rule start_failedI)
  have "r = Some msg" "e' = set_error msg (cancel_ctx n e1)" using assms(1) by (simp_all add: failed_def)
  then show "r = Some (last_error e')" "instance_of e' = None" "cancel_of e' = None"
    "status e' = status_code Error" "attempts e' = Suc (attempts e)"
    "statuses e' = statuses e @ [Starting, Error]"
    "live_boxes e - {attempts e} \<subseteq> live_boxes e'" "live_boxes e' \<subseteq> insert (attempts e) (live_boxes e)"
    "closing e' = closing e"
    using assms(2-8) by simp_all
qed

lemma start_Done:
  assumes "start c config e = Done (r, e')" "instance_of e = None" "cancel_of e = None"
  shows "start_failed r e e' \<or> start_succeeded r e e'"
proof -
  define n where "n = attempts e"
  define e1 where "e1 = (set_status Starting e)\<lparr>attempts := Suc n, live_ctxs := insert n (live_ctxs e)\<rparr>"
  define e2 where "e2 = e1\<lparr>live_boxes := insert n (live_boxes e1)\<rparr>"
  define e3 where "e3 = e2\<lparr>live_boxes := live_boxes e2 - {n}\<rparr>"
  have e1: "instance_of e1 = None" "cancel_of e1 = None" "statuses e1 = statuses e @ [Starting]"
    "attempts e1 = Suc n" "live_boxes e1 = live_boxes e" "live_ctxs e1 = insert n (live_ctxs e)"
    "closing e1 = closing e"
    using assms(2,3) by (simp_all add: e1_def)
  have rec: "start_failed r e e'" if "recovered c m x = Done (r, e')" "x = e1 \<or> x = e2" for m x
    using recovered_failed [OF that(1), of e] that(2) e1 by (elim disjE) (auto simp: e2_def n_def)
  have fail: "start_failed r e e'" if "failed n m x = Done (r, e')" "x = e1 \<or> x = e3" for m x
    using failed_failed [OF that(1), of e] that(2) e1 by (elim disjE) (auto simp: e2_def e3_def n_def)
  have fin: "start_failed r e e' \<or> start_succeeded r e e'" if "start_finish c n e2 = Done (r, e')"
    using start_finish_Done [OF that n_def] e1 by (simp add: e2_def n_def)
  from assms(1,2) show ?thesis
    unfolding start_def start_box_def
    by (auto simp: Let_def n_def [symmetric] e1_def [symmetric] e2_def [symmetric] e3_def [symmetric]
        split: outcome.splits close_outcome.splits dest: rec fail fin)
qed

lemma start_running: "instance_of e \<noteq> None \<Longrightarrow> start c config e = Done (Some ''engine already running'', e)"
  by (simp add: start_def)

lemma StartEngine_Done: "StartEngine c config e = Done (out, e') \<longleftrightarrow>
  (\<exists>r. start c (c_string config) e = Done (r, e')
     \<and> out = c_string (case r of Some msg \<Rightarrow> ''ERROR: '' @ msg | None \<Rightarrow> ''SUCCESS''))"
  by (auto simp: StartEngine_def run_bind_Done split: prod.splits)

lemma stop_Done:
  assumes "stop c e = Done e'" "cancel_of e = instance_of e"
  shows "instance_of e' = None \<and> cancel_of e' = None \<and> status e' = status_code Stopped
    \<and> last_error e' = last_error e \<and> attempts e' = attempts e
    \<and> statuses e' = statuses e @ (if instance_of e = None then [Stopped] else [Stopping, Stopped])
    \<and> live_ctxs e' = live_ctxs e - set_option (instance_of e)
    \<and> live_boxes e - set_option (instance_of e) \<subseteq> live_boxes e' \<and> live_boxes e' \<subseteq> live_boxes e
    \<and> closing e \<subseteq> closing e' \<and> closing e' \<subseteq> closing e \<union> set_option (instance_of e)"
proof (cases "instance_of e")
  case None
  with assms show ?thesis by (simp add: stop_def) auto
next
  case (Some b)
  with assms(1) obtain f where f: "force_cleanup c (set_status Stopping e) = Done f" "e' = set_status Stopped f"
    by (auto simp: stop_def run_bind_Done)
  from force_cleanup_Done [OF f(1)] f(2) Some assms(2) show ?thesis by simp
qed

lemma start_inv:
  assumes "start c config e = Done (r, e')" "instance_of e = None" "engine_inv e"
  shows "engine_inv e'"
proof -
  have e: "cancel_of e = None" "closing e \<subseteq> {..<attempts e}" using assms(2,3) by (simp_all add: engine_inv_def)
  from start_Done [OF assms(1,2) e(1)] show ?thesis
  proof
    assume f: "start_failed r e e'"
    then have "closing e' \<subseteq> insert (attempts e) (closing e)" by (simp add: start_failed_def)
    with e(2) have "closing e' \<subseteq> {..<Suc (attempts e)}" unfolding lessThan_Suc by blast
    with f show ?thesis by (auto simp: engine_inv_def start_failed_def)
  next
    assume "start_succeeded r e e'"
    with e(2) show ?thesis by (auto simp: engine_inv_def start_succeeded_def)
  qed
qed

lemma engine_inv_call: "engine_call c k e = Done e' \<Longrightarrow> engine_inv e \<Longrightarrow> engine_inv e'"
proof (cases k)
  case (CallStart config)
  assume a: "engine_call c k e = Done e'" "engine_inv e"
  with CallStart obtain r where r: "start c (c_string config) e = Done (r, e')"
    by (auto simp: run_bind_Done StartEngine_Done)
  show ?thesis
  proof (cases "instance_of e")
    case None
    with start_inv [OF r] a(2) show ?thesis by simp
  next
    case (Some b)
    with r a(2) show ?thesis by (simp add: start_running)
  qed
next
  case CallStop
  assume a: "engine_call c k e = Done e'" "engine_inv e"
  then have "closing e \<union> set_option (instance_of e) \<subseteq> {..<attempts e}"
    by (cases "instance_of e") (auto simp: engine_inv_def)
  with a CallStop stop_Done [of c e e'] show ?thesis by (simp add: engine_inv_def StopEngine_def) blast
next
  case (CallSetTunFd fd)
  assume "engine_call c k e = Done e'" "engine_inv e"
  with CallSetTunFd show ?thesis by (auto simp: engine_inv_def SetTunFd_def)
next
  case (CloseEnds b)
  assume "engine_call c k e = Done e'" "engine_inv e"
  with CloseEnds show ?thesis
    by (auto simp: engine_inv_def close_ends_def split: if_splits close_outcome.splits)
qed

lemma engine_inv_calls: "engine_calls c ks e = Done e' \<Longrightarrow> engine_inv e \<Longrightarrow> engine_inv e'"
  by (induction ks arbitrary: e) (auto simp: run_bind_Done dest: engine_inv_call)

lemma new_engine_inv: "engine_inv new_engine"
  by (simp add: engine_inv_def new_engine_def)

section \<open>The state machine\<close>

text \<open>The changes of status a reader can see, whenever it looks: the status is stored atomically
  and read without the mutex.\<close>

definition next_status :: "engine_status \<Rightarrow> engine_status \<Rightarrow> bool" where
  "next_status s t \<longleftrightarrow> t \<in> (case s of Stopped \<Rightarrow> {Stopped, Starting} | Starting \<Rightarrow> {Running, Error}
     | Running \<Rightarrow> {Stopping, Error} | Stopping \<Rightarrow> {Stopped} | Error \<Rightarrow> {Stopped, Starting})"

definition status_path :: "engine \<Rightarrow> bool" where
  "status_path e \<longleftrightarrow> successively next_status (Stopped # statuses e)
     \<and> status e = status_code (last (Stopped # statuses e))"

lemma status_path_append:
  "status_path e \<Longrightarrow> statuses e' = statuses e @ s # ss \<Longrightarrow> status e' = status_code (last (s # ss)) \<Longrightarrow>
   next_status (last (Stopped # statuses e)) s \<Longrightarrow> successively next_status (s # ss) \<Longrightarrow> status_path e'"
  using successively_append_iff [of next_status "Stopped # statuses e" "s # ss"]
  by (auto simp: status_path_def)

lemma status_code_inj [simp]: "status_code s = status_code t \<longleftrightarrow> s = t"
  by (cases s; cases t) simp_all

lemma inv_status:
  "engine_inv e \<Longrightarrow> status e = status_code s \<Longrightarrow> s \<in> (if instance_of e = None then {Stopped, Error} else {Running})"
  by (cases s) (auto simp: engine_inv_def split: if_splits)

lemma status_path_call:
  assumes "engine_call c k e = Done e'" "engine_inv e" "status_path e"
  shows "status_path e'"
proof -
  let ?l = "last (Stopped # statuses e)"
  have l: "?l \<in> (if instance_of e = None then {Stopped, Error} else {Running})"
    by (rule inv_status [OF assms(2)]) (use assms(3) in \<open>simp add: status_path_def\<close>)
  have cancel: "cancel_of e = instance_of e" using assms(2) by (simp add: engine_inv_def)
  note path = status_path_append [OF assms(3), of e']
  show ?thesis
  proof (cases k)
    case (CallStart config)
    with assms(1) obtain r where r: "start c (c_string config) e = Done (r, e')"
      by (auto simp: run_bind_Done StartEngine_Done)
    show ?thesis
    proof (cases "instance_of e")
      case None
      then have n: "next_status ?l Starting" using l by (auto simp: next_status_def)
      have "start_failed r e e' \<or> start_succeeded r e e'" using start_Done [OF r] None cancel by simp
      then show ?thesis
        using path [OF _ _ n, of "[Error]"] path [OF _ _ n, of "[Running, Error]"] path [OF _ _ n, of "[Running]"]
        by (auto simp: start_failed_def start_succeeded_def next_status_def)
    next
      case (Some b)
      with r assms(3) show ?thesis by (simp add: start_running)
    qed
  next
    case CallStop
    with assms(1) stop_Done [of c e e'] cancel have s: "status e' = status_code Stopped"
        "statuses e' = statuses e @ (if instance_of e = None then [Stopped] else [Stopping, Stopped])"
      by (simp_all add: StopEngine_def)
    show ?thesis
    proof (cases "instance_of e")
      case None
      with s l show ?thesis by (intro path [of Stopped "[]"]) (auto simp: next_status_def)
    next
      case (Some b)
      with s l show ?thesis by (intro path [of Stopping "[Stopped]"]) (auto simp: next_status_def)
    qed
  next
    case (CallSetTunFd fd)
    with assms show ?thesis by (auto simp: status_path_def SetTunFd_def)
  next
    case (CloseEnds b)
    with assms show ?thesis
      by (auto simp: status_path_def close_ends_def split: if_splits close_outcome.splits)
  qed
qed

lemma status_path_calls:
  "engine_calls c ks e = Done e' \<Longrightarrow> engine_inv e \<Longrightarrow> status_path e \<Longrightarrow> status_path e'"
  by (induction ks arbitrary: e) (auto simp: run_bind_Done dest: engine_inv_call status_path_call)

section \<open>Cores that behave\<close>

text \<open>A core that neither panics nor hangs.\<close>

definition panics :: "outcome \<Rightarrow> bool" where
  "panics r \<longleftrightarrow> (\<exists>m. r = Panics m)"

definition calm_core :: "core \<Rightarrow> bool" where
  "calm_core c \<longleftrightarrow> (\<forall>n. core_close c n = Closed \<and> \<not> panics (core_context c n) \<and> \<not> panics (core_new c n)
     \<and> \<not> panics (core_start c n) \<and> \<not> panics (core_stats c n) \<and> (\<forall>s. \<not> panics (core_parse c n s)))"

definition no_leak :: "engine \<Rightarrow> bool" where
  "no_leak e \<longleftrightarrow> cancel_of e = instance_of e \<and> live_boxes e = set_option (instance_of e)
     \<and> live_ctxs e = set_option (instance_of e)"

lemma calm_start:
  assumes "calm_core c" "no_leak e"
  shows "\<exists>r e'. start c config e = Done (r, e') \<and> no_leak e'"
proof (cases "instance_of e")
  case None
  with assms show ?thesis
    by (auto simp: calm_core_def panics_def no_leak_def start_def start_box_def start_finish_def
        failed_def Let_def split: outcome.splits)
next
  case (Some b)
  with assms(2) show ?thesis by (simp add: start_running)
qed

lemma calm_stop:
  assumes "calm_core c" "no_leak e"
  shows "\<exists>e'. stop c e = Done e' \<and> no_leak e'"
proof (cases "instance_of e")
  case None
  with assms(2) show ?thesis by (simp add: stop_def no_leak_def)
next
  case (Some b)
  moreover have "core_close c b = Closed" using assms(1) by (simp add: calm_core_def)
  ultimately show ?thesis using assms(2) by (simp add: stop_def force_cleanup_def no_leak_def)
qed

lemma calm_call: "calm_core c \<Longrightarrow> no_leak e \<Longrightarrow> \<exists>e'. engine_call c k e = Done e' \<and> no_leak e'"
proof (cases k)
  case (CallStart config)
  assume "calm_core c" "no_leak e"
  from calm_start [OF this, of "c_string config"] CallStart show ?thesis
    by (auto simp: StartEngine_def)
next
  case CallStop
  assume "calm_core c" "no_leak e"
  from calm_stop [OF this] CallStop show ?thesis by (simp add: StopEngine_def)
next
  case (CallSetTunFd fd)
  assume "no_leak e"
  with CallSetTunFd show ?thesis by (simp add: no_leak_def SetTunFd_def)
next
  case (CloseEnds b)
  assume "calm_core c" "no_leak e"
  moreover from this(1) have "core_close c b = Closed" by (simp add: calm_core_def)
  ultimately show ?thesis using CloseEnds by (simp add: close_ends_def)
qed

lemma calm_calls: "calm_core c \<Longrightarrow> no_leak e \<Longrightarrow> \<exists>e'. engine_calls c ks e = Done e' \<and> no_leak e'"
proof (induction ks arbitrary: e)
  case (Cons k ks)
  from calm_call [OF Cons.prems, of k] obtain e1 where "engine_call c k e = Done e1" "no_leak e1" by blast
  with Cons.IH [OF Cons.prems(1), of e1] show ?case by simp
qed simp

section \<open>Instances that nothing closes\<close>

text \<open>An instance that the engine no longer holds and that is not being closed is never closed.\<close>

definition orphan :: "nat \<Rightarrow> engine \<Rightarrow> bool" where
  "orphan n e \<longleftrightarrow> n \<in> live_boxes e \<and> n < attempts e \<and> instance_of e \<noteq> Some n \<and> n \<notin> closing e \<and> engine_inv e"

lemma orphan_call: "engine_call c k e = Done e' \<Longrightarrow> orphan n e \<Longrightarrow> orphan n e'"
proof -
  assume a: "engine_call c k e = Done e'" "orphan n e"
  have inv: "engine_inv e'" using a engine_inv_call by (auto simp: orphan_def)
  show ?thesis
  proof (cases k)
    case (CallStart config)
    with a obtain r where r: "start c (c_string config) e = Done (r, e')"
      by (auto simp: run_bind_Done StartEngine_Done)
    show ?thesis
    proof (cases "instance_of e")
      case None
      with start_Done [OF r] a(2) inv show ?thesis
        by (auto simp: orphan_def engine_inv_def start_failed_def start_succeeded_def)
    next
      case (Some b)
      with r a(2) show ?thesis by (simp add: start_running)
    qed
  next
    case CallStop
    with a stop_Done [of c e e'] inv show ?thesis
      by (cases "instance_of e") (auto simp: orphan_def engine_inv_def StopEngine_def)
  next
    case (CallSetTunFd fd)
    with a inv show ?thesis by (auto simp: orphan_def SetTunFd_def)
  next
    case (CloseEnds b)
    with a inv show ?thesis
      by (auto simp: orphan_def close_ends_def split: if_splits close_outcome.splits)
  qed
qed

lemma orphan_calls: "engine_calls c ks e = Done e' \<Longrightarrow> orphan n e \<Longrightarrow> orphan n e'"
  by (induction ks arbitrary: e) (auto simp: run_bind_Done dest: orphan_call)







section \<open>Properties\<close>

text \<open>A core in which every call succeeds, and the same with one misbehaving call.\<close>

definition good_core :: core where
  "good_core = \<lparr>core_context = (\<lambda>_. Fine), core_parse = (\<lambda>_ _. Fine), core_new = (\<lambda>_. Fine),
     core_start = (\<lambda>_. Fine), core_close = (\<lambda>_. Closed), core_stats = (\<lambda>_. Fine), core_stack = []\<rparr>"

lemma good_start: "start good_core config new_engine = Done (None,
  new_engine\<lparr>instance_of := Some 0, cancel_of := Some 0, status := 2, attempts := 1, live_boxes := {0},
    live_ctxs := {0}, pollers := {0}, statuses := [Starting, Running]\<rparr>)"
  by (simp add: start_def start_box_def start_finish_def good_core_def new_engine_def set_status_def Let_def)

text \<open>C4. After any sequence of starts, stops and changes of the descriptor that returned, the
  engine holds an instance exactly when its status is running and a cancel function exactly when
  it holds an instance; the status is stopped, running or error, never one of the passing ones;
  and the instance held and its context are alive.\<close>

theorem engine_consistent:
  assumes "engine_calls c ks new_engine = Done e"
  shows "cancel_of e = instance_of e
    \<and> (instance_of e \<noteq> None \<longleftrightarrow> status e = status_code Running)
    \<and> status e \<in> status_code ` {Stopped, Running, Error}
    \<and> set_option (instance_of e) \<subseteq> live_boxes e \<inter> live_ctxs e"
  using engine_inv_calls [OF assms new_engine_inv]
  by (auto simp: engine_inv_def split: if_splits)

theorem engine_consistent_witness:
  "\<exists>e. engine_calls good_core [CallSetTunFd 5, CallStart ''cfg'', CallStart ''cfg'', CallStop, CallStart ''cfg''] new_engine = Done e
     \<and> status e = status_code Running \<and> cancel_of e = Some 1"
proof -
  let ?ks = "[CallSetTunFd 5, CallStart ''cfg'', CallStart ''cfg'', CallStop, CallStart ''cfg'']"
  obtain e where e: "engine_calls good_core ?ks new_engine = Done e" "instance_of e = Some 1"
    by (auto simp: StartEngine_def StopEngine_def SetTunFd_def start_def start_box_def start_finish_def
        stop_def force_cleanup_def good_core_def new_engine_def set_status_def cancel_ctx_def Let_def)
  with engine_consistent [OF e(1)] show ?thesis by auto
qed

text \<open>C5. With a core that neither panics nor hangs, every sequence of calls returns, and leaves
  alive exactly the instance and the context the engine holds: nothing leaks, also when parsing,
  creation or start fail.\<close>

theorem engine_no_leak:
  assumes "calm_core c"
  shows "\<exists>e. engine_calls c ks new_engine = Done e
    \<and> live_boxes e = set_option (instance_of e) \<and> live_ctxs e = set_option (instance_of e)"
proof -
  have "no_leak new_engine" by (simp add: no_leak_def new_engine_def)
  from calm_calls [OF assms this, of ks] show ?thesis by (auto simp: no_leak_def)
qed

theorem engine_no_leak_witness:
  "\<exists>e. engine_calls (good_core\<lparr>core_start := \<lambda>_. Fails ''port in use''\<rparr>) [CallStart ''cfg'', CallStart ''cfg''] new_engine = Done e
     \<and> live_boxes e = set_option (instance_of e)"
proof -
  have "calm_core (good_core\<lparr>core_start := \<lambda>_. Fails ''port in use''\<rparr>)"
    by (simp add: calm_core_def good_core_def panics_def)
  from engine_no_leak [OF this] show ?thesis by blast
qed

text \<open>C23. \<open>StartEngine\<close> answers \<open>SUCCESS\<close> exactly when it left a new instance running with no
  error stored; a second start is refused and changes nothing; every other answer is the stored
  error after \<open>ERROR: \<close>, with status error and no instance.\<close>

theorem start_engine_answers:
  assumes "StartEngine c config e = Done (out, e')" "engine_inv e"
  shows "if instance_of e \<noteq> None then out = ''ERROR: engine already running'' \<and> e' = e
    else if out = ''SUCCESS'' then GetStatus e' = ''running'' \<and> instance_of e' = Some (attempts e)
           \<and> last_error e' = [] \<and> statuses e' = statuses e @ [Starting, Running]
    else out = c_string (''ERROR: '' @ last_error e') \<and> GetStatus e' = ''error'' \<and> instance_of e' = None"
proof -
  from assms(1) obtain r where r: "start c (c_string config) e = Done (r, e')"
      "out = c_string (case r of Some msg \<Rightarrow> ''ERROR: '' @ msg | None \<Rightarrow> ''SUCCESS'')"
    by (auto simp: StartEngine_Done)
  show ?thesis
  proof (cases "instance_of e")
    case None
    with assms(2) have "cancel_of e = None" by (simp add: engine_inv_def)
    from start_Done [OF r(1) None this] r(2) None show ?thesis
      by (auto simp: start_failed_def start_succeeded_def GetStatus_def status_string_def c_string_def)
  next
    case (Some b)
    with r show ?thesis by (auto simp: start_running c_string_def)
  qed
qed

theorem start_engine_answers_witness:
  "\<exists>e. StartEngine good_core ''cfg'' new_engine = Done (''SUCCESS'', e) \<and> GetStatus e = ''running''"
proof -
  obtain e where e: "StartEngine good_core ''cfg'' new_engine = Done (''SUCCESS'', e)"
    using good_start [of "c_string ''cfg''"] by (simp add: StartEngine_def c_string_def)
  with start_engine_answers [OF e new_engine_inv] show ?thesis by (simp add: new_engine_def)
qed

text \<open>Stopping leaves the engine stopped without an instance, whatever closing the core did
  short of a panic, and stopping again only stores the status once more.\<close>

lemma stop_engine_stops:
  assumes "StopEngine c e = Done e'" "engine_inv e"
  shows "instance_of e' = None \<and> GetStatus e' = ''stopped'' \<and> last_error e' = last_error e
    \<and> live_ctxs e' = live_ctxs e - set_option (instance_of e)
    \<and> StopEngine c e' = Done (set_status Stopped e')"
proof -
  have "cancel_of e = instance_of e" using assms(2) by (simp add: engine_inv_def)
  with stop_Done [of c e e'] assms(1) have s: "instance_of e' = None" "status e' = status_code Stopped"
      "last_error e' = last_error e" "live_ctxs e' = live_ctxs e - set_option (instance_of e)"
    by (simp_all add: StopEngine_def)
  then show ?thesis by (simp add: StopEngine_def stop_def GetStatus_def status_string_def c_string_def)
qed

text \<open>C35. A panic of the core while it starts is reported as an error, but the instance and its
  context stay alive, and no later sequence of calls closes that instance.\<close>

theorem panicking_start_leaks:
  assumes "engine_inv e" "instance_of e = None" "n = attempts e"
    and "core_context c n = Fine" "core_parse c n config = Fine" "core_new c n = Fine"
    and "core_start c n = Panics m"
  shows "\<exists>msg e'. start c config e = Done (Some msg, e') \<and> status e' = status_code Error
    \<and> n \<in> live_boxes e' \<and> n \<in> live_ctxs e'
    \<and> (\<forall>ks e''. engine_calls c ks e' = Done e'' \<longrightarrow> n \<in> live_boxes e'')"
proof -
  have cancel: "cancel_of e = None" using assms(1,2) by (simp add: engine_inv_def)
  define msg where "msg = ''engine panic: '' @ m @ newline # core_stack c"
  define e' where "e' = set_error msg ((set_status Starting e)\<lparr>attempts := Suc n,
     live_ctxs := insert n (live_ctxs e), live_boxes := insert n (live_boxes e)\<rparr>)"
  have s: "start c config e = Done (Some msg, e')"
    using assms cancel
    by (simp add: start_def start_box_def recovered_def force_cleanup_def Let_def e'_def msg_def)
  have "orphan n e'"
    using assms(1-3) cancel by (auto simp: orphan_def engine_inv_def e'_def)
  with s show ?thesis
    using orphan_calls [of c _ e' _ n] by (auto simp: e'_def orphan_def)
qed

theorem panicking_start_leaks_witness:
  "\<exists>msg e'. start (good_core\<lparr>core_start := \<lambda>_. Panics ''nil map''\<rparr>) ''cfg'' new_engine = Done (Some msg, e')
     \<and> 0 \<in> live_boxes e'"
  using panicking_start_leaks [OF new_engine_inv, of 0 "good_core\<lparr>core_start := \<lambda>_. Panics ''nil map''\<rparr>" "''cfg''" "''nil map''"]
  by (auto simp: new_engine_def good_core_def)

text \<open>C36. A panic while the instance is closed is not contained: it runs in a
  goroutine without a recover, so stopping a running engine then takes the host process
  down.\<close>

theorem close_panic_crashes:
  assumes "start c config e = Done (None, e')" "engine_inv e" "core_close c (attempts e) = ClosePanics m"
  shows "status e' = status_code Running \<and> StopEngine c e' = Crashes"
proof (cases "instance_of e")
  case None
  with assms(2) have "cancel_of e = None" by (simp add: engine_inv_def)
  from start_Done [OF assms(1) None this] have "start_succeeded None e e'"
    by (auto simp: start_failed_def)
  then show ?thesis
    using assms(3) by (simp add: start_succeeded_def StopEngine_def stop_def force_cleanup_def)
next
  case (Some b)
  with assms(1) show ?thesis by (simp add: start_running)
qed

theorem close_panic_crashes_witness:
  "\<exists>e. start (good_core\<lparr>core_close := \<lambda>_. ClosePanics ''closed channel''\<rparr>) ''cfg'' new_engine = Done (None, e)
     \<and> StopEngine (good_core\<lparr>core_close := \<lambda>_. ClosePanics ''closed channel''\<rparr>) e = Crashes"
proof -
  let ?c = "good_core\<lparr>core_close := \<lambda>_. ClosePanics ''closed channel''\<rparr>"
  obtain e where s: "start ?c ''cfg'' new_engine = Done (None, e)"
    by (simp add: start_def start_box_def start_finish_def good_core_def new_engine_def set_status_def Let_def)
  have "core_close ?c (attempts new_engine) = ClosePanics ''closed channel''" by simp
  from close_panic_crashes [OF s new_engine_inv this] s show ?thesis by blast
qed

text \<open>C11. Whatever sequence of calls returned, and whatever the core did in them, the statuses a
  reader could see follow the state machine from stopped on, and the one stored is its last
  state.\<close>

theorem status_transitions:
  assumes "engine_calls c ks new_engine = Done e"
  shows "successively next_status (Stopped # statuses e)
    \<and> GetStatus e = status_string (status_code (last (Stopped # statuses e)))"
proof -
  have "status_path new_engine" by (simp add: status_path_def new_engine_def)
  from status_path_calls [OF assms new_engine_inv this] show ?thesis
    by (auto simp: status_path_def GetStatus_def status_string_def c_string_def)
qed

theorem status_transitions_witness:
  "\<exists>e. engine_calls good_core [CallStart ''cfg'', CallStop] new_engine = Done e
     \<and> successively next_status (Stopped # statuses e) \<and> GetStatus e = ''stopped''"
proof -
  obtain e where e: "engine_calls good_core [CallStart ''cfg'', CallStop] new_engine = Done e"
      "statuses e = [Starting, Running, Stopping, Stopped]"
    using good_start [of "c_string ''cfg''"]
    by (simp add: StartEngine_def StopEngine_def stop_def force_cleanup_def good_core_def set_status_def cancel_ctx_def)
  with status_transitions [OF e(1)] show ?thesis
    by (intro exI [of _ e]) (simp add: status_code_def status_string_def)
qed



end
