(* ===== verification/Netif.thy ===== *)
theory Netif
  imports Go_Net Engine
begin

text \<open>
  The network state of the Android bridge (vpn_engine/platform_android.go and the exports of
  netif_export_android.go): the registry of underlying networks that the platform thread feeds,
  the default network with its callbacks, the protection of sockets, and the descriptor handed
  to the core. What the registry calls outside itself is a list of events.
\<close>

section \<open>Networks\<close>

definition flag_wifi :: "32 word" where "flag_wifi = push_bit 0 1"
definition flag_cellular :: "32 word" where "flag_cellular = push_bit 1 1"
definition flag_ethernet :: "32 word" where "flag_ethernet = push_bit 2 1"
definition flag_bluetooth :: "32 word" where "flag_bluetooth = push_bit 3 1"
definition flag_metered :: "32 word" where "flag_metered = push_bit 8 1"
definition flag_constrained :: "32 word" where "flag_constrained = push_bit 9 1"

definition flag_validated :: "32 word" where "flag_validated = push_bit 10 1"

definition no_network_handle :: "64 word" where
  "no_network_handle = - 1"

text \<open>\<open>net.FlagUp | net.FlagRunning | net.FlagMulticast\<close>.\<close>

definition default_if_flags :: "32 word" where
  "default_if_flags = 1 OR 32 OR 16"

record netif_snapshot =
  s_handle :: "64 word"
  s_if_index :: int
  s_mtu :: int
  s_flags :: "32 word"
  s_if_name :: string
  s_addrs :: string
  s_dns :: string

datatype interface_type = WIFI | Cellular | Ethernet | Other

text \<open>\<open>adapter.NetworkInterface\<close> embeds a \<open>control.Interface\<close>.\<close>

record control_interface =
  if_index :: int
  if_mtu :: int
  if_name :: string
  if_addresses :: "prefix list"
  if_flags :: "32 word"

record network_interface = control_interface +
  ni_type :: interface_type
  ni_dns :: "string list"
  ni_expensive :: bool
  ni_constrained :: bool

definition normalize_mtu :: "int \<Rightarrow> int" where
  "normalize_mtu mtu = (if mtu \<le> 0 then 1500 else mtu)"

definition interface_type_of :: "32 word \<Rightarrow> interface_type" where
  "interface_type_of flags =
     (if flags AND flag_wifi \<noteq> 0 then WIFI
      else if flags AND flag_cellular \<noteq> 0 then Cellular
      else if flags AND flag_ethernet \<noteq> 0 then Ethernet
      else Other)"

definition parse_prefixes :: "string \<Rightarrow> prefix list" where
  "parse_prefixes csv =
     (if csv = [] then []
      else concat (map (\<lambda>p. let p = trim_space p in
             if p = [] then [] else case parse_prefix p of Some x \<Rightarrow> [x] | None \<Rightarrow> [])
           (split_on (CHR '','') csv)))"

definition split_non_empty :: "string \<Rightarrow> string list" where
  "split_non_empty csv =
     (if csv = [] then []
      else concat (map (\<lambda>p. let p = trim_space p in if p \<noteq> [] then [p] else [])
           (split_on (CHR '','') csv)))"

definition build_network_interface :: "netif_snapshot \<Rightarrow> network_interface" where
  "build_network_interface s =
     \<lparr>if_index = s_if_index s, if_mtu = normalize_mtu (s_mtu s), if_name = s_if_name s,
      if_addresses = parse_prefixes (s_addrs s), if_flags = default_if_flags,
      ni_type = interface_type_of (s_flags s), ni_dns = split_non_empty (s_dns s),
      ni_expensive = (s_flags s AND flag_metered \<noteq> 0),
      ni_constrained = (s_flags s AND flag_constrained \<noteq> 0)\<rparr>"

section \<open>The registry\<close>

text \<open>Callbacks are named by the element of the list they were pushed as; network managers and
  the functions of the shim are numbers.\<close>

record registry =
  ifaces :: "64 word \<rightharpoonup> network_interface"
  default_iface :: "control_interface option"
  callbacks :: "nat list"
  next_element :: nat
  network_manager :: "nat option"
  protect_fn :: "nat option"
  replay_fn :: "nat option"

definition new_registry :: registry where
  "new_registry = \<lparr>ifaces = Map.empty, default_iface = None, callbacks = [], next_element = 0,
     network_manager = None, protect_fn = None, replay_fn = None\<rparr>"

datatype net_event =
    UpdateInterfaces nat
  | Callback nat "control_interface option" nat
  | CallProtect nat "32 word"
  | CallReplay nat

definition refresh_interfaces :: "nat option \<Rightarrow> net_event list" where
  "refresh_interfaces nm = (case nm of None \<Rightarrow> [] | Some n \<Rightarrow> [UpdateInterfaces n])"

definition update :: "netif_snapshot \<Rightarrow> registry \<Rightarrow> net_event list \<times> registry" where
  "update s r =
     (let iface = build_network_interface s
      in (refresh_interfaces (network_manager r), r\<lparr>ifaces := (ifaces r)(s_handle s \<mapsto> iface)\<rparr>))"

definition lost :: "64 word \<Rightarrow> registry \<Rightarrow> net_event list \<times> registry" where
  "lost h r =
     ((if ifaces r h \<noteq> None then refresh_interfaces (network_manager r) else []),
      r\<lparr>ifaces := (ifaces r)(h := None)\<rparr>)"

definition snapshot_callbacks :: "registry \<Rightarrow> nat list" where
  "snapshot_callbacks r = callbacks r"

text \<open>The default a change announces: none, the tracked network of that handle without its
  outer fields, or the little the announcement itself carries.\<close>

definition next_default :: "registry \<Rightarrow> netif_snapshot option \<Rightarrow> control_interface option" where
  "next_default r s =
     (case s of
        None \<Rightarrow> None
      | Some s \<Rightarrow>
          if s_handle s = no_network_handle then None
          else case ifaces r (s_handle s) of
              Some tracked \<Rightarrow> Some (control_interface.truncate tracked)
            | None \<Rightarrow> Some \<lparr>if_index = s_if_index s, if_mtu = normalize_mtu (s_mtu s),
                           if_name = s_if_name s, if_addresses = [], if_flags = default_if_flags\<rparr>)"

definition set_default :: "netif_snapshot option \<Rightarrow> registry \<Rightarrow> net_event list \<times> registry" where
  "set_default s r =
     (let nxt = next_default r s
      in (refresh_interfaces (network_manager r) @ map (\<lambda>cb. Callback cb nxt 0) (snapshot_callbacks r),
          r\<lparr>default_iface := nxt\<rparr>))"

definition reset :: "registry \<Rightarrow> net_event list \<times> registry" where
  "reset r =
     (refresh_interfaces (network_manager r) @ map (\<lambda>cb. Callback cb None 0) (snapshot_callbacks r),
      r\<lparr>ifaces := Map.empty, default_iface := None\<rparr>)"

definition set_platform :: "nat option \<Rightarrow> nat option \<Rightarrow> registry \<Rightarrow> registry" where
  "set_platform protect replay r = r\<lparr>protect_fn := protect, replay_fn := replay\<rparr>"

definition set_network_manager :: "nat option \<Rightarrow> registry \<Rightarrow> registry" where
  "set_network_manager nm r = r\<lparr>network_manager := nm\<rparr>"

text \<open>\<open>interfaces\<close> walks the map; Go leaves the order open, so the keys in that order are an
  argument.\<close>

definition interfaces :: "64 word list \<Rightarrow> registry \<Rightarrow> network_interface list" where
  "interfaces order r = concat (map (\<lambda>h. case ifaces r h of Some v \<Rightarrow> [v] | None \<Rightarrow> []) order)"

definition current_default :: "registry \<Rightarrow> control_interface option" where
  "current_default r = default_iface r"

definition register_callback :: "registry \<Rightarrow> nat \<times> registry" where
  "register_callback r =
     (next_element r, r\<lparr>callbacks := callbacks r @ [next_element r], next_element := Suc (next_element r)\<rparr>)"

definition unregister_callback :: "nat \<Rightarrow> registry \<Rightarrow> registry" where
  "unregister_callback e r = r\<lparr>callbacks := remove1 e (callbacks r)\<rparr>"

text \<open>The trampolines that call a function of the shim, with the calls they make and its answer; a
  function that is not there is not called.\<close>

definition ff_call_protect :: "(nat \<Rightarrow> 32 word \<Rightarrow> 32 word) \<Rightarrow> nat option \<Rightarrow> 32 word \<Rightarrow> net_event list \<times> 32 word" where
  "ff_call_protect shim fn fd = (case fn of None \<Rightarrow> ([], -1) | Some f \<Rightarrow> ([CallProtect f fd], shim f fd))"

definition ff_call_replay :: "nat option \<Rightarrow> net_event list" where
  "ff_call_replay fn = (case fn of None \<Rightarrow> [] | Some f \<Rightarrow> [CallReplay f])"

text \<open>The protection of a socket.\<close>

definition protect_fd :: "(nat \<Rightarrow> 32 word \<Rightarrow> 32 word) \<Rightarrow> int \<Rightarrow> registry \<Rightarrow> net_event list \<times> string option" where
  "protect_fd shim fd r =
     (let fn = protect_fn r
      in if fn = None then ([], None)
         else case ff_call_protect shim fn (word_of_int fd) of
             (es, rc) \<Rightarrow>
               (es, if rc \<noteq> 0 then Some (''VpnService.protect('' @ show_int fd @ '') failed: rc='' @ show_int (sint rc))
                    else None))"

definition request_replay :: "registry \<Rightarrow> net_event list" where
  "request_replay r = (let fn = replay_fn r in if fn \<noteq> None then ff_call_replay fn else [])"

lemma protect_fd_cases:
  "protect_fd shim fd r =
     (case protect_fn r of
        None \<Rightarrow> ([], None)
      | Some f \<Rightarrow> ([CallProtect f (word_of_int fd)],
          if shim f (word_of_int fd) = 0 then None
          else Some (''VpnService.protect('' @ show_int fd @ '') failed: rc='' @ show_int (sint (shim f (word_of_int fd))))))"
  by (simp add: protect_fd_def ff_call_protect_def Let_def split: option.splits)

lemma request_replay_cases: "request_replay r = (case replay_fn r of None \<Rightarrow> [] | Some f \<Rightarrow> [CallReplay f])"
  by (simp add: request_replay_def ff_call_replay_def Let_def split: option.splits)

section \<open>The exports\<close>

text \<open>\<open>FFNetworkInfo\<close> as the shim fills it; its strings end at a NUL byte.\<close>

record ff_network_info =
  net_handle :: "64 word"
  ff_if_index :: "32 word"
  ff_mtu :: "32 word"
  ff_flags :: "32 word"
  ff_if_name :: string
  ff_addresses :: string
  ff_dns_servers :: string

definition snapshot_from_c :: "ff_network_info \<Rightarrow> netif_snapshot" where
  "snapshot_from_c info =
     \<lparr>s_handle = net_handle info, s_if_index = sint (ff_if_index info), s_mtu = sint (ff_mtu info),
      s_flags = ff_flags info, s_if_name = c_string (ff_if_name info),
      s_addrs = c_string (ff_addresses info), s_dns = c_string (ff_dns_servers info)\<rparr>"

definition NetifUpdate :: "ff_network_info option \<Rightarrow> registry \<Rightarrow> net_event list \<times> registry" where
  "NetifUpdate info r = (case info of None \<Rightarrow> ([], r) | Some i \<Rightarrow> update (snapshot_from_c i) r)"

definition NetifLost :: "64 word \<Rightarrow> registry \<Rightarrow> net_event list \<times> registry" where
  "NetifLost h r = lost h r"

definition NetifDefaultChanged :: "ff_network_info option \<Rightarrow> registry \<Rightarrow> net_event list \<times> registry" where
  "NetifDefaultChanged info r =
     (case info of None \<Rightarrow> set_default None r | Some i \<Rightarrow> set_default (Some (snapshot_from_c i)) r)"

definition NetifReset :: "registry \<Rightarrow> net_event list \<times> registry" where
  "NetifReset r = reset r"

definition NetifRegisterPlatform :: "nat option \<Rightarrow> nat option \<Rightarrow> registry \<Rightarrow> net_event list \<times> registry" where
  "NetifRegisterPlatform protect replay r = ([], set_platform protect replay r)"

text \<open>The calls of the platform thread, one after the other.\<close>

datatype platform_call =
    Update "ff_network_info option"
  | Lost "64 word"
  | DefaultChanged "ff_network_info option"
  | Reset
  | RegisterPlatform "nat option" "nat option"

fun downcall :: "platform_call \<Rightarrow> registry \<Rightarrow> net_event list \<times> registry" where
  "downcall (Update i) r = NetifUpdate i r"
| "downcall (Lost h) r = NetifLost h r"
| "downcall (DefaultChanged i) r = NetifDefaultChanged i r"
| "downcall Reset r = NetifReset r"
| "downcall (RegisterPlatform p q) r = NetifRegisterPlatform p q r"

fun downcalls :: "platform_call list \<Rightarrow> registry \<Rightarrow> net_event list \<times> registry" where
  "downcalls [] r = ([], r)"
| "downcalls (c # cs) r =
     (case downcall c r of (es, r') \<Rightarrow> (case downcalls cs r' of (es', r'') \<Rightarrow> (es @ es', r'')))"

section \<open>What the core asks\<close>

text \<open>\<open>withPlatformInterface\<close>: on Android the platform that refers to the engine goes into the context
  of the core, by a function of its library; elsewhere the context stays as it is.\<close>

record 'e android_platform =
  ap_engine :: 'e

definition with_platform_interface ::
  "('ctx \<Rightarrow> 'e android_platform \<Rightarrow> 'ctx) \<Rightarrow> 'ctx \<Rightarrow> 'e \<Rightarrow> 'ctx" where
  "with_platform_interface context_with ctx e = context_with ctx \<lparr>ap_engine = e\<rparr>"

definition with_platform_interface_other :: "'ctx \<Rightarrow> 'e \<Rightarrow> 'ctx" where
  "with_platform_interface_other ctx e = ctx"

text \<open>\<open>OpenTun\<close>: a tunnel of the core over the descriptor that was set, written into its options,
  or \<open>os.ErrInvalid\<close>.\<close>

record 'o tun_options =
  to_descriptor :: int
  to_rest :: 'o

definition open_tun ::
  "('o tun_options \<Rightarrow> 't result) \<Rightarrow> engine android_platform \<Rightarrow> 'o tun_options \<Rightarrow> 't result \<times> 'o tun_options" where
  "open_tun tun_new p options =
     (let fd = sint (tun_fd (ap_engine p))
      in if fd < 0 then (Inl ''invalid argument'', options)
         else let options = options\<lparr>to_descriptor := fd\<rparr> in (tun_new options, options))"

definition auto_detect_interface_control :: "(nat \<Rightarrow> 32 word \<Rightarrow> 32 word) \<Rightarrow> int \<Rightarrow> registry \<Rightarrow> net_event list \<times> string option" where
  "auto_detect_interface_control shim fd r = protect_fd shim fd r"

definition initialize :: "nat option \<Rightarrow> registry \<Rightarrow> string option \<times> registry" where
  "initialize nm r = (None, set_network_manager nm r)"

definition monitor_start :: "registry \<Rightarrow> net_event list \<times> string option" where
  "monitor_start r = (request_replay r, None)"

text \<open>The monitor and the getter of the core keep no state: they hand on to the registry.\<close>

definition monitor_default_interface :: "registry \<Rightarrow> control_interface option" where
  "monitor_default_interface r = current_default r"

definition monitor_register_callback :: "registry \<Rightarrow> nat \<times> registry" where
  "monitor_register_callback r = register_callback r"

definition monitor_unregister_callback :: "nat \<Rightarrow> registry \<Rightarrow> registry" where
  "monitor_unregister_callback e r = unregister_callback e r"

definition platform_interfaces :: "64 word list \<Rightarrow> registry \<Rightarrow> network_interface list result" where
  "platform_interfaces order r = Inr (interfaces order r)"

text \<open>What the platform answers always: the core takes the protection of sockets, the monitor and
  the list of interfaces from it, and nothing else.\<close>

definition use_platform_auto_detect_interface_control :: bool where
  "use_platform_auto_detect_interface_control = True"

definition use_platform_default_interface_monitor :: bool where
  "use_platform_default_interface_monitor = True"

definition use_platform_interface_getter :: bool where
  "use_platform_interface_getter = True"

definition override_android_vpn :: bool where "override_android_vpn = False"
definition android_vpn_enabled :: bool where "android_vpn_enabled = False"
definition under_network_extension :: bool where "under_network_extension = False"
definition include_all_networks :: bool where "include_all_networks = False"

definition monitor_close :: "registry \<Rightarrow> string option \<times> registry" where
  "monitor_close r = (None, r)"

definition find_process_info :: "string \<Rightarrow> 'addr \<Rightarrow> 'addr \<Rightarrow> 'info result" where
  "find_process_info network source destination = Inl ''invalid argument''"

definition send_notification :: "'n \<Rightarrow> string option" where
  "send_notification n = None"

section \<open>Keyed stores\<close>

text \<open>What a client relies on in a store that a stream of changes feeds: an insertion binds the
  key of its item, a deletion unbinds its key, and both leave the other keys alone. After any
  stream, a key then has the value of the last change that concerns it.\<close>

datatype ('a, 'k) change = Put 'a | Del 'k

fun last_change :: "('a \<Rightarrow> 'k) \<Rightarrow> ('a, 'k) change list \<Rightarrow> 'k \<Rightarrow> 'a option option" where
  "last_change key [] k = None"
| "last_change key (c # cs) k =
     (case last_change key cs k of
        Some x \<Rightarrow> Some x
      | None \<Rightarrow> (case c of Put a \<Rightarrow> (if key a = k then Some (Some a) else None)
                | Del j \<Rightarrow> (if j = k then Some None else None)))"

locale keyed_store =
  fixes lookup :: "'s \<Rightarrow> 'k \<Rightarrow> 'v option"
    and put :: "'a \<Rightarrow> 's \<Rightarrow> 's"
    and del :: "'k \<Rightarrow> 's \<Rightarrow> 's"
    and key :: "'a \<Rightarrow> 'k"
    and val :: "'a \<Rightarrow> 'v"
  assumes lookup_put: "lookup (put a s) k = (if k = key a then Some (val a) else lookup s k)"
    and lookup_del: "lookup (del j s) k = (if k = j then None else lookup s k)"
begin

definition apply_change :: "('a, 'k) change \<Rightarrow> 's \<Rightarrow> 's" where
  "apply_change c s = (case c of Put a \<Rightarrow> put a s | Del k \<Rightarrow> del k s)"

lemma lookup_changes:
  "lookup (fold apply_change cs s) k =
     (case last_change key cs k of None \<Rightarrow> lookup s k | Some x \<Rightarrow> map_option val x)"
proof (induction cs arbitrary: s)
  case (Cons c cs)
  then show ?case
    by (cases c) (auto simp: apply_change_def lookup_put lookup_del split: option.splits)
qed simp

end

definition put_network :: "netif_snapshot \<Rightarrow> registry \<Rightarrow> registry" where
  "put_network s r = snd (update s r)"

definition del_network :: "64 word \<Rightarrow> registry \<Rightarrow> registry" where
  "del_network h r = snd (lost h r)"

interpretation netif: keyed_store ifaces put_network del_network s_handle build_network_interface
  by unfold_locales (simp_all add: put_network_def del_network_def update_def lost_def Let_def)

text \<open>The changes a platform call makes to the tracked networks.\<close>

fun changes :: "platform_call list \<Rightarrow> (netif_snapshot, 64 word) change list" where
  "changes [] = []"
| "changes (Update (Some i) # cs) = Put (snapshot_from_c i) # changes cs"
| "changes (Lost h # cs) = Del h # changes cs"
| "changes (_ # cs) = changes cs"

lemma downcall_ifaces:
  "c \<noteq> Reset \<Longrightarrow> ifaces (snd (downcall c r)) = ifaces (fold netif.apply_change (changes [c]) r)"
  by (cases c)
    (auto simp: netif.apply_change_def put_network_def del_network_def NetifUpdate_def NetifLost_def NetifDefaultChanged_def
      NetifRegisterPlatform_def set_default_def set_platform_def Let_def split: option.splits)

lemma apply_change_cong:
  "ifaces r = ifaces r' \<Longrightarrow> ifaces (netif.apply_change c r) = ifaces (netif.apply_change c r')"
  by (cases c)
    (simp_all add: netif.apply_change_def put_network_def del_network_def update_def lost_def Let_def)

lemma fold_change_cong:
  "ifaces r = ifaces r' \<Longrightarrow> ifaces (fold netif.apply_change cs r) = ifaces (fold netif.apply_change cs r')"
proof (induction cs arbitrary: r r')
  case (Cons c cs)
  from Cons.IH [OF apply_change_cong [OF Cons.prems]] show ?case by simp
qed simp

lemma changes_Cons: "changes (c # cs) = changes [c] @ changes cs"
proof (cases c)
  case (Update i)
  then show ?thesis by (cases i) simp_all
qed simp_all

lemma downcalls_ifaces:
  "Reset \<notin> set cs \<Longrightarrow> ifaces (snd (downcalls cs r)) = ifaces (fold netif.apply_change (changes cs) r)"
proof (induction cs arbitrary: r)
  case (Cons c cs)
  obtain es r' where d: "downcall c r = (es, r')" by fastforce
  have c: "c \<noteq> Reset" using Cons.prems by auto
  have "ifaces (snd (downcalls (c # cs) r)) = ifaces (snd (downcalls cs r'))"
    by (simp add: d split: prod.splits)
  also have "\<dots> = ifaces (fold netif.apply_change (changes cs) r')" using Cons by simp
  also have "\<dots> = ifaces (fold netif.apply_change (changes cs) (fold netif.apply_change (changes [c]) r))"
    using downcall_ifaces [OF c, of r] d by (intro fold_change_cong) simp
  finally show ?case by (simp add: changes_Cons [of c cs])
qed simp

section \<open>Callbacks\<close>

definition callbacks_inv :: "registry \<Rightarrow> bool" where
  "callbacks_inv r \<longleftrightarrow> distinct (callbacks r) \<and> (\<forall>e \<in> set (callbacks r). e < next_element r)"

lemma register_inv: "callbacks_inv r \<Longrightarrow> callbacks_inv (snd (register_callback r))"
  by (auto simp: callbacks_inv_def register_callback_def less_Suc_eq)

lemma unregister_inv: "callbacks_inv r \<Longrightarrow> callbacks_inv (unregister_callback e r)"
  by (auto simp: callbacks_inv_def unregister_callback_def)

text \<open>The calls of one callback, and the defaults that a stream of platform calls announces.\<close>

definition calls_cb :: "nat \<Rightarrow> net_event \<Rightarrow> bool" where
  "calls_cb e ev = (case ev of Callback e' d n \<Rightarrow> e' = e | _ \<Rightarrow> False)"

definition announced_by :: "platform_call \<Rightarrow> registry \<Rightarrow> control_interface option list" where
  "announced_by c r =
     (case c of DefaultChanged i \<Rightarrow> [current_default (snd (downcall c r))]
      | Reset \<Rightarrow> [current_default (snd (downcall c r))] | _ \<Rightarrow> [])"

fun announced :: "platform_call list \<Rightarrow> registry \<Rightarrow> control_interface option list" where
  "announced [] r = []"
| "announced (c # cs) r = announced_by c r @ announced cs (snd (downcall c r))"

lemma calls_refresh [simp]: "filter (calls_cb e) (refresh_interfaces nm) = []"
  by (simp add: refresh_interfaces_def calls_cb_def split: option.splits)

lemma calls_map [simp]:
  "filter (calls_cb e) (map (\<lambda>cb. Callback cb d 0) cs) = replicate (count_list cs e) (Callback e d 0)"
  by (induction cs) (auto simp: calls_cb_def)

lemma downcall_callbacks: "callbacks (snd (downcall c r)) = callbacks r"
  by (cases c) (auto simp: NetifUpdate_def NetifLost_def NetifDefaultChanged_def NetifReset_def
      NetifRegisterPlatform_def update_def lost_def set_default_def reset_def set_platform_def Let_def
      split: option.splits)

lemma downcall_calls:
  "filter (calls_cb e) (fst (downcall c r))
     = concat (map (\<lambda>d. replicate (count_list (callbacks r) e) (Callback e d 0)) (announced_by c r))"
  by (cases c) (auto simp: NetifUpdate_def NetifLost_def NetifDefaultChanged_def NetifReset_def
      NetifRegisterPlatform_def update_def lost_def set_default_def reset_def set_platform_def
      snapshot_callbacks_def announced_by_def current_default_def Let_def split: option.splits)

lemma downcalls_callbacks: "callbacks (snd (downcalls cs r)) = callbacks r"
proof (induction cs arbitrary: r)
  case (Cons c cs)
  then show ?case using downcall_callbacks [of c r] by (simp split: prod.splits) (metis snd_conv)
qed simp

lemma downcalls_calls:
  "filter (calls_cb e) (fst (downcalls cs r))
     = concat (map (\<lambda>d. replicate (count_list (callbacks r) e) (Callback e d 0)) (announced cs r))"
proof (induction cs arbitrary: r)
  case (Cons c cs)
  obtain es r' where d: "downcall c r = (es, r')" by fastforce
  then have "callbacks r' = callbacks r" using downcall_callbacks [of c r] by simp
  then show ?case
    using Cons [of r'] downcall_calls [of e c r] d by (cases "downcalls cs r'") simp
qed simp

section \<open>Address lists\<close>

definition prefix_text :: "ip \<Rightarrow> nat \<Rightarrow> string" where
  "prefix_text q n = show_ipv4 q @ CHR ''/'' # show_nat n"

lemma quad_char_plain: "quad_char c \<Longrightarrow> plain_char c \<and> c \<noteq> CHR '','' \<and> c \<noteq> CHR ''/''"
  by (auto simp: quad_char_def is_digit_def plain_char_def)

lemma prefix_text_chars: "\<forall>c \<in> set (prefix_text q n). plain_char c \<and> c \<noteq> CHR '',''"
  using show_ipv4_chars [of q] show_nat_digits [of n] quad_char_plain
  by (auto simp: prefix_text_def plain_char_def is_digit_def)

lemma parse_prefix_text:
  assumes "length q = 4" "n \<le> 32"
  shows "parse_prefix (prefix_text q n) = Some (Addr4 q, n)"
proof -
  have d: "CHR ''/'' \<notin> set (rev (show_nat n))"
    using show_nat_digits [of n] by (auto simp: is_digit_def)
  have r: "rev (prefix_text q n) = rev (show_nat n) @ CHR ''/'' # rev (show_ipv4 q)"
    by (simp add: prefix_text_def)
  have t: "takeWhile (\<lambda>c. c \<noteq> CHR ''/'') (rev (prefix_text q n)) = rev (show_nat n)"
    "dropWhile (\<lambda>c. c \<noteq> CHR ''/'') (rev (prefix_text q n)) = CHR ''/'' # rev (show_ipv4 q)"
    unfolding r by (rule split_at_stop [OF d])+
  have z: "\<not> (1 < length (show_nat n) \<and> hd (show_nat n) = CHR ''0'')"
  proof
    assume a: "1 < length (show_nat n) \<and> hd (show_nat n) = CHR ''0''"
    then have "n = 0" using show_nat_leading by blast
    with a show False by (simp add: show_nat_one_digit)
  qed
  have l: "list_all is_digit (show_nat n)" using show_nat_digits by (simp add: list_all_iff)
  have "CHR ''/'' \<in> set (prefix_text q n)" by (simp add: prefix_text_def)
  then show ?thesis
    unfolding parse_prefix_def t using assms z l by (simp add: parse_addr_show_ipv4 Let_def)
qed

lemma join_ne: "ps \<noteq> [] \<Longrightarrow> [] \<notin> set ps \<Longrightarrow> join_with d ps \<noteq> []"
  by (cases "(d, ps)" rule: join_with.cases) auto

lemma concat_map_single: "\<forall>p \<in> set ps. f p = [g p] \<Longrightarrow> concat (map f ps) = map g ps"
  by (induction ps) simp_all

lemma split_joined:
  assumes "\<forall>p \<in> set ps. p \<noteq> [] \<and> (\<forall>c \<in> set p. plain_char c \<and> c \<noteq> CHR '','')"
  shows "split_non_empty (join_with (CHR '','') ps) = ps"
proof (cases "ps = []")
  case False
  have s: "split_on (CHR '','') (join_with (CHR '','') ps) = ps"
    using False assms by (intro split_join) blast+
  have "\<forall>p \<in> set ps. (let p = trim_space p in if p \<noteq> [] then [p] else []) = [p]"
    using assms by (simp add: Let_def)
  from concat_map_single [OF this] have "concat (map (\<lambda>p. let p = trim_space p in if p \<noteq> [] then [p] else []) ps) = ps"
    by simp
  moreover have "[] \<notin> set ps" using assms by blast
  ultimately show ?thesis
    using False join_ne [of ps "CHR '',''"] by (simp add: split_non_empty_def s)
qed (simp add: split_non_empty_def)

lemma parse_joined:
  assumes "\<forall>(q, n) \<in> set ps. length q = 4 \<and> n \<le> 32"
  shows "parse_prefixes (join_with (CHR '','') (map (\<lambda>(q, n). prefix_text q n) ps)) = map (\<lambda>(q, n). (Addr4 q, n)) ps"
proof (cases "ps = []")
  case False
  let ?t = "map (\<lambda>(q, n). prefix_text q n) ps"
  have s: "split_on (CHR '','') (join_with (CHR '','') ?t) = ?t"
    using False prefix_text_chars by (intro split_join) (auto split: prod.splits)
  have ne: "prefix_text q n \<noteq> []" for q n by (simp add: prefix_text_def)
  have tr: "trim_space (prefix_text q n) = prefix_text q n" for q n
    using prefix_text_chars by (intro trim_space_plain) blast
  have "\<forall>x \<in> set ps. (let p = trim_space (case x of (q, n) \<Rightarrow> prefix_text q n) in
        if p = [] then [] else case parse_prefix p of Some x \<Rightarrow> [x] | None \<Rightarrow> [])
      = [case x of (q, n) \<Rightarrow> (Addr4 q, n)]"
    using assms by (auto simp: tr ne parse_prefix_text Let_def)
  from concat_map_single [OF this] have
    "concat (map (\<lambda>p. let p = trim_space p in if p = [] then [] else case parse_prefix p of Some x \<Rightarrow> [x] | None \<Rightarrow> []) ?t)
      = map (\<lambda>(q, n). (Addr4 q, n)) ps"
    by (simp add: comp_def)
  moreover have "join_with (CHR '','') ?t \<noteq> []" using False by (intro join_ne) (auto dest: sym simp: ne)
  ultimately show ?thesis by (simp add: parse_prefixes_def s)
qed (simp add: parse_prefixes_def)

section \<open>Properties\<close>

text \<open>C24. After the platform monitor restarted, the tracked networks are what it reported since:
  a handle is tracked with the data of its last update unless it was lost after it, and nothing
  from before the reset is left, whatever default changes and registrations come in between.\<close>

theorem tracked_networks:
  assumes "Reset \<notin> set cs"
  shows "ifaces (snd (downcalls (Reset # cs) r)) h =
    (case last_change s_handle (changes cs) h of
       Some (Some s) \<Rightarrow> Some (build_network_interface s)
     | _ \<Rightarrow> None)"
proof -
  have "snd (downcalls (Reset # cs) r) = snd (downcalls cs (snd (reset r)))"
    by (simp add: NetifReset_def split: prod.split)
  then have "ifaces (snd (downcalls (Reset # cs) r)) = ifaces (fold netif.apply_change (changes cs) (snd (reset r)))"
    using downcalls_ifaces [OF assms] by simp
  then show ?thesis
    by (simp add: netif.lookup_changes reset_def split: option.splits)
qed

definition wifi_info :: ff_network_info where
  "wifi_info = \<lparr>net_handle = 432, ff_if_index = 12, ff_mtu = 0, ff_flags = 1, ff_if_name = ''wlan0'',
     ff_addresses = [], ff_dns_servers = []\<rparr>"

theorem tracked_networks_witness:
  "ifaces (snd (downcalls [Reset, Lost 7, Update (Some wifi_info), Lost 8] new_registry)) 432
     = Some (build_network_interface (snapshot_from_c wifi_info))"
  using tracked_networks [of "[Lost 7, Update (Some wifi_info), Lost 8]" new_registry 432]
  by (simp add: snapshot_from_c_def wifi_info_def)

text \<open>A default change makes the default none when the platform reports none, else the
  tracked network of that handle, else what the report itself carries; it refreshes the network
  manager once and then calls every registered callback once, in the order of registration, with
  the new default, which is also what the monitor answers from then on.\<close>

lemma default_change:
  "set_default s r =
    (refresh_interfaces (network_manager r)
       @ map (\<lambda>cb. Callback cb (current_default (snd (set_default s r))) 0) (callbacks r),
     r\<lparr>default_iface := current_default (snd (set_default s r))\<rparr>)
   \<and> current_default (snd (set_default s r)) =
      (if s = None \<or> map_option s_handle s = Some no_network_handle then None
       else case ifaces r (s_handle (the s)) of
           Some n \<Rightarrow> Some (control_interface.truncate n)
         | None \<Rightarrow> Some \<lparr>if_index = s_if_index (the s), if_mtu = normalize_mtu (s_mtu (the s)),
                        if_name = s_if_name (the s), if_addresses = [], if_flags = default_if_flags\<rparr>)"
  by (auto simp: set_default_def next_default_def current_default_def snapshot_callbacks_def Let_def
      split: option.splits)

text \<open>The default network is a copy: later updates and losses of networks, that of the
  default itself included, neither change what the monitor answers nor call any callback.\<close>

lemma default_is_a_copy:
  "current_default (snd (update s r)) = current_default r
   \<and> current_default (snd (lost h r)) = current_default r
   \<and> set (fst (update s r)) \<subseteq> set (refresh_interfaces (network_manager r))
   \<and> set (fst (lost h r)) \<subseteq> set (refresh_interfaces (network_manager r))"
  by (auto simp: update_def lost_def current_default_def Let_def)

text \<open>Protecting a socket fails closed once the shim is bound: no error is returned exactly
  when the shim was asked for that descriptor and answered zero, or no shim is bound.\<close>

lemma protect_fails_closed:
  "snd (protect_fd shim fd r) = None \<longleftrightarrow>
     (case protect_fn r of
        None \<Rightarrow> fst (protect_fd shim fd r) = []
      | Some fn \<Rightarrow> fst (protect_fd shim fd r) = [CallProtect fn (word_of_int fd)] \<and> shim fn (word_of_int fd) = 0)"
  by (simp add: protect_fd_cases split: option.splits)

text \<open>C25. A callback that is registered is called exactly once for every default change and every
  reset that follows, in their order and with the default they announce, until it is
  unregistered; after that no platform call reaches it.\<close>

theorem callback_lifetime:
  assumes "callbacks_inv r" "register_callback r = (e, r')"
  shows "filter (calls_cb e) (fst (downcalls cs r')) = map (\<lambda>d. Callback e d 0) (announced cs r')
    \<and> filter (calls_cb e) (fst (downcalls ds (unregister_callback e (snd (downcalls cs r'))))) = []"
proof -
  have e: "e \<notin> set (callbacks r)" "callbacks r' = callbacks r @ [e]"
    using assms by (auto simp: callbacks_inv_def register_callback_def)
  then have one: "count_list (callbacks r') e = 1" by (simp add: count_list_0_iff)
  have "callbacks (unregister_callback e (snd (downcalls cs r'))) = callbacks r"
    using e by (simp add: unregister_callback_def downcalls_callbacks remove1_append)
  then have "count_list (callbacks (unregister_callback e (snd (downcalls cs r')))) e = 0"
    using e by (simp add: count_list_0_iff)
  moreover have "concat (map (\<lambda>d. [Callback e d 0]) xs) = map (\<lambda>d. Callback e d 0) xs" for xs
    by (induction xs) auto
  ultimately show ?thesis using one by (simp add: downcalls_calls)
qed

theorem callback_lifetime_witness:
  "filter (calls_cb 0) (fst (downcalls [DefaultChanged None, Lost 4, Reset] (snd (register_callback new_registry))))
     = [Callback 0 None 0, Callback 0 None 0]"
proof -
  have "callbacks_inv new_registry" by (simp add: callbacks_inv_def new_registry_def)
  moreover have "register_callback new_registry = (0, snd (register_callback new_registry))"
    by (simp add: register_callback_def new_registry_def)
  ultimately have "filter (calls_cb 0) (fst (downcalls [DefaultChanged None, Lost 4, Reset] (snd (register_callback new_registry))))
      = map (\<lambda>d. Callback 0 d 0) (announced [DefaultChanged None, Lost 4, Reset] (snd (register_callback new_registry)))"
    using callback_lifetime by blast
  then show ?thesis
    by (simp add: announced_by_def current_default_def NetifDefaultChanged_def NetifReset_def NetifLost_def
        set_default_def next_default_def reset_def lost_def Let_def)
qed

text \<open>The addresses and servers the platform joins with commas are read back: every IPv4
  prefix and every server, in order and nothing else, and the maximum unit is never zero.\<close>

lemma snapshot_lists_read_back:
  assumes "\<forall>(q, n) \<in> set ps. length q = 4 \<and> n \<le> 32"
    and "\<forall>d \<in> set ds. d \<noteq> [] \<and> (\<forall>c \<in> set d. plain_char c \<and> c \<noteq> CHR '','')"
    and "s_addrs s = join_with (CHR '','') (map (\<lambda>(q, n). prefix_text q n) ps)"
    and "s_dns s = join_with (CHR '','') ds"
  shows "if_addresses (build_network_interface s) = map (\<lambda>(q, n). (Addr4 q, n)) ps
    \<and> ni_dns (build_network_interface s) = ds \<and> 0 < if_mtu (build_network_interface s)"
  using assms parse_joined [OF assms(1)] split_joined [OF assms(2)]
  by (simp add: build_network_interface_def normalize_mtu_def)

text \<open>The descriptor is left alone by starting and stopping.\<close>

lemma tun_fd_simps [simp]:
  "tun_fd (set_error m e) = tun_fd e" "tun_fd (cancel_ctx n e) = tun_fd e"
  by (simp_all add: set_error_def cancel_ctx_def)

lemma tun_fd_cleanup: "force_cleanup c e = Done e' \<Longrightarrow> tun_fd e' = tun_fd e"
  by (auto simp: force_cleanup_def run_bind_Done split: option.splits close_outcome.splits)

lemma tun_fd_recovered: "recovered c m e = Done (r, e') \<Longrightarrow> tun_fd e' = tun_fd e"
  by (auto simp: recovered_def Let_def run_bind_Done dest: tun_fd_cleanup)

lemma tun_fd_finish: "start_finish c n e = Done (r, e') \<Longrightarrow> tun_fd e' = tun_fd e"
  by (auto simp: start_finish_def Let_def split: outcome.splits dest: tun_fd_recovered)

lemma tun_fd_box: "start_box c n e = Done (r, e') \<Longrightarrow> tun_fd e' = tun_fd e"
  by (auto simp: start_box_def failed_def split: outcome.splits close_outcome.splits
      dest: tun_fd_finish tun_fd_recovered)

lemma tun_fd_start: "start c config e = Done (r, e') \<Longrightarrow> tun_fd e' = tun_fd e"
  by (auto simp: start_def failed_def Let_def split: if_splits outcome.splits
      dest!: tun_fd_box tun_fd_recovered)

lemma tun_fd_stop: "stop c e = Done e' \<Longrightarrow> tun_fd e' = tun_fd e"
  by (auto simp: stop_def run_bind_Done split: if_splits dest!: tun_fd_cleanup)

lemma tun_fd_calls:
  "engine_calls c ks e = Done e' \<Longrightarrow> (\<forall>fd. CallSetTunFd fd \<notin> set ks) \<Longrightarrow> tun_fd e' = tun_fd e"
proof (induction ks arbitrary: e)
  case (Cons k ks)
  from Cons.prems(1) obtain e1 where e1: "engine_call c k e = Done e1" "engine_calls c ks e1 = Done e'"
    by (auto simp: run_bind_Done)
  have "tun_fd e1 = tun_fd e"
    using e1(1) Cons.prems(2)
    by (cases k) (auto simp: run_bind_Done StartEngine_Done StopEngine_def close_ends_def split: if_splits close_outcome.splits
        dest: tun_fd_start tun_fd_stop)
  with Cons e1(2) show ?case by auto
qed simp

text \<open>The core opens its tunnel over the descriptor that was set last, however many starts and
  stops came between, and over none before one is set or after it was cleared.\<close>

lemma open_tun_descriptor:
  assumes "engine_calls c (CallSetTunFd fd # ks) e = Done e'" "\<forall>f. CallSetTunFd f \<notin> set ks"
  shows "open_tun tun_new \<lparr>ap_engine = e'\<rparr> options =
      (if sint fd < 0 then (Inl ''invalid argument'', options)
       else (tun_new (options\<lparr>to_descriptor := sint fd\<rparr>), options\<lparr>to_descriptor := sint fd\<rparr>))
    \<and> open_tun tun_new \<lparr>ap_engine = new_engine\<rparr> options = (Inl ''invalid argument'', options)"
proof -
  from assms(1) have "engine_calls c ks (SetTunFd fd e) = Done e'" by simp
  from tun_fd_calls [OF this assms(2)] have "tun_fd e' = fd" by (simp add: SetTunFd_def)
  then show ?thesis by (simp add: open_tun_def new_engine_def Let_def)
qed

end
