(* ===== verification/Netif_Threads.thy ===== *)
theory Netif_Threads
  imports Netif
begin

text \<open>
  The registry of networks under the threads that use it (\<open>netifRegistry\<close> of
  vpn_engine/platform_android.go): the exports run on the threads of the platform, the core
  registers callbacks and asks for protection on its own. An operation changes the registry in
  one section under the mutex, which also collects what to call; the calls are made one by one
  after the mutex was released, so those of different threads interleave. Here a section is one
  step; \<open>Netif_Locks\<close> has the statements and the mutex, and shows that it may be.
\<close>

section \<open>Operations\<close>

datatype net_op =
    Platform platform_call
  | Register
  | Unregister nat
  | SetManager "nat option"
  | Protect int
  | Replay
  | AskDefault
  | AskInterfaces "64 word list"

text \<open>The section under the mutex, with the calls to make after it. The answer of the shim only
  matters to the caller of \<open>protectFd\<close>.\<close>

fun locked :: "net_op \<Rightarrow> registry \<Rightarrow> net_event list \<times> registry" where
  "locked (Platform c) r = downcall c r"
| "locked Register r = ([], snd (monitor_register_callback r))"
| "locked (Unregister e) r = ([], monitor_unregister_callback e r)"
| "locked (SetManager nm) r = ([], snd (initialize nm r))"
| "locked (Protect fd) r = (fst (auto_detect_interface_control (\<lambda>_ _. 0) fd r), r)"
| "locked Replay r = (fst (monitor_start r), r)"
| "locked AskDefault r = ([], r)"
| "locked (AskInterfaces order) r = ([], r)"

lemma protect_calls: "fst (auto_detect_interface_control shim fd r) = fst (locked (Protect fd) r)"
  by (simp add: auto_detect_interface_control_def protect_fd_cases split: option.splits)

section \<open>Threads\<close>

text \<open>The calls a thread still has to make, the calls made so far and the operations in the order
  in which they held the mutex, both with their thread. A callback that uses the registry itself
  counts as another thread.\<close>

record net_threads =
  nt_registry :: registry
  nt_pending :: "nat \<rightharpoonup> net_event list"
  nt_made :: "(nat \<times> net_event) list"
  nt_ops :: "(nat \<times> net_op) list"

definition new_threads :: net_threads where
  "new_threads = \<lparr>nt_registry = new_registry, nt_pending = Map.empty, nt_made = [], nt_ops = []\<rparr>"

inductive net_step :: "net_threads \<Rightarrow> net_threads \<Rightarrow> bool" where
  enter: "nt_pending n t = None \<Longrightarrow> locked op (nt_registry n) = (es, r) \<Longrightarrow>
    net_step n (n\<lparr>nt_registry := r, nt_pending := (nt_pending n)(t \<mapsto> es), nt_ops := nt_ops n @ [(t, op)]\<rparr>)"
| make_call: "nt_pending n t = Some (e # es) \<Longrightarrow>
    net_step n (n\<lparr>nt_pending := (nt_pending n)(t \<mapsto> es), nt_made := nt_made n @ [(t, e)]\<rparr>)"
| leave: "nt_pending n t = Some [] \<Longrightarrow> net_step n (n\<lparr>nt_pending := (nt_pending n)(t := None)\<rparr>)"

inductive net_reach :: "net_threads \<Rightarrow> bool" where
  net_new: "net_reach new_threads"
| net_next: "net_reach n \<Longrightarrow> net_step n n' \<Longrightarrow> net_reach n'"

inductive_cases net_stepE: "net_step n n'"

interpretation net_runs: runs new_threads net_step net_reach
  by unfold_locales (rule net_new, erule (1) net_next, erule net_reach.induct, blast+)

section \<open>The sequential registry\<close>

fun run_ops :: "(nat \<times> net_op) list \<Rightarrow> registry \<Rightarrow> (nat \<times> net_event) list \<times> registry" where
  "run_ops [] r = ([], r)"
| "run_ops ((t, op) # ops) r =
     (case locked op r of (es, r') \<Rightarrow> (case run_ops ops r' of (fs, r'') \<Rightarrow> (map (Pair t) es @ fs, r'')))"

lemma run_ops_append:
  "run_ops (xs @ ys) r =
     (case run_ops xs r of (es, r') \<Rightarrow> (case run_ops ys r' of (fs, r'') \<Rightarrow> (es @ fs, r'')))"
  by (induction xs r rule: run_ops.induct) (auto split: prod.splits)

definition of_thread :: "nat \<Rightarrow> (nat \<times> 'a) list \<Rightarrow> 'a list" where
  "of_thread t xs = map snd (filter (\<lambda>x. fst x = t) xs)"

lemma of_thread_simps [simp]:
  "of_thread t [] = []" "of_thread t ((u, e) # xs) = (if u = t then e # of_thread t xs else of_thread t xs)"
  "of_thread t (xs @ ys) = of_thread t xs @ of_thread t ys"
  "of_thread t (map (Pair u) es) = (if u = t then es else [])"
  by (simp_all add: of_thread_def filter_map comp_def)

definition to_make :: "net_threads \<Rightarrow> nat \<Rightarrow> net_event list" where
  "to_make n t = (case nt_pending n t of None \<Rightarrow> [] | Some es \<Rightarrow> es)"

text \<open>The registry is that of the operations one after the other, and so are the calls of every
  thread.\<close>

definition linear :: "net_threads \<Rightarrow> bool" where
  "linear n \<longleftrightarrow> nt_registry n = snd (run_ops (nt_ops n) new_registry)
     \<and> (\<forall>t. of_thread t (nt_made n) @ to_make n t = of_thread t (fst (run_ops (nt_ops n) new_registry)))"

lemma linear_step:
  assumes "net_step n n'" "linear n"
  shows "linear n'"
proof -
  obtain fs r0 where o: "run_ops (nt_ops n) new_registry = (fs, r0)" by fastforce
  with assms(2) have reg: "nt_registry n = r0"
      and calls: "\<And>u. of_thread u (nt_made n) @ to_make n u = of_thread u fs"
    by (simp_all add: linear_def)
  from assms(1) show ?thesis
  proof (cases rule: net_step.cases)
    case (enter t op es r)
    have "of_thread u (nt_made n) @ to_make n' u = of_thread u (fs @ map (Pair t) es)" for u
      using calls [of u] enter by (cases "u = t") (simp_all add: to_make_def)
    with enter o reg show ?thesis by (simp add: linear_def run_ops_append)
  next
    case (make_call t e es)
    have "of_thread u (nt_made n') @ to_make n' u = of_thread u fs" for u
      using calls [of u] make_call by (cases "u = t") (simp_all add: to_make_def)
    with make_call o reg show ?thesis by (simp add: linear_def)
  next
    case (leave t)
    have "of_thread u (nt_made n') @ to_make n' u = of_thread u fs" for u
      using calls [of u] leave by (cases "u = t") (simp_all add: to_make_def)
    with leave o reg show ?thesis by (simp add: linear_def)
  qed
qed

lemma reach_linear: "net_reach n \<Longrightarrow> linear n"
  by (rule net_runs.run_invariant [OF _ linear_step]) (simp_all add: linear_def new_threads_def to_make_def)

section \<open>Well-formed networks\<close>

text \<open>What the core can rely on in a network it is told about: a usable transmission unit, the
  flags of a running interface, prefixes whose length fits their address, and named servers.\<close>

definition prefix_ok :: "prefix \<Rightarrow> bool" where
  "prefix_ok = (\<lambda>(a, n). addr_ok a \<and> zone_of a = [] \<and> n \<le> bit_len a)"

definition link_ok :: "control_interface \<Rightarrow> bool" where
  "link_ok ci \<longleftrightarrow> 0 < if_mtu ci \<and> if_mtu ci < 2 ^ 31 \<and> - (2 ^ 31) \<le> if_index ci \<and> if_index ci < 2 ^ 31
     \<and> if_flags ci = default_if_flags \<and> list_all prefix_ok (if_addresses ci)"

definition network_ok :: "network_interface \<Rightarrow> bool" where
  "network_ok ni \<longleftrightarrow> link_ok (control_interface.truncate ni) \<and> [] \<notin> set (ni_dns ni)"

definition registry_ok :: "registry \<Rightarrow> bool" where
  "registry_ok r \<longleftrightarrow> (\<forall>h ni. ifaces r h = Some ni \<longrightarrow> network_ok ni)
     \<and> (\<forall>ci. default_iface r = Some ci \<longrightarrow> link_ok ci) \<and> callbacks_inv r"

definition event_ok :: "net_event \<Rightarrow> bool" where
  "event_ok e = (case e of Callback cb (Some ci) n \<Rightarrow> link_ok ci | _ \<Rightarrow> True)"

lemma parse_prefix_ok: "parse_prefix s = Some q \<Longrightarrow> prefix_ok q"
  by (auto simp: parse_prefix_def prefix_ok_def Let_def dest: parse_addr_ok split: if_splits option.splits)

lemma parse_prefixes_ok: "list_all prefix_ok (parse_prefixes csv)"
  by (auto simp: parse_prefixes_def list_all_iff Let_def dest: parse_prefix_ok [OF sym] split: if_splits option.splits)

lemma split_non_empty_ok: "[] \<notin> set (split_non_empty csv)"
  by (auto simp: split_non_empty_def Let_def split: if_splits)

lemma sint_range32: "- (2 ^ 31) \<le> sint (w :: 32 word)" "sint (w :: 32 word) < 2 ^ 31"
  using sint_greater_eq [of w] sint_less [of w] by simp_all

lemma built_network_ok: "network_ok (build_network_interface (snapshot_from_c i))"
  using sint_range32 [of "ff_mtu i"] sint_range32 [of "ff_if_index i"] parse_prefixes_ok split_non_empty_ok
  by (simp add: network_ok_def link_ok_def build_network_interface_def snapshot_from_c_def
      normalize_mtu_def control_interface.truncate_def)

lemma next_default_ok:
  "registry_ok r \<Longrightarrow> next_default r (map_option snapshot_from_c i) = Some ci \<Longrightarrow> link_ok ci"
  using sint_range32
  by (auto simp: next_default_def registry_ok_def network_ok_def link_ok_def snapshot_from_c_def normalize_mtu_def
      split: option.splits if_splits)

lemma NetifDefaultChanged_set: "NetifDefaultChanged i r = set_default (map_option snapshot_from_c i) r"
  by (simp add: NetifDefaultChanged_def split: option.splits)

lemma refresh_ok: "list_all event_ok (refresh_interfaces nm)"
  by (simp add: refresh_interfaces_def event_ok_def split: option.splits)

lemma announce_ok:
  "(\<And>ci. nxt = Some ci \<Longrightarrow> link_ok ci) \<Longrightarrow> list_all event_ok (map (\<lambda>cb. Callback cb nxt 0) cbs)"
  by (auto simp: event_ok_def list_all_iff split: option.splits)

lemma announce_none: "list_all event_ok (map (\<lambda>cb. Callback cb None 0) cbs)"
  by (rule announce_ok) simp

lemma locked_ok:
  assumes "registry_ok r" "locked op r = (es, r')"
  shows "registry_ok r' \<and> list_all event_ok es"
proof (cases op)
  case (Platform c)
  note defs = NetifUpdate_def NetifLost_def NetifReset_def NetifRegisterPlatform_def NetifDefaultChanged_set
    update_def lost_def reset_def set_default_def set_platform_def
  show ?thesis
  proof (cases c)
    case (DefaultChanged i)
    have "link_ok ci" if "next_default r (map_option snapshot_from_c i) = Some ci" for ci
      using next_default_ok [OF assms(1) that] .
    with announce_ok [OF this] assms Platform DefaultChanged show ?thesis
      by (auto simp: defs Let_def registry_ok_def callbacks_inv_def refresh_ok)
  qed (use assms Platform built_network_ok in
      \<open>auto simp: defs Let_def registry_ok_def callbacks_inv_def refresh_ok announce_none
        split: option.splits if_splits\<close>)
next
  case Register
  with assms register_inv [of r] show ?thesis
    by (auto simp: registry_ok_def monitor_register_callback_def register_callback_def)
next
  case (Unregister e)
  with assms unregister_inv [of r e] show ?thesis
    by (auto simp: registry_ok_def monitor_unregister_callback_def unregister_callback_def)
next
  case (Protect fd)
  with assms show ?thesis
    by (auto simp: auto_detect_interface_control_def protect_fd_cases event_ok_def split: option.splits)
next
  case Replay
  with assms show ?thesis
    by (auto simp: monitor_start_def request_replay_cases event_ok_def split: option.splits)
qed (use assms in \<open>auto simp: registry_ok_def callbacks_inv_def initialize_def set_network_manager_def\<close>)

lemma run_ops_ok: "registry_ok r \<Longrightarrow> registry_ok (snd (run_ops ops r)) \<and> list_all (event_ok \<circ> snd) (fst (run_ops ops r))"
proof (induction ops r rule: run_ops.induct)
  case (2 t op ops r)
  obtain es r' where l: "locked op r = (es, r')" by fastforce
  from locked_ok [OF 2(2) l] have ok: "registry_ok r'" "list_all event_ok es" by simp_all
  from 2(1) [OF l [symmetric] ok(1)] ok(2) l show ?case
    by (cases "run_ops ops r'") (simp add: list.pred_map comp_def)
qed simp

lemma new_registry_ok: "registry_ok new_registry"
  by (simp add: registry_ok_def new_registry_def callbacks_inv_def)

section \<open>What the core is told\<close>

definition announces :: "net_op \<Rightarrow> bool" where
  "announces op = (case op of Platform (DefaultChanged i) \<Rightarrow> True | Platform Reset \<Rightarrow> True | _ \<Rightarrow> False)"

lemma locked_quiet:
  "\<not> announces op \<Longrightarrow>
   filter (calls_cb e) (fst (locked op r)) = [] \<and> default_iface (snd (locked op r)) = default_iface r"
proof (cases op)
  case (Platform c)
  assume "\<not> announces op"
  with Platform show ?thesis
    by (cases c) (auto simp: announces_def NetifUpdate_def NetifLost_def NetifRegisterPlatform_def update_def lost_def
        set_platform_def Let_def split: option.splits)
qed (auto simp: monitor_register_callback_def register_callback_def monitor_unregister_callback_def
    unregister_callback_def initialize_def set_network_manager_def auto_detect_interface_control_def protect_fd_cases
    monitor_start_def request_replay_cases calls_cb_def Let_def split: option.splits)

lemma locked_announces:
  "announces op \<Longrightarrow> filter (calls_cb e) (fst (locked op r))
     = replicate (count_list (callbacks r) e) (Callback e (default_iface (snd (locked op r))) 0)"
proof (cases op)
  case (Platform c)
  assume "announces op"
  with Platform downcall_calls [of e c r] show ?thesis
    by (cases c) (simp_all add: announces_def announced_by_def current_default_def)
qed (simp_all add: announces_def)

lemma quiet_thread:
  "list_all (\<lambda>(u, op). u = t \<longrightarrow> \<not> announces op) ops \<Longrightarrow>
   filter (calls_cb e) (of_thread t (fst (run_ops ops r))) = []"
proof (induction ops r rule: run_ops.induct)
  case (2 u op ops r)
  then show ?case using locked_quiet [of op e r] by (auto split: prod.splits)
qed simp

lemma quiet_default:
  "list_all (\<lambda>(u, op). \<not> announces op) ops \<Longrightarrow> default_iface (snd (run_ops ops r)) = default_iface r"
proof (induction ops r rule: run_ops.induct)
  case (2 u op ops r)
  then show ?case using locked_quiet [of op e r] by (auto split: prod.splits)
qed simp

lemma calls_of_one_thread:
  "(\<And>u. u \<noteq> t \<Longrightarrow> filter P (of_thread u xs) = []) \<Longrightarrow> filter P (map snd xs) = filter P (of_thread t xs)"
proof (induction xs)
  case (Cons x xs)
  obtain u e where x: "x = (u, e)" by fastforce
  have "filter P (of_thread v xs) = []" if "v \<noteq> t" for v
    using Cons.prems [OF that] by (auto simp: x split: if_splits)
  moreover have "P e \<Longrightarrow> u = t" using Cons.prems [of u] by (auto simp: x split: if_splits)
  ultimately show ?case using Cons.IH x by auto
qed simp

section \<open>Concrete runs\<close>

definition wifi_default :: control_interface where
  "wifi_default = \<lparr>if_index = 12, if_mtu = 1500, if_name = ''wlan0'', if_addresses = [], if_flags = default_if_flags\<rparr>"

text \<open>One callback, the given calls pending and made, no network tracked.\<close>

definition one_callback :: "nat list \<Rightarrow> control_interface option \<Rightarrow> (nat \<rightharpoonup> net_event list) \<Rightarrow> (nat \<times> net_event) list \<Rightarrow>
    (nat \<times> net_op) list \<Rightarrow> net_threads" where
  "one_callback cbs dflt pending made ops = \<lparr>nt_registry = \<lparr>ifaces = Map.empty, default_iface = dflt,
       callbacks = cbs, next_element = 1, network_manager = None, protect_fn = None, replay_fn = None\<rparr>,
     nt_pending = pending, nt_made = made, nt_ops = ops\<rparr>"

lemma locked_examples:
  "locked Register new_registry = ([], new_registry\<lparr>callbacks := [0], next_element := 1\<rparr>)"
  "locked (Platform Reset) (nt_registry (one_callback [0] d p m ops))
     = ([Callback 0 None 0], nt_registry (one_callback [0] None p m ops))"
  "locked (Platform (DefaultChanged (Some wifi_info))) (nt_registry (one_callback [0] d p m ops))
     = ([Callback 0 (Some wifi_default) 0], nt_registry (one_callback [0] (Some wifi_default) p m ops))"
  "locked (Unregister 0) (nt_registry (one_callback [0] d p m ops)) = ([], nt_registry (one_callback [] d p m ops))"
  by (simp_all add: monitor_register_callback_def register_callback_def new_registry_def NetifReset_def reset_def
      NetifDefaultChanged_def set_default_def next_default_def snapshot_from_c_def wifi_info_def no_network_handle_def
      wifi_default_def normalize_mtu_def monitor_unregister_callback_def unregister_callback_def
      one_callback_def refresh_interfaces_def snapshot_callbacks_def c_string_def Let_def)

lemma one_enter:
  assumes "net_reach (one_callback cbs d p m ops)" "p t = None"
    and "locked op (nt_registry (one_callback cbs d p m ops)) = (es, nt_registry (one_callback cbs' d' p m ops))"
  shows "net_reach (one_callback cbs' d' (p(t \<mapsto> es)) m (ops @ [(t, op)]))"
  by (rule net_runs.run_to [OF assms(1) enter [where t = t, OF _ assms(3)]]) (simp_all add: one_callback_def assms(2))

lemma one_call:
  "net_reach (one_callback cbs d p m ops) \<Longrightarrow> p t = Some (e # es) \<Longrightarrow>
   net_reach (one_callback cbs d (p(t \<mapsto> es)) (m @ [(t, e)]) ops)"
  by (erule net_runs.run_to [OF _ make_call [where t = t and e = e and es = es]]) (simp_all add: one_callback_def)

lemma one_leave:
  "net_reach (one_callback cbs d p m ops) \<Longrightarrow> p t = Some [] \<Longrightarrow>
   net_reach (one_callback cbs d (p(t := None)) m ops)"
  by (erule net_runs.run_to [OF _ leave [where t = t]]) (simp_all add: one_callback_def)

lemma registered: "net_reach (one_callback [0] None Map.empty [] [(3, Register)])"
proof -
  have "net_reach (one_callback [0] None [3 \<mapsto> []] [] [(3, Register)])"
    by (rule net_runs.run_to [OF net_new enter [where t = 3 and op = Register]])
      (simp_all add: new_threads_def one_callback_def new_registry_def monitor_register_callback_def
        register_callback_def)
  from one_leave [OF this, of 3] show ?thesis by (simp add: fun_upd_idem)
qed

text \<open>A default change, and a reset that is still making its call.\<close>

lemma wifi_change:
  "net_reach (one_callback [0] d p m ops) \<Longrightarrow> p t = None \<Longrightarrow>
   net_reach (one_callback [0] (Some wifi_default) p (m @ [(t, Callback 0 (Some wifi_default) 0)])
     (ops @ [(t, Platform (DefaultChanged (Some wifi_info)))]))"
proof -
  assume r: "net_reach (one_callback [0] d p m ops)" and t: "p t = None"
  from one_call [OF one_enter [OF r t locked_examples(3)], of t]
  have "net_reach (one_callback [0] (Some wifi_default) (p(t \<mapsto> [])) (m @ [(t, Callback 0 (Some wifi_default) 0)])
      (ops @ [(t, Platform (DefaultChanged (Some wifi_info)))]))" by simp
  from one_leave [OF this, of t] t show ?thesis by (simp add: fun_upd_idem)
qed

lemma pending_reset:
  "net_reach (one_callback [0] None [0 \<mapsto> [Callback 0 None 0]] [] [(3, Register), (0, Platform Reset)])"
  using one_enter [OF registered, where t = 0, OF _ locked_examples(2)] by simp

section \<open>Properties\<close>

text \<open>C16. The core ends with the current default: when the default changes on one thread only, as the
  platform promises, and that thread has made its calls, then a callback that was registered
  before the last change was told the current default last.\<close>

theorem last_default_announced:
  assumes "net_reach n" "nt_ops n = earlier @ (t, op) # later" "announces op"
    and "list_all (\<lambda>(u, op). announces op \<longrightarrow> u = t) earlier" "list_all (\<lambda>(u, op). \<not> announces op) later"
    and "nt_pending n t = None" "e \<in> set (callbacks (snd (run_ops earlier new_registry)))"
  shows "\<exists>told. filter (calls_cb e) (map snd (nt_made n))
    = told @ [Callback e (monitor_default_interface (nt_registry n)) 0]"
proof -
  let ?P = "calls_cb e"
  obtain es r where earlier: "run_ops earlier new_registry = (es, r)" by fastforce
  obtain fs r' where op: "locked op r = (fs, r')" by fastforce
  obtain gs r'' where later: "run_ops later r' = (gs, r'')" by fastforce
  have all: "run_ops (nt_ops n) new_registry = (es @ map (Pair t) fs @ gs, r'')"
    by (simp add: assms(2) run_ops_append earlier op later)
  with reach_linear [OF assms(1)] have made: "\<And>u. of_thread u (nt_made n) @ to_make n u = of_thread u (es @ map (Pair t) fs @ gs)"
      and reg: "nt_registry n = r''"
    unfolding linear_def all by simp_all
  have "filter ?P (of_thread u (nt_made n)) = []" if "u \<noteq> t" for u
  proof -
    have "list_all (\<lambda>(v, op). v = u \<longrightarrow> \<not> announces op) (nt_ops n)"
      using assms(2,4,5) that by (auto simp: list_all_iff)
    from quiet_thread [OF this, of e new_registry] have "filter ?P (of_thread u (nt_made n) @ to_make n u) = []"
      unfolding all fst_conv made .
    then show ?thesis by simp
  qed
  then have "filter ?P (map snd (nt_made n)) = filter ?P (of_thread t (nt_made n))"
    by (rule calls_of_one_thread)
  moreover have "filter ?P (of_thread t gs) = []"
    using quiet_thread [of t later e r'] assms(5) later by (auto simp: list_all_iff)
  moreover have "default_iface r'' = default_iface r'" using quiet_default [OF assms(5), of r'] later by simp
  moreover obtain k where "count_list (callbacks r) e = Suc k"
    using assms(7) earlier by (metis count_list_0_iff not0_implies_Suc snd_conv)
  ultimately show ?thesis
    using made [of t] assms(6) locked_announces [OF assms(3), of e r] op reg
    by (simp add: to_make_def monitor_default_interface_def current_default_def replicate_append_same [symmetric])
qed

theorem last_default_announced_witness:
  "\<exists>n. net_reach n \<and> nt_ops n = [(3, Register), (0, Platform (DefaultChanged (Some wifi_info)))]
     \<and> (\<exists>told. filter (calls_cb 0) (map snd (nt_made n)) = told @ [Callback 0 (Some wifi_default) 0])"
proof -
  let ?op = "Platform (DefaultChanged (Some wifi_info))"
  let ?n = "one_callback [0] (Some wifi_default) Map.empty [(0, Callback 0 (Some wifi_default) 0)] [(3, Register), (0, ?op)]"
  have r: "net_reach ?n" using wifi_change [OF registered, of 0] by simp
  have n: "nt_ops ?n = [(3, Register)] @ (0, ?op) # []" "nt_pending ?n 0 = None"
    "monitor_default_interface (nt_registry ?n) = Some wifi_default"
    by (simp_all add: one_callback_def monitor_default_interface_def current_default_def)
  have e: "0 \<in> set (callbacks (snd (run_ops [(3, Register)] new_registry)))"
    by (simp add: monitor_register_callback_def register_callback_def new_registry_def)
  from last_default_announced [OF r n(1) _ _ _ n(2) e] show ?thesis
    using r n by (intro exI [of _ ?n]) (simp add: announces_def)
qed

text \<open>C34. The calls outside the mutex can cross those of another thread. A callback can be called after
  \<open>UnregisterCallback\<close> for it returned. And when the reset of a monitor that stops runs beside the
  first default of the monitor that replaces it, the core can be told last that there is no
  default while there is one, with no call left to make.\<close>

theorem callbacks_cross:
  "(\<exists>n n'. net_reach n \<and> last (nt_ops n) = (3, Unregister 0) \<and> nt_pending n 3 = None
      \<and> callbacks (nt_registry n) = [] \<and> net_step n n' \<and> nt_made n' = nt_made n @ [(0, Callback 0 None 0)])
   \<and> (\<exists>n. net_reach n \<and> nt_pending n = Map.empty \<and> 0 \<in> set (callbacks (nt_registry n))
      \<and> monitor_default_interface (nt_registry n) = Some wifi_default
      \<and> map snd (nt_made n) = [Callback 0 (Some wifi_default) 0, Callback 0 None 0])"
proof
  have "net_reach (one_callback [] None [0 \<mapsto> [Callback 0 None 0], 3 \<mapsto> []] []
      [(3, Register), (0, Platform Reset), (3, Unregister 0)])"
    using one_enter [OF pending_reset, where t = 3, OF _ locked_examples(4)] by simp
  from one_leave [OF this, of 3]
  have r: "net_reach (one_callback [] None [0 \<mapsto> [Callback 0 None 0]] []
      [(3, Register), (0, Platform Reset), (3, Unregister 0)])" (is "net_reach ?n")
    by (simp add: fun_upd_twist)
  have "net_step ?n (?n\<lparr>nt_pending := (nt_pending ?n)(0 \<mapsto> []), nt_made := nt_made ?n @ [(0, Callback 0 None 0)]\<rparr>)"
    by (rule make_call) (simp add: one_callback_def)
  with r show "\<exists>n n'. net_reach n \<and> last (nt_ops n) = (3, Unregister 0) \<and> nt_pending n 3 = None
      \<and> callbacks (nt_registry n) = [] \<and> net_step n n' \<and> nt_made n' = nt_made n @ [(0, Callback 0 None 0)]"
    by (intro exI [of _ ?n] exI conjI) (assumption | simp add: one_callback_def)+
next
  have "net_reach (one_callback [0] (Some wifi_default) [0 \<mapsto> [Callback 0 None 0]] [(2, Callback 0 (Some wifi_default) 0)]
      [(3, Register), (0, Platform Reset), (2, Platform (DefaultChanged (Some wifi_info)))])"
    using wifi_change [OF pending_reset, of 2] by simp
  from one_call [OF this, of 0] have "net_reach (one_callback [0] (Some wifi_default) [0 \<mapsto> []]
      [(2, Callback 0 (Some wifi_default) 0), (0, Callback 0 None 0)]
      [(3, Register), (0, Platform Reset), (2, Platform (DefaultChanged (Some wifi_info)))])" by simp
  from one_leave [OF this, of 0]
  have "net_reach (one_callback [0] (Some wifi_default) Map.empty
      [(2, Callback 0 (Some wifi_default) 0), (0, Callback 0 None 0)]
      [(3, Register), (0, Platform Reset), (2, Platform (DefaultChanged (Some wifi_info)))])" (is "net_reach ?n") by simp
  then show "\<exists>n. net_reach n \<and> nt_pending n = Map.empty \<and> 0 \<in> set (callbacks (nt_registry n))
      \<and> monitor_default_interface (nt_registry n) = Some wifi_default
      \<and> map snd (nt_made n) = [Callback 0 (Some wifi_default) 0, Callback 0 None 0]"
    by (intro exI [of _ ?n]) (simp add: one_callback_def monitor_default_interface_def current_default_def)
qed

text \<open>C17. Whatever the platform reports, in whatever order and from whatever threads, every network the
  core can see or is told about is well formed: its transmission unit is positive, its index and
  unit fit 32 bits, it is up and running, each of its prefixes is an address without a zone and a
  length that fits it, and its servers are named. Its callbacks are registered once.\<close>

theorem networks_well_formed:
  assumes "net_reach n"
  shows "list_all network_ok (interfaces order (nt_registry n))
    \<and> (\<forall>ci. monitor_default_interface (nt_registry n) = Some ci \<longrightarrow> link_ok ci)
    \<and> list_all (event_ok \<circ> snd) (nt_made n) \<and> distinct (callbacks (nt_registry n))"
proof -
  note ok = run_ops_ok [OF new_registry_ok, of "nt_ops n"]
  note lin = reach_linear [OF assms, unfolded linear_def]
  have "event_ok e" if "(t, e) \<in> set (nt_made n)" for t e
  proof -
    have "e \<in> set (of_thread t (nt_made n) @ to_make n t)" using that by (force simp: of_thread_def)
    then have "e \<in> set (of_thread t (fst (run_ops (nt_ops n) new_registry)))" using lin by metis
    then show ?thesis using ok by (auto simp: of_thread_def list_all_iff)
  qed
  then show ?thesis
    using ok lin by (auto simp: registry_ok_def callbacks_inv_def interfaces_def list_all_iff
        monitor_default_interface_def current_default_def split: option.splits)
qed

theorem networks_well_formed_witness:
  "\<exists>n. net_reach n \<and> monitor_default_interface (nt_registry n) = Some wifi_default \<and> link_ok wifi_default"
proof -
  let ?n = "one_callback [0] (Some wifi_default) Map.empty [(0, Callback 0 (Some wifi_default) 0)]
    [(3, Register), (0, Platform (DefaultChanged (Some wifi_info)))]"
  have r: "net_reach ?n" using wifi_change [OF registered, of 0] by simp
  have d: "monitor_default_interface (nt_registry ?n) = Some wifi_default"
    by (simp add: one_callback_def monitor_default_interface_def current_default_def)
  from networks_well_formed [OF r] r d show ?thesis by blast
qed

end
