(* ===== verification/Netif_Locks.thy ===== *)
theory Netif_Locks
  imports Netif_Threads
begin

text \<open>
  The registry statement by statement (\<open>netifRegistry\<close> of vpn_engine/platform_android.go): its
  mutex with a writer and readers, and the methods as the statements they execute, any of which
  a thread can be stopped after. That the sections of \<open>Netif_Threads\<close> are atomic is not assumed
  here but follows from the places where the methods lock and unlock.
\<close>

section \<open>Statements\<close>

text \<open>The local variables of a method.\<close>

record frame =
  fr_next :: "control_interface option"
  fr_nm :: "nat option"
  fr_cbs :: "nat list"
  fr_existed :: bool
  fr_fn :: "nat option"
  fr_elem :: nat
  fr_out :: "network_interface list"

definition new_frame :: frame where
  "new_frame = \<lparr>fr_next = None, fr_nm = None, fr_cbs = [], fr_existed = False, fr_fn = None, fr_elem = 0, fr_out = []\<rparr>"

text \<open>A statement locks or unlocks the mutex, reads the registry into local variables, changes the
  registry, or makes calls one after the other.\<close>

datatype stmt =
    Lock | Unlock | RLock | RUnlock
  | Load "registry \<Rightarrow> frame \<Rightarrow> frame"
  | Store "frame \<Rightarrow> registry \<Rightarrow> registry"
  | Emit "frame \<Rightarrow> net_event list"

section \<open>The methods\<close>

abbreviation load_manager :: stmt where
  "load_manager \<equiv> Load (\<lambda>r l. l\<lparr>fr_nm := network_manager r\<rparr>)"

abbreviation load_callbacks :: stmt where
  "load_callbacks \<equiv> Load (\<lambda>r l. l\<lparr>fr_cbs := snapshot_callbacks r\<rparr>)"

abbreviation call_refresh :: stmt where
  "call_refresh \<equiv> Emit (\<lambda>l. refresh_interfaces (fr_nm l))"

definition update_code :: "netif_snapshot \<Rightarrow> stmt list" where
  "update_code s =
     [Lock,
      Store (\<lambda>l r. r\<lparr>ifaces := (ifaces r)(s_handle s \<mapsto> build_network_interface s)\<rparr>),
      load_manager,
      Unlock,
      call_refresh]"

definition lost_code :: "64 word \<Rightarrow> stmt list" where
  "lost_code h =
     [Lock,
      Load (\<lambda>r l. l\<lparr>fr_existed := (ifaces r h \<noteq> None)\<rparr>),
      Store (\<lambda>l r. r\<lparr>ifaces := (ifaces r)(h := None)\<rparr>),
      load_manager,
      Unlock,
      Emit (\<lambda>l. if fr_existed l then refresh_interfaces (fr_nm l) else [])]"

definition set_default_code :: "netif_snapshot option \<Rightarrow> stmt list" where
  "set_default_code s =
     [Lock,
      Load (\<lambda>r l. l\<lparr>fr_next := next_default r s\<rparr>),
      Store (\<lambda>l r. r\<lparr>default_iface := fr_next l\<rparr>),
      load_manager,
      load_callbacks,
      Unlock,
      call_refresh,
      Emit (\<lambda>l. map (\<lambda>cb. Callback cb (fr_next l) 0) (fr_cbs l))]"

definition reset_code :: "stmt list" where
  "reset_code =
     [Lock,
      Store (\<lambda>l r. r\<lparr>ifaces := Map.empty\<rparr>),
      Store (\<lambda>l r. r\<lparr>default_iface := None\<rparr>),
      load_manager,
      load_callbacks,
      Unlock,
      call_refresh,
      Emit (\<lambda>l. map (\<lambda>cb. Callback cb None 0) (fr_cbs l))]"

definition set_platform_code :: "nat option \<Rightarrow> nat option \<Rightarrow> stmt list" where
  "set_platform_code protect replay =
     [Lock,
      Store (\<lambda>l r. r\<lparr>protect_fn := protect\<rparr>),
      Store (\<lambda>l r. r\<lparr>replay_fn := replay\<rparr>),
      Unlock]"

definition set_manager_code :: "nat option \<Rightarrow> stmt list" where
  "set_manager_code nm = [Lock, Store (\<lambda>l r. r\<lparr>network_manager := nm\<rparr>), Unlock]"

definition interfaces_code :: "64 word list \<Rightarrow> stmt list" where
  "interfaces_code order = [RLock, Load (\<lambda>r l. l\<lparr>fr_out := interfaces order r\<rparr>), RUnlock]"

definition current_default_code :: "stmt list" where
  "current_default_code = [RLock, Load (\<lambda>r l. l\<lparr>fr_next := default_iface r\<rparr>), RUnlock]"

definition register_code :: "stmt list" where
  "register_code =
     [Lock,
      Load (\<lambda>r l. l\<lparr>fr_elem := next_element r\<rparr>),
      Store (\<lambda>l r. r\<lparr>callbacks := callbacks r @ [fr_elem l], next_element := Suc (fr_elem l)\<rparr>),
      Unlock]"

definition unregister_code :: "nat \<Rightarrow> stmt list" where
  "unregister_code e = [Lock, Store (\<lambda>l r. r\<lparr>callbacks := remove1 e (callbacks r)\<rparr>), Unlock]"

definition protect_code :: "int \<Rightarrow> stmt list" where
  "protect_code fd =
     [RLock,
      Load (\<lambda>r l. l\<lparr>fr_fn := protect_fn r\<rparr>),
      RUnlock,
      Emit (\<lambda>l. if fr_fn l = None then [] else fst (ff_call_protect (\<lambda>_ _. 0) (fr_fn l) (word_of_int fd)))]"

definition replay_code :: "stmt list" where
  "replay_code =
     [RLock,
      Load (\<lambda>r l. l\<lparr>fr_fn := replay_fn r\<rparr>),
      RUnlock,
      Emit (\<lambda>l. if fr_fn l \<noteq> None then ff_call_replay (fr_fn l) else [])]"

text \<open>What a call executes; an update without a network returns at once.\<close>

fun code :: "net_op \<Rightarrow> stmt list" where
  "code (Platform (Update None)) = []"
| "code (Platform (Update (Some i))) = update_code (snapshot_from_c i)"
| "code (Platform (Lost h)) = lost_code h"
| "code (Platform (DefaultChanged i)) = set_default_code (map_option snapshot_from_c i)"
| "code (Platform Reset) = reset_code"
| "code (Platform (RegisterPlatform p q)) = set_platform_code p q"
| "code Register = register_code"
| "code (Unregister e) = unregister_code e"
| "code (SetManager nm) = set_manager_code nm"
| "code (Protect fd) = protect_code fd"
| "code Replay = replay_code"
| "code AskDefault = current_default_code"
| "code (AskInterfaces order) = interfaces_code order"

lemmas code_defs = update_code_def lost_code_def set_default_code_def reset_code_def set_platform_code_def
  set_manager_code_def interfaces_code_def current_default_code_def register_code_def unregister_code_def
  protect_code_def replay_code_def

section \<open>Threads and the mutex\<close>

text \<open>A thread in a call: its local variables, what it has still to execute and the calls it is
  making. The mutex has a writer or any number of readers. The system records the calls that
  were begun and the calls made, both with their thread.\<close>

record thread =
  th_op :: net_op
  th_frame :: frame
  th_rest :: "stmt list"
  th_calls :: "net_event list"

record lock_state =
  ls_writer :: "nat option"
  ls_readers :: "nat set"
  ls_registry :: registry
  ls_threads :: "nat \<rightharpoonup> thread"
  ls_begun :: "(nat \<times> net_op) list"
  ls_made :: "(nat \<times> net_event) list"

definition new_locks :: lock_state where
  "new_locks = \<lparr>ls_writer = None, ls_readers = {}, ls_registry = new_registry, ls_threads = Map.empty,
     ls_begun = [], ls_made = []\<rparr>"

definition goes_on :: "nat \<Rightarrow> thread \<Rightarrow> lock_state \<Rightarrow> lock_state" where
  "goes_on t th s = s\<lparr>ls_threads := (ls_threads s)(t \<mapsto> th)\<rparr>"

text \<open>One statement of one thread. \<open>Lock\<close> waits until nobody has the mutex, \<open>RLock\<close> until no
  writer has it; a statement on the registry asks for nothing.\<close>

inductive lock_step :: "lock_state \<Rightarrow> lock_state \<Rightarrow> bool" where
  begin_call: "ls_threads s t = None \<Longrightarrow>
    lock_step s ((goes_on t \<lparr>th_op = op, th_frame = new_frame, th_rest = code op, th_calls = []\<rparr> s)
      \<lparr>ls_begun := ls_begun s @ [(t, op)]\<rparr>)"
| do_lock: "ls_threads s t = Some th \<Longrightarrow> th_calls th = [] \<Longrightarrow> th_rest th = Lock # ss \<Longrightarrow>
    ls_writer s = None \<Longrightarrow> ls_readers s = {} \<Longrightarrow>
    lock_step s ((goes_on t (th\<lparr>th_rest := ss\<rparr>) s)\<lparr>ls_writer := Some t\<rparr>)"
| do_unlock: "ls_threads s t = Some th \<Longrightarrow> th_calls th = [] \<Longrightarrow> th_rest th = Unlock # ss \<Longrightarrow>
    lock_step s ((goes_on t (th\<lparr>th_rest := ss\<rparr>) s)\<lparr>ls_writer := None\<rparr>)"
| do_rlock: "ls_threads s t = Some th \<Longrightarrow> th_calls th = [] \<Longrightarrow> th_rest th = RLock # ss \<Longrightarrow>
    ls_writer s = None \<Longrightarrow>
    lock_step s ((goes_on t (th\<lparr>th_rest := ss\<rparr>) s)\<lparr>ls_readers := insert t (ls_readers s)\<rparr>)"
| do_runlock: "ls_threads s t = Some th \<Longrightarrow> th_calls th = [] \<Longrightarrow> th_rest th = RUnlock # ss \<Longrightarrow>
    lock_step s ((goes_on t (th\<lparr>th_rest := ss\<rparr>) s)\<lparr>ls_readers := ls_readers s - {t}\<rparr>)"
| do_load: "ls_threads s t = Some th \<Longrightarrow> th_calls th = [] \<Longrightarrow> th_rest th = Load f # ss \<Longrightarrow>
    lock_step s (goes_on t (th\<lparr>th_frame := f (ls_registry s) (th_frame th), th_rest := ss\<rparr>) s)"
| do_store: "ls_threads s t = Some th \<Longrightarrow> th_calls th = [] \<Longrightarrow> th_rest th = Store f # ss \<Longrightarrow>
    lock_step s ((goes_on t (th\<lparr>th_rest := ss\<rparr>) s)\<lparr>ls_registry := f (th_frame th) (ls_registry s)\<rparr>)"
| do_emit: "ls_threads s t = Some th \<Longrightarrow> th_calls th = [] \<Longrightarrow> th_rest th = Emit f # ss \<Longrightarrow>
    lock_step s (goes_on t (th\<lparr>th_rest := ss, th_calls := f (th_frame th)\<rparr>) s)"
| do_call: "ls_threads s t = Some th \<Longrightarrow> th_calls th = e # es \<Longrightarrow>
    lock_step s ((goes_on t (th\<lparr>th_calls := es\<rparr>) s)\<lparr>ls_made := ls_made s @ [(t, e)]\<rparr>)"
| do_return: "ls_threads s t = Some th \<Longrightarrow> th_calls th = [] \<Longrightarrow> th_rest th = [] \<Longrightarrow>
    lock_step s (s\<lparr>ls_threads := (ls_threads s)(t := None)\<rparr>)"

inductive lock_reach :: "lock_state \<Rightarrow> bool" where
  lock_new: "lock_reach new_locks"
| lock_next: "lock_reach s \<Longrightarrow> lock_step s s' \<Longrightarrow> lock_reach s'"

interpretation lock_runs: runs new_locks lock_step lock_reach
  by unfold_locales (rule lock_new, erule (1) lock_next, erule lock_reach.induct, blast+)

lemma goes_on_simps [simp]:
  "ls_writer (goes_on t th s) = ls_writer s" "ls_readers (goes_on t th s) = ls_readers s"
  "ls_registry (goes_on t th s) = ls_registry s" "ls_threads (goes_on t th s) = (ls_threads s)(t \<mapsto> th)"
  "ls_begun (goes_on t th s) = ls_begun s" "ls_made (goes_on t th s) = ls_made s"
  by (simp_all add: goes_on_def)

section \<open>Lock discipline\<close>

text \<open>What a thread executes after its section, and inside: a writer may change the registry, a
  reader may not, and each releases what it holds.\<close>

fun emits :: "stmt list \<Rightarrow> bool" where
  "emits [] = True"
| "emits (Emit f # ss) = emits ss"
| "emits _ = False"

fun inside :: "bool \<Rightarrow> stmt list \<Rightarrow> bool" where
  "inside w (Load f # ss) = inside w ss"
| "inside w (Store f # ss) = (w \<and> inside w ss)"
| "inside w (Unlock # ss) = (w \<and> emits ss)"
| "inside w (RUnlock # ss) = (\<not> w \<and> emits ss)"
| "inside w _ = False"

fun well_locked :: "stmt list \<Rightarrow> bool" where
  "well_locked [] = True"
| "well_locked (Lock # ss) = inside True ss"
| "well_locked (RLock # ss) = inside False ss"
| "well_locked _ = False"

lemma code_well_locked: "well_locked (code op)"
  by (cases op rule: code.cases) (simp_all add: code_defs)

text \<open>What the statements do when nothing comes between them.\<close>

fun finish :: "stmt list \<Rightarrow> frame \<Rightarrow> registry \<Rightarrow> net_event list \<times> registry" where
  "finish [] l r = ([], r)"
| "finish (Load f # ss) l r = finish ss (f r l) r"
| "finish (Store f # ss) l r = finish ss l (f l r)"
| "finish (Emit f # ss) l r = (case finish ss l r of (es, r') \<Rightarrow> (f l @ es, r'))"
| "finish (_ # ss) l r = finish ss l r"

lemma code_locked: "finish (code op) new_frame r = locked op r"
  by (cases op rule: code.cases)
    (simp_all add: code_defs Let_def NetifUpdate_def update_def NetifLost_def lost_def NetifDefaultChanged_set
      set_default_def snapshot_callbacks_def NetifReset_def reset_def NetifRegisterPlatform_def set_platform_def
      monitor_register_callback_def register_callback_def monitor_unregister_callback_def unregister_callback_def
      initialize_def set_network_manager_def auto_detect_interface_control_def protect_fd_def ff_call_protect_def
      monitor_start_def request_replay_def split: option.splits)

lemma finish_emits: "emits ss \<Longrightarrow> snd (finish ss l r) = r \<and> fst (finish ss l r) = fst (finish ss l r')"
  by (induction ss rule: emits.induct) (auto split: prod.splits)

lemma finish_reader: "inside False ss \<Longrightarrow> snd (finish ss l r) = r"
  by (induction False ss arbitrary: l rule: inside.induct) (auto simp: finish_emits)

section \<open>The methods are atomic\<close>

text \<open>A thread before its section, in it, and after it, beside the atomic registry.\<close>

definition idle :: "lock_state \<Rightarrow> nat \<Rightarrow> bool" where
  "idle s t \<longleftrightarrow> ls_writer s \<noteq> Some t \<and> t \<notin> ls_readers s"

definition has_mutex :: "lock_state \<Rightarrow> nat \<Rightarrow> bool \<Rightarrow> bool" where
  "has_mutex s t w \<longleftrightarrow> (if w then ls_writer s = Some t \<and> ls_readers s = {} else t \<in> ls_readers s \<and> ls_writer s = None)"

definition before :: "lock_state \<Rightarrow> net_threads \<Rightarrow> nat \<Rightarrow> thread \<Rightarrow> bool" where
  "before s n t th \<longleftrightarrow> th_calls th = [] \<and> th_rest th = code (th_op th) \<and> th_rest th \<noteq> [] \<and> th_frame th = new_frame
     \<and> idle s t \<and> nt_pending n t = None \<and> of_thread t (ls_begun s) = of_thread t (nt_ops n) @ [th_op th]"

definition in_section :: "lock_state \<Rightarrow> net_threads \<Rightarrow> nat \<Rightarrow> thread \<Rightarrow> bool" where
  "in_section s n t th \<longleftrightarrow> th_calls th = [] \<and> (\<exists>w. inside w (th_rest th) \<and> has_mutex s t w)
     \<and> finish (th_rest th) (th_frame th) (ls_registry s) = locked (th_op th) (nt_registry n)
     \<and> nt_pending n t = None \<and> of_thread t (ls_begun s) = of_thread t (nt_ops n) @ [th_op th]"

definition afterwards :: "lock_state \<Rightarrow> net_threads \<Rightarrow> nat \<Rightarrow> thread \<Rightarrow> bool" where
  "afterwards s n t th \<longleftrightarrow> emits (th_rest th) \<and> idle s t
     \<and> nt_pending n t = Some (th_calls th @ fst (finish (th_rest th) (th_frame th) (ls_registry s)))
     \<and> of_thread t (ls_begun s) = of_thread t (nt_ops n)"

definition thread_ok :: "lock_state \<Rightarrow> net_threads \<Rightarrow> nat \<Rightarrow> bool" where
  "thread_ok s n t \<longleftrightarrow>
     (case ls_threads s t of
        None \<Rightarrow> idle s t \<and> nt_pending n t = None \<and> of_thread t (ls_begun s) = of_thread t (nt_ops n)
      | Some th \<Rightarrow> before s n t th \<or> in_section s n t th \<or> afterwards s n t th)"

definition as_atomic :: "lock_state \<Rightarrow> net_threads \<Rightarrow> bool" where
  "as_atomic s n \<longleftrightarrow> ls_made s = nt_made n \<and> (ls_writer s = None \<longrightarrow> ls_registry s = nt_registry n)
     \<and> (ls_writer s \<noteq> None \<longrightarrow> ls_readers s = {}) \<and> (\<forall>t. thread_ok s n t)"

text \<open>A thread that does not move and does not hold the mutex, or finds both registries unchanged.\<close>

lemma other_ok:
  assumes "thread_ok s n u" "ls_threads s' u = ls_threads s u"
    and "of_thread u (ls_begun s') = of_thread u (ls_begun s)" "of_thread u (nt_ops n') = of_thread u (nt_ops n)"
    and "nt_pending n' u = nt_pending n u" "idle s' u = idle s u"
    and "idle s u \<or> ls_registry s' = ls_registry s \<and> nt_registry n' = nt_registry n \<and> (\<forall>w. has_mutex s u w \<longrightarrow> has_mutex s' u w)"
  shows "thread_ok s' n' u"
proof (cases "ls_threads s u")
  case None
  with assms(1-6) show ?thesis by (simp add: thread_ok_def)
next
  case (Some th)
  with assms(1) consider "before s n u th" | "in_section s n u th" | "afterwards s n u th" by (auto simp: thread_ok_def)
  then have "before s' n' u th \<or> in_section s' n' u th \<or> afterwards s' n' u th"
  proof cases
    case 1
    with assms(3-6) have "before s' n' u th" by (auto simp: before_def)
    then show ?thesis ..
  next
    case 2
    then have "\<not> idle s u" by (auto simp: in_section_def has_mutex_def idle_def split: if_splits)
    with 2 assms(3-7) show ?thesis by (auto simp: in_section_def)
  next
    case 3
    then have "fst (finish (th_rest th) (th_frame th) (ls_registry s')) = fst (finish (th_rest th) (th_frame th) (ls_registry s))"
      using finish_emits by (auto simp: afterwards_def)
    with 3 assms(3-6) show ?thesis by (simp add: afterwards_def)
  qed
  with Some assms(2) show ?thesis by (simp add: thread_ok_def)
qed

lemma thread_phase:
  assumes "as_atomic s n" "ls_threads s t = Some th"
  shows "before s n t th \<or> in_section s n t th \<or> afterwards s n t th"
proof -
  have "thread_ok s n t" using assms(1) by (simp add: as_atomic_def)
  with assms(2) show ?thesis by (simp add: thread_ok_def)
qed

text \<open>Who is in a section, from the statement that comes next.\<close>

lemma next_in_section:
  assumes "as_atomic s n" "ls_threads s t = Some th" "\<not> well_locked (th_rest th)" "\<not> emits (th_rest th)"
  shows "in_section s n t th"
proof -
  have "\<not> before s n t th" using assms(3) code_well_locked [of "th_op th"] by (metis before_def)
  moreover have "\<not> afterwards s n t th" using assms(4) by (simp add: afterwards_def)
  ultimately show ?thesis using thread_phase [OF assms(1,2)] by blast
qed

lemma next_before:
  assumes "as_atomic s n" "ls_threads s t = Some th" "\<And>w. \<not> inside w (th_rest th)" "\<not> emits (th_rest th)"
  shows "before s n t th"
  using thread_phase [OF assms(1,2)] assms(3,4) unfolding in_section_def afterwards_def by blast

lemma next_afterwards:
  assumes "as_atomic s n" "ls_threads s t = Some th" "\<And>w. \<not> inside w (th_rest th)" "\<not> well_locked (th_rest th)"
  shows "afterwards s n t th"
proof -
  have "\<not> before s n t th" using assms(4) code_well_locked [of "th_op th"] by (metis before_def)
  moreover have "\<not> in_section s n t th" using assms(3) unfolding in_section_def by blast
  ultimately show ?thesis using thread_phase [OF assms(1,2)] by blast
qed

lemma mutex_alone: "has_mutex s t True \<Longrightarrow> u \<noteq> t \<Longrightarrow> idle s u"
  by (auto simp: has_mutex_def idle_def)

lemma as_atomicI:
  assumes "as_atomic s n" "ls_made s' = nt_made n'" "ls_writer s' = None \<longrightarrow> ls_registry s' = nt_registry n'"
    and "ls_writer s' \<noteq> None \<longrightarrow> ls_readers s' = {}" "thread_ok s' n' t" "\<And>u. u \<noteq> t \<Longrightarrow> thread_ok s' n' u"
  shows "as_atomic s' n'"
  using assms unfolding as_atomic_def by metis

text \<open>A thread begins: a call that needs no section takes effect at once.\<close>

lemma atomic_begin:
  assumes "as_atomic s n" "ls_threads s t = None"
    and "s' = (goes_on t \<lparr>th_op = op, th_frame = new_frame, th_rest = code op, th_calls = []\<rparr> s)\<lparr>ls_begun := ls_begun s @ [(t, op)]\<rparr>"
  shows "\<exists>n'. as_atomic s' n' \<and> net_step\<^sup>*\<^sup>* n n'"
proof -
  have rest: "thread_ok s n u" for u using assms(1) by (simp add: as_atomic_def)
  have t: "idle s t" "nt_pending n t = None" "of_thread t (ls_begun s) = of_thread t (nt_ops n)"
    using rest [of t] assms(2) by (simp_all add: thread_ok_def)
  show ?thesis
  proof (cases "code op = []")
    case False
    have "as_atomic s' n"
    proof (rule as_atomicI [OF assms(1), where t = t])
      show "thread_ok s' n t" using t False by (simp add: assms(3) thread_ok_def before_def idle_def)
      show "thread_ok s' n u" if "u \<noteq> t" for u
        by (rule other_ok [OF rest]) (use that in \<open>simp_all add: assms(3) idle_def has_mutex_def\<close>)
    qed (use assms(1) in \<open>simp_all add: assms(3) as_atomic_def\<close>)
    then show ?thesis by blast
  next
    case True
    then have op: "locked op (nt_registry n) = ([], nt_registry n)" using code_locked [of op] by (metis finish.simps(1))
    let ?n = "n\<lparr>nt_registry := nt_registry n, nt_pending := (nt_pending n)(t \<mapsto> []), nt_ops := nt_ops n @ [(t, op)]\<rparr>"
    have "as_atomic s' ?n"
    proof (rule as_atomicI [OF assms(1), where t = t])
      show "thread_ok s' ?n t" using t True by (simp add: assms(3) thread_ok_def afterwards_def idle_def)
      show "thread_ok s' ?n u" if "u \<noteq> t" for u
        by (rule other_ok [OF rest]) (use that in \<open>simp_all add: assms(3) idle_def has_mutex_def\<close>)
    qed (use assms(1) in \<open>simp_all add: assms(3) as_atomic_def\<close>)
    with enter [OF t(2) op] show ?thesis by blast
  qed
qed

text \<open>It takes the mutex: both registries are the same then.\<close>

lemma atomic_acquire:
  assumes "as_atomic s n" "ls_threads s t = Some th" "before s n t th" "ls_writer s = None"
    and "inside w ss" "finish ss new_frame (ls_registry s) = finish (th_rest th) new_frame (ls_registry s)"
    and "s' = (goes_on t (th\<lparr>th_rest := ss\<rparr>) s)\<lparr>ls_writer := wr, ls_readers := rd\<rparr>"
    and "if w then wr = Some t \<and> rd = {} \<and> ls_readers s = {} else wr = None \<and> rd = insert t (ls_readers s)"
  shows "as_atomic s' n"
proof (rule as_atomicI [OF assms(1), where t = t])
  have reg: "ls_registry s = nt_registry n" using assms(1,4) by (simp add: as_atomic_def)
  have "finish ss new_frame (ls_registry s) = locked (th_op th) (nt_registry n)"
    using assms(3,6) code_locked reg by (simp add: before_def)
  moreover have "has_mutex s' t w" using assms(7,8) by (simp add: has_mutex_def)
  ultimately show "thread_ok s' n t"
    using assms(3,5) by (auto simp: assms(7) thread_ok_def before_def in_section_def)
  show "thread_ok s' n u" if "u \<noteq> t" for u
    by (rule other_ok [of s n u]) (use assms(1,4,8) that in
      \<open>auto simp: assms(7) as_atomic_def idle_def has_mutex_def split: if_splits\<close>)
  show "ls_writer s' = None \<longrightarrow> ls_registry s' = nt_registry n" using reg by (simp add: assms(7))
qed (use assms(1,8) in \<open>auto simp: assms(7) as_atomic_def split: if_splits\<close>)

text \<open>It moves inside its section: what the section comes to stays the same.\<close>

lemma atomic_inside:
  assumes "as_atomic s n" "ls_threads s t = Some th" "in_section s n t th" "inside w ss" "has_mutex s t w"
    and "s' = (goes_on t (th\<lparr>th_frame := l, th_rest := ss\<rparr>) s)\<lparr>ls_registry := r\<rparr>"
    and "finish ss l r = finish (th_rest th) (th_frame th) (ls_registry s)" "w \<or> r = ls_registry s"
  shows "as_atomic s' n"
proof (rule as_atomicI [OF assms(1), where t = t])
  have "has_mutex s' t w" using assms(5) by (simp add: assms(6) has_mutex_def)
  with assms(3,4,7) show "thread_ok s' n t" by (auto simp: assms(6) thread_ok_def in_section_def)
  show "thread_ok s' n u" if "u \<noteq> t" for u
  proof (rule other_ok [of s n u])
    show "idle s u \<or> ls_registry s' = ls_registry s \<and> nt_registry n = nt_registry n \<and> (\<forall>w. has_mutex s u w \<longrightarrow> has_mutex s' u w)"
      using assms(5,8) mutex_alone [of s t u] that by (cases w) (auto simp: assms(6) has_mutex_def)
  qed (use assms(1) that in \<open>simp_all add: assms(6) as_atomic_def idle_def\<close>)
  show "ls_writer s' = None \<longrightarrow> ls_registry s' = nt_registry n"
    using assms(1,5,8) by (cases w) (auto simp: assms(6) as_atomic_def has_mutex_def)
qed (use assms(1) in \<open>simp_all add: assms(6) as_atomic_def\<close>)

text \<open>It releases the mutex: this is where the operation takes effect.\<close>

lemma atomic_release:
  assumes "as_atomic s n" "ls_threads s t = Some th" "in_section s n t th" "has_mutex s t w" "emits ss"
    and "finish (th_rest th) (th_frame th) (ls_registry s) = finish ss (th_frame th) (ls_registry s)"
    and "s' = (goes_on t (th\<lparr>th_rest := ss\<rparr>) s)\<lparr>ls_writer := None, ls_readers := ls_readers s - {t}\<rparr>"
  shows "\<exists>n'. as_atomic s' n' \<and> net_step\<^sup>*\<^sup>* n n'"
proof -
  obtain es where es: "finish ss (th_frame th) (ls_registry s) = (es, ls_registry s)"
    using finish_emits [OF assms(5)] by (metis prod.collapse)
  with assms(3,6) have op: "locked (th_op th) (nt_registry n) = (es, ls_registry s)" by (simp add: in_section_def)
  have t: "nt_pending n t = None" "of_thread t (ls_begun s) = of_thread t (nt_ops n) @ [th_op th]" "th_calls th = []"
    using assms(3) by (simp_all add: in_section_def)
  let ?n = "n\<lparr>nt_registry := ls_registry s, nt_pending := (nt_pending n)(t \<mapsto> es), nt_ops := nt_ops n @ [(t, th_op th)]\<rparr>"
  have "as_atomic s' ?n"
  proof (rule as_atomicI [OF assms(1), where t = t])
    show "thread_ok s' ?n t" using t es assms(5) by (simp add: assms(7) thread_ok_def afterwards_def idle_def)
    show "thread_ok s' ?n u" if "u \<noteq> t" for u
    proof (rule other_ok [of s n u])
      show "idle s' u = idle s u"
        using assms(4) that by (cases w) (auto simp: assms(7) idle_def has_mutex_def)
      show "idle s u \<or> ls_registry s' = ls_registry s \<and> nt_registry ?n = nt_registry n \<and> (\<forall>w. has_mutex s u w \<longrightarrow> has_mutex s' u w)"
        using assms(1,4) mutex_alone [of s t u] that by (cases w) (auto simp: assms(7) has_mutex_def as_atomic_def)
    qed (use assms(1) that in \<open>simp_all add: assms(7) as_atomic_def\<close>)
  qed (use assms(1) in \<open>simp_all add: assms(7) as_atomic_def\<close>)
  with enter [OF t(1) op] show ?thesis by blast
qed

text \<open>Afterwards it makes its calls.\<close>

lemma atomic_after:
  assumes "as_atomic s n" "ls_threads s t = Some th" "afterwards s n t th"
    and "ls_threads s' = (ls_threads s)(t := tho)" "ls_writer s' = ls_writer s" "ls_readers s' = ls_readers s"
    and "ls_registry s' = ls_registry s" "ls_begun s' = ls_begun s" "ls_made s' = nt_made n'"
    and "nt_registry n' = nt_registry n" "nt_ops n' = nt_ops n" "\<And>u. u \<noteq> t \<Longrightarrow> nt_pending n' u = nt_pending n u"
    and "nt_pending n' t = map_option (\<lambda>th. th_calls th @ fst (finish (th_rest th) (th_frame th) (ls_registry s))) tho"
    and "\<And>th. tho = Some th \<Longrightarrow> emits (th_rest th)"
  shows "as_atomic s' n'"
proof (rule as_atomicI [OF assms(1), where t = t])
  show "thread_ok s' n' t"
    using assms(3-8,11,13,14) by (cases tho) (auto simp: thread_ok_def afterwards_def idle_def)
  show "thread_ok s' n' u" if "u \<noteq> t" for u
    by (rule other_ok [of s n u])
      (use assms(1,4-8,10-12) that in \<open>simp_all add: as_atomic_def idle_def has_mutex_def\<close>)
qed (use assms(1,5-10) in \<open>simp_all add: as_atomic_def\<close>)

lemma atomic_step:
  assumes "as_atomic s n" "lock_step s s'"
  shows "\<exists>n'. as_atomic s' n' \<and> net_step\<^sup>*\<^sup>* n n'"
  using assms(2)
proof (cases rule: lock_step.cases)
  case (begin_call t op)
  from atomic_begin [OF assms(1) begin_call(2) begin_call(1)] show ?thesis .
next
  case (do_lock t th ss)
  from next_before [OF assms(1) do_lock(2)] do_lock(4) have b: "before s n t th" by simp
  then have "well_locked (Lock # ss)" using code_well_locked [of "th_op th"] do_lock(4) by (simp add: before_def)
  with do_lock have "as_atomic s' n"
    by (intro atomic_acquire [OF assms(1) do_lock(2) b do_lock(5), where w = True and ss = ss and wr = "Some t" and rd = "{}"])
      simp_all
  then show ?thesis by blast
next
  case (do_rlock t th ss)
  from next_before [OF assms(1) do_rlock(2)] do_rlock(4) have b: "before s n t th" by simp
  then have "well_locked (RLock # ss)" using code_well_locked [of "th_op th"] do_rlock(4) by (simp add: before_def)
  with do_rlock have "as_atomic s' n"
    by (intro atomic_acquire [OF assms(1) do_rlock(2) b do_rlock(5), where w = False and ss = ss and wr = None
          and rd = "insert t (ls_readers s)"])
      simp_all
  then show ?thesis by blast
next
  case (do_unlock t th ss)
  from next_in_section [OF assms(1) do_unlock(2)] do_unlock(4) have i: "in_section s n t th" by simp
  with do_unlock(4) have w: "has_mutex s t True" "emits ss" by (auto simp: in_section_def)
  then have "ls_readers s - {t} = {}" by (simp add: has_mutex_def)
  with do_unlock show ?thesis
    by (intro atomic_release [OF assms(1) do_unlock(2) i w]) (use w in \<open>simp_all add: has_mutex_def\<close>)
next
  case (do_runlock t th ss)
  from next_in_section [OF assms(1) do_runlock(2)] do_runlock(4) have i: "in_section s n t th" by simp
  with do_runlock(4) have w: "has_mutex s t False" "emits ss" by (auto simp: in_section_def)
  with do_runlock show ?thesis
    by (intro atomic_release [OF assms(1) do_runlock(2) i w]) (simp_all add: has_mutex_def)
next
  case (do_load t th f ss)
  from next_in_section [OF assms(1) do_load(2)] do_load(4) have i: "in_section s n t th" by simp
  with do_load(4) obtain w where w: "inside w ss" "has_mutex s t w" by (auto simp: in_section_def)
  with do_load have "as_atomic s' n"
    by (intro atomic_inside [OF assms(1) do_load(2) i w, where l = "f (ls_registry s) (th_frame th)" and r = "ls_registry s"])
      (simp_all add: goes_on_def)
  then show ?thesis by blast
next
  case (do_store t th f ss)
  from next_in_section [OF assms(1) do_store(2)] do_store(4) have i: "in_section s n t th" by simp
  with do_store(4) have w: "inside True ss" "has_mutex s t True" by (auto simp: in_section_def)
  with do_store have "as_atomic s' n"
    by (intro atomic_inside [OF assms(1) do_store(2) i w, where l = "th_frame th" and r = "f (th_frame th) (ls_registry s)"])
      simp_all
  then show ?thesis by blast
next
  case (do_emit t th f ss)
  from next_afterwards [OF assms(1) do_emit(2)] do_emit(4) have a: "afterwards s n t th" by simp
  with do_emit have "as_atomic s' n"
    by (intro atomic_after [OF assms(1) do_emit(2) a, where tho = "Some (th\<lparr>th_rest := ss, th_calls := f (th_frame th)\<rparr>)"])
      (use assms(1) in \<open>auto simp: afterwards_def as_atomic_def split: prod.splits\<close>)
  then show ?thesis by blast
next
  case (do_call t th e es)
  from thread_phase [OF assms(1) do_call(2)] do_call(3) have a: "afterwards s n t th"
    by (auto simp: before_def in_section_def)
  let ?n = "n\<lparr>nt_pending := (nt_pending n)(t \<mapsto> es @ fst (finish (th_rest th) (th_frame th) (ls_registry s))), nt_made := nt_made n @ [(t, e)]\<rparr>"
  have "net_step n ?n" by (rule make_call) (use a do_call(3) in \<open>simp add: afterwards_def\<close>)
  moreover have "as_atomic s' ?n"
    by (rule atomic_after [OF assms(1) do_call(2) a, where tho = "Some (th\<lparr>th_calls := es\<rparr>)"])
      (use assms(1) a do_call in \<open>auto simp: afterwards_def as_atomic_def\<close>)
  ultimately show ?thesis by blast
next
  case (do_return t th)
  from thread_phase [OF assms(1) do_return(2)] do_return(4) have a: "afterwards s n t th"
    by (auto simp: before_def in_section_def)
  let ?n = "n\<lparr>nt_pending := (nt_pending n)(t := None)\<rparr>"
  have "net_step n ?n" by (rule leave) (use a do_return(3,4) in \<open>simp add: afterwards_def\<close>)
  moreover have "as_atomic s' ?n"
    by (rule atomic_after [OF assms(1) do_return(2) a, where tho = None])
      (use assms(1) do_return in \<open>auto simp: as_atomic_def\<close>)
  ultimately show ?thesis by blast
qed

interpretation lock_atomic: simulation new_locks lock_step lock_reach new_threads net_step net_reach as_atomic
proof unfold_locales
  show "as_atomic new_locks new_threads"
    by (simp add: as_atomic_def thread_ok_def new_locks_def new_threads_def idle_def)
qed (rule atomic_step)

text \<open>The statements on the registry that threads can execute next do not meet.\<close>

definition exclusive :: "lock_state \<Rightarrow> bool" where
  "exclusive s \<longleftrightarrow> (\<forall>t th. ls_threads s t = Some th \<longrightarrow>
     (case th_rest th of
        Store f # ss \<Rightarrow> ls_writer s = Some t \<and> ls_readers s = {}
      | Load f # ss \<Rightarrow> ls_writer s = Some t \<and> ls_readers s = {} \<or> ls_writer s = None \<and> t \<in> ls_readers s
      | _ \<Rightarrow> True))"

lemma atomic_exclusive: "as_atomic s n \<Longrightarrow> exclusive s"
  unfolding exclusive_def
proof (intro allI impI)
  fix t th
  assume a: "as_atomic s n" "ls_threads s t = Some th"
  show "case th_rest th of
        Store f # ss \<Rightarrow> ls_writer s = Some t \<and> ls_readers s = {}
      | Load f # ss \<Rightarrow> ls_writer s = Some t \<and> ls_readers s = {} \<or> ls_writer s = None \<and> t \<in> ls_readers s
      | _ \<Rightarrow> True"
  proof (cases "th_rest th")
    case (Cons x ss)
    have "in_section s n t th" if "x = Store f \<or> x = Load f'" for f f'
      using next_in_section [OF a] Cons that by auto
    with Cons show ?thesis
      by (cases x) (auto simp: in_section_def has_mutex_def split: if_splits)
  qed simp
qed

text \<open>Nobody waits for ever: as long as a call is under way, some call can go on.\<close>

definition some_goes_on :: "lock_state \<Rightarrow> bool" where
  "some_goes_on s \<longleftrightarrow> (\<exists>s'. lock_step s s' \<and> ls_begun s' = ls_begun s)"

lemma section_goes_on:
  assumes "in_section s n t th" "ls_threads s t = Some th"
  shows "some_goes_on s"
proof -
  from assms(1) obtain w where w: "th_calls th = []" "inside w (th_rest th)" by (auto simp: in_section_def)
  then obtain x ss where x: "th_rest th = x # ss" by (cases "th_rest th") auto
  note steps = do_load do_store do_unlock do_runlock
  show ?thesis
    using w x assms(2) steps [of s t th] by (cases x) (fastforce simp: some_goes_on_def)+
qed

lemma atomic_goes_on:
  assumes "as_atomic s n" "ls_threads s t = Some th"
  shows "some_goes_on s"
proof (cases "th_calls th")
  case (Cons e es)
  with do_call [OF assms(2)] show ?thesis by (fastforce simp: some_goes_on_def)
next
  case Nil
  from thread_phase [OF assms] consider "before s n t th" | "in_section s n t th" | "afterwards s n t th" by blast
  then show ?thesis
  proof cases
    case 1
    show ?thesis
    proof (cases "\<forall>u. idle s u")
      case True
      then have free: "ls_writer s = None" "ls_readers s = {}" by (cases "ls_writer s"; force simp: idle_def)+
      have "well_locked (th_rest th)" "th_rest th \<noteq> []" using 1 code_well_locked by (auto simp: before_def)
      then obtain ss where "th_rest th = Lock # ss \<or> th_rest th = RLock # ss"
        by (cases "th_rest th" rule: well_locked.cases) auto
      with do_lock [OF assms(2) Nil _ free] do_rlock [OF assms(2) Nil _ free(1)] show ?thesis
        by (fastforce simp: some_goes_on_def)
    next
      case False
      then obtain u where u: "\<not> idle s u" by blast
      have "thread_ok s n u" using assms(1) by (simp add: as_atomic_def)
      with u obtain th' where th': "ls_threads s u = Some th'" by (auto simp: thread_ok_def split: option.splits)
      from thread_phase [OF assms(1) this] u have "in_section s n u th'" by (auto simp: before_def afterwards_def)
      from section_goes_on [OF this th'] show ?thesis .
    qed
  next
    case 2
    from section_goes_on [OF this assms(2)] show ?thesis .
  next
    case 3
    then have "emits (th_rest th)" by (simp add: afterwards_def)
    with do_emit [OF assms(2) Nil] do_return [OF assms(2) Nil] show ?thesis
      by (cases "th_rest th" rule: emits.cases) (fastforce simp: some_goes_on_def)+
  qed
qed

section \<open>One order of the calls\<close>

text \<open>The call a thread has begun and not yet brought into effect, and the calls it still makes for
  one that is in effect. A call is in effect once its section has been left.\<close>

definition owes_unlock :: "stmt list \<Rightarrow> bool" where
  "owes_unlock ss \<longleftrightarrow> list_ex (\<lambda>x. case x of Unlock \<Rightarrow> True | RUnlock \<Rightarrow> True | _ \<Rightarrow> False) ss"

definition entering :: "lock_state \<Rightarrow> nat \<Rightarrow> net_op list" where
  "entering s t = (case ls_threads s t of
     None \<Rightarrow> [] | Some th \<Rightarrow> if owes_unlock (th_rest th) then [th_op th] else [])"

definition still_calls :: "lock_state \<Rightarrow> nat \<Rightarrow> net_event list" where
  "still_calls s t = (case ls_threads s t of
     None \<Rightarrow> [] | Some th \<Rightarrow> if owes_unlock (th_rest th) then []
       else th_calls th @ fst (finish (th_rest th) (th_frame th) (ls_registry s)))"

text \<open>An order of the calls in effect explains a state when it keeps the order of every thread,
  nobody writes a registry that is not what the calls one after the other give, and every
  thread has made, or still makes, the calls they give it.\<close>

definition explains :: "(nat \<times> net_op) list \<Rightarrow> lock_state \<Rightarrow> bool" where
  "explains ops s \<longleftrightarrow>
     (ls_writer s = None \<longrightarrow> ls_registry s = snd (run_ops ops new_registry))
     \<and> (\<forall>t. of_thread t (ls_begun s) = of_thread t ops @ entering s t)
     \<and> (\<forall>t. of_thread t (ls_made s) @ still_calls s t = of_thread t (fst (run_ops ops new_registry)))"

lemma emits_owe: "emits ss \<Longrightarrow> \<not> owes_unlock ss"
  by (induction ss rule: emits.induct) (auto simp: owes_unlock_def)

lemma inside_owes: "inside w ss \<Longrightarrow> owes_unlock ss"
  by (induction w ss rule: inside.induct) (auto simp: owes_unlock_def)

lemma well_locked_owes: "well_locked ss \<Longrightarrow> ss \<noteq> [] \<Longrightarrow> owes_unlock ss"
  by (cases ss rule: well_locked.cases) (auto dest: inside_owes simp: owes_unlock_def)

lemma thread_explained:
  assumes "thread_ok s n t"
  shows "of_thread t (ls_begun s) = of_thread t (nt_ops n) @ entering s t \<and> still_calls s t = to_make n t"
proof (cases "ls_threads s t")
  case None
  with assms show ?thesis by (simp add: thread_ok_def entering_def still_calls_def to_make_def)
next
  case (Some th)
  with assms consider "before s n t th" | "in_section s n t th" | "afterwards s n t th" by (auto simp: thread_ok_def)
  then show ?thesis
  proof cases
    case 1
    then have "owes_unlock (th_rest th)" using well_locked_owes code_well_locked by (auto simp: before_def)
    with 1 Some show ?thesis by (simp add: before_def entering_def still_calls_def to_make_def)
  next
    case 2
    then have "owes_unlock (th_rest th)" using inside_owes by (auto simp: in_section_def)
    with 2 Some show ?thesis by (simp add: in_section_def entering_def still_calls_def to_make_def)
  next
    case 3
    then have "\<not> owes_unlock (th_rest th)" using emits_owe by (auto simp: afterwards_def)
    with 3 Some show ?thesis by (simp add: afterwards_def entering_def still_calls_def to_make_def)
  qed
qed

lemma atomic_explains:
  assumes "net_reach n" "as_atomic s n"
  shows "explains (nt_ops n) s"
proof -
  have "thread_ok s n t" for t using assms(2) by (simp add: as_atomic_def)
  note threads = thread_explained [OF this]
  have "ls_made s = nt_made n" "ls_writer s = None \<longrightarrow> ls_registry s = nt_registry n"
    using assms(2) by (simp_all add: as_atomic_def)
  with threads reach_linear [OF assms(1)] show ?thesis by (simp add: explains_def linear_def)
qed

lemma net_ops_grow: "net_step\<^sup>*\<^sup>* n n' \<Longrightarrow> \<exists>ops. nt_ops n' = nt_ops n @ ops"
proof (induction rule: rtranclp_induct)
  case (step n1 n2)
  then show ?case by (auto elim!: net_stepE)
qed simp

section \<open>Properties\<close>

text \<open>C15. The registry is linearizable although any thread can be stopped after any statement: at
  every moment there is one order of the calls in effect that explains the registry and all
  calls made, later calls come after it, so that a call that has returned comes before one
  that was begun later; no two threads are at a statement on the registry that one of them
  changes; and as long as a call is under way, some call can go on.\<close>

theorem registry_linearizable:
  assumes "lock_reach s" "lock_step\<^sup>*\<^sup>* s s'"
  shows "(\<exists>ops later. explains ops s \<and> explains (ops @ later) s')
    \<and> exclusive s' \<and> (ls_threads s' \<noteq> Map.empty \<longrightarrow> some_goes_on s')"
proof -
  obtain n where n: "net_reach n" "as_atomic s n" using lock_atomic.reach_related [OF assms(1)] by blast
  obtain n' where n': "net_reach n'" "as_atomic s' n'" "net_step\<^sup>*\<^sup>* n n'"
    using lock_atomic.steps_related [OF assms(2) n] by blast
  obtain later where "nt_ops n' = nt_ops n @ later" using net_ops_grow [OF n'(3)] by blast
  with atomic_explains [OF n] atomic_explains [OF n'(1,2)]
  have "explains (nt_ops n) s \<and> explains (nt_ops n @ later) s'" by simp
  moreover have "ls_threads s' \<noteq> Map.empty \<longrightarrow> some_goes_on s'"
    using atomic_goes_on [OF n'(2)] by (auto simp: fun_eq_iff)
  ultimately show ?thesis using atomic_exclusive [OF n'(2)] by blast
qed

text \<open>One thread is stopped in the middle of a registration, another waits for the mutex.\<close>

definition registering :: "bool \<Rightarrow> lock_state" where
  "registering unlocked = \<lparr>ls_writer = (if unlocked then None else Some 3), ls_readers = {},
     ls_registry = new_registry\<lparr>callbacks := [0], next_element := 1\<rparr>,
     ls_threads = [3 \<mapsto> \<lparr>th_op = Register, th_frame = new_frame, th_rest = (if unlocked then [] else [Unlock]), th_calls = []\<rparr>,
                   0 \<mapsto> \<lparr>th_op = AskDefault, th_frame = new_frame, th_rest = current_default_code, th_calls = []\<rparr>],
     ls_begun = [(3, Register), (0, AskDefault)], ls_made = []\<rparr>"

lemma reach_registering: "lock_reach (registering False)"
proof -
  let ?th = "\<lambda>l ss. \<lparr>th_op = Register, th_frame = l, th_rest = ss, th_calls = []\<rparr>"
  let ?st = "\<lambda>w r l ss. \<lparr>ls_writer = w, ls_readers = {}, ls_registry = r, ls_threads = [3 \<mapsto> ?th l ss],
     ls_begun = [(3, Register)], ls_made = []\<rparr>"
  let ?r = "new_registry\<lparr>callbacks := [0], next_element := 1\<rparr>"
  have "lock_reach (?st None new_registry new_frame register_code)"
    by (rule lock_runs.run_to [OF lock_new begin_call [where t = 3 and op = Register]])
      (simp_all add: new_locks_def goes_on_def)
  then have "lock_reach (?st (Some 3) new_registry new_frame (tl register_code))"
    by (rule lock_runs.run_to [OF _ do_lock [where t = 3 and th = "?th new_frame register_code" and ss = "tl register_code"]])
      (simp_all add: register_code_def goes_on_def)
  then have "lock_reach (?st (Some 3) new_registry new_frame (tl (tl register_code)))"
    by (rule lock_runs.run_to [OF _ do_load [where t = 3 and th = "?th new_frame (tl register_code)"
          and ss = "tl (tl register_code)" and f = "\<lambda>r l. l\<lparr>fr_elem := next_element r\<rparr>"]])
      (simp_all add: register_code_def goes_on_def new_frame_def new_registry_def)
  then have "lock_reach (?st (Some 3) ?r new_frame [Unlock])"
    by (rule lock_runs.run_to [OF _ do_store [where t = 3 and th = "?th new_frame (tl (tl register_code))" and ss = "[Unlock]"
          and f = "\<lambda>l r. r\<lparr>callbacks := callbacks r @ [fr_elem l], next_element := Suc (fr_elem l)\<rparr>"]])
      (simp_all add: register_code_def goes_on_def new_frame_def new_registry_def)
  then show ?thesis
    by (rule lock_runs.run_to [OF _ begin_call [where t = 0 and op = AskDefault]])
      (simp_all add: registering_def goes_on_def)
qed

theorem registry_linearizable_witness:
  "lock_reach (registering False) \<and> lock_step\<^sup>*\<^sup>* (registering False) (registering True)
    \<and> (\<exists>ops. explains ops (registering True)) \<and> some_goes_on (registering True)
    \<and> explains [(3, Register)] (registering True) \<and> \<not> explains [] (registering True)"
proof -
  let ?th = "\<lparr>th_op = Register, th_frame = new_frame, th_rest = [Unlock], th_calls = []\<rparr>"
  have "lock_step (registering False) ((goes_on 3 (?th\<lparr>th_rest := []\<rparr>) (registering False))\<lparr>ls_writer := None\<rparr>)"
    by (rule do_unlock) (simp_all add: registering_def)
  also have "(goes_on 3 (?th\<lparr>th_rest := []\<rparr>) (registering False))\<lparr>ls_writer := None\<rparr> = registering True"
    by (auto simp: registering_def goes_on_def fun_eq_iff)
  finally have step: "lock_step\<^sup>*\<^sup>* (registering False) (registering True)" by blast
  have "explains [(3, Register)] (registering True)" "\<not> explains [] (registering True)"
    by (auto simp: explains_def registering_def entering_def still_calls_def owes_unlock_def current_default_code_def
        monitor_register_callback_def register_callback_def new_registry_def)
  moreover have "ls_threads (registering True) \<noteq> Map.empty" by (auto simp: registering_def fun_eq_iff)
  ultimately show ?thesis using registry_linearizable [OF reach_registering step] reach_registering step by blast
qed

end
