(* ===== verification/Meter.thy ===== *)
theory Meter
  imports Engine
begin

text \<open>
  The poller goroutines and the meter they share (\<open>pollTraffic\<close> of vpn_engine/traffic.go): one
  poller per started session, each reading the counters of its own session on a tick and
  publishing a snapshot, or clearing the meter once its session is cancelled. A session is the
  start attempt of the engine it belongs to.
\<close>

section \<open>Model\<close>

text \<open>A poller waits in its \<open>select\<close>, or has read the counters and is about to publish.\<close>

datatype poll_pc = Waiting poller | Publishing poller

record meter =
  shown :: "snapshot option"
  cancelled :: "nat set"
  polling :: "nat \<rightharpoonup> poll_pc"

definition new_meter :: meter where
  "new_meter = \<lparr>shown = None, cancelled = {}, polling = Map.empty\<rparr>"

text \<open>The counters of a session are given by its reader at each tick. A tick can be chosen by
  \<open>select\<close> also when the session is cancelled, if both are ready.\<close>

inductive meter_step :: "(rat \<Rightarrow> 64 word) \<Rightarrow> (nat \<Rightarrow> stats_reader set) \<Rightarrow> meter \<Rightarrow> meter \<Rightarrow> bool"
  for ovf :: "rat \<Rightarrow> 64 word" and readers :: "nat \<Rightarrow> stats_reader set" where
  poll_start: "polling m n = None \<Longrightarrow> n \<notin> cancelled m \<Longrightarrow>
    meter_step ovf readers m (m\<lparr>polling := (polling m)(n \<mapsto> Waiting new_poller)\<rparr>)"
| session_stop: "meter_step ovf readers m (m\<lparr>cancelled := insert n (cancelled m)\<rparr>)"
| poll_read: "polling m n = Some (Waiting p) \<Longrightarrow> rd \<in> readers n \<Longrightarrow>
    meter_step ovf readers m (m\<lparr>polling := (polling m)(n \<mapsto> Publishing (poll_tick ovf rd now p))\<rparr>)"
| poll_publish: "polling m n = Some (Publishing p) \<Longrightarrow>
    meter_step ovf readers m (m\<lparr>shown := Some (last_snap p), polling := (polling m)(n \<mapsto> Waiting p)\<rparr>)"
| poll_done: "polling m n = Some (Waiting p) \<Longrightarrow> n \<in> cancelled m \<Longrightarrow>
    meter_step ovf readers m (m\<lparr>shown := None, polling := (polling m)(n := None)\<rparr>)"

inductive meter_reach :: "(rat \<Rightarrow> 64 word) \<Rightarrow> (nat \<Rightarrow> stats_reader set) \<Rightarrow> meter \<Rightarrow> bool"
  for ovf :: "rat \<Rightarrow> 64 word" and readers :: "nat \<Rightarrow> stats_reader set" where
  meter_new: "meter_reach ovf readers new_meter"
| meter_next: "meter_reach ovf readers m \<Longrightarrow> meter_step ovf readers m m' \<Longrightarrow> meter_reach ovf readers m'"

inductive_cases meter_stepE: "meter_step ovf readers m m'"

interpretation meter_runs: runs new_meter "meter_step ovf readers" "meter_reach ovf readers"
  by unfold_locales (rule meter_new, erule (1) meter_next, erule meter_reach.induct, blast+)

section \<open>Invariant\<close>

text \<open>What is shown was published by a poller that has not ended.\<close>

definition shown_inv :: "meter \<Rightarrow> bool" where
  "shown_inv m \<longleftrightarrow> (if shown m = None then True else \<exists>n. polling m n \<noteq> None)"

lemma shown_inv_step: "meter_step ovf readers m m' \<Longrightarrow> shown_inv m \<Longrightarrow> shown_inv m'"
  by (elim meter_stepE) (force simp: shown_inv_def split: if_splits)+

lemma reach_shown_inv: "meter_reach ovf readers m \<Longrightarrow> shown_inv m"
  by (rule meter_runs.run_invariant [OF _ shown_inv_step]) (simp_all add: shown_inv_def new_meter_def)

text \<open>Every total shown or about to be shown was read from a session that was started.\<close>

definition totals_of :: "(nat \<Rightarrow> stats_reader set) \<Rightarrow> nat \<Rightarrow> snapshot \<Rightarrow> bool" where
  "totals_of readers n s \<longleftrightarrow> (\<exists>rd \<in> readers n. read_totals rd = (total (up s), total (down s)))"

definition source_inv :: "(nat \<Rightarrow> stats_reader set) \<Rightarrow> meter \<Rightarrow> bool" where
  "source_inv readers m \<longleftrightarrow>
     (\<forall>n p. polling m n = Some (Publishing p) \<longrightarrow> totals_of readers n (last_snap p))
     \<and> (\<forall>s. shown m = Some s \<longrightarrow> (\<exists>n. totals_of readers n s))"

lemma tick_totals: "rd \<in> readers n \<Longrightarrow> totals_of readers n (last_snap (poll_tick ovf rd now p))"
  by (auto simp: totals_of_def poll_tick_def Let_def split: prod.splits)

lemma source_inv_step: "meter_step ovf readers m m' \<Longrightarrow> source_inv readers m \<Longrightarrow> source_inv readers m'"
  by (elim meter_stepE) (fastforce simp: source_inv_def tick_totals split: if_splits)+

lemma reach_source_inv: "meter_reach ovf readers m \<Longrightarrow> source_inv readers m"
  by (rule meter_runs.run_invariant [OF _ source_inv_step]) (simp_all add: source_inv_def new_meter_def)

section \<open>Ending the pollers\<close>

lemma reach_finite: "meter_reach ovf readers m \<Longrightarrow> finite (dom (polling m))"
proof (induction rule: meter_reach.induct)
  case (meter_next m m')
  from meter_next(2) have "\<exists>n. dom (polling m') \<subseteq> insert n (dom (polling m))"
    by (elim meter_stepE) (force split: if_splits)+
  with meter_next(3) show ?case by (meson finite_insert finite_subset)
qed (simp add: new_meter_def)

text \<open>A poller of a cancelled session ends: it publishes what it has read, and then finds its
  session cancelled.\<close>

lemma poller_ends:
  assumes "polling m n = Some pc" "n \<in> cancelled m"
  shows "\<exists>m'. (meter_step ovf readers)\<^sup>*\<^sup>* m m' \<and> polling m' = (polling m)(n := None) \<and> cancelled m' = cancelled m"
proof (cases pc)
  case (Waiting p)
  then have "meter_step ovf readers m (m\<lparr>shown := None, polling := (polling m)(n := None)\<rparr>)"
    using assms by (simp add: poll_done)
  then show ?thesis
    by (intro exI [of _ "m\<lparr>shown := None, polling := (polling m)(n := None)\<rparr>"]) auto
next
  case (Publishing p)
  define m1 where "m1 = m\<lparr>shown := Some (last_snap p), polling := (polling m)(n \<mapsto> Waiting p)\<rparr>"
  have s1: "meter_step ovf readers m m1"
    unfolding m1_def using assms Publishing by (simp add: poll_publish)
  have s2: "meter_step ovf readers m1 (m1\<lparr>shown := None, polling := (polling m1)(n := None)\<rparr>)"
    using assms by (intro poll_done [where p = p]) (simp_all add: m1_def)
  define m2 where "m2 = m1\<lparr>shown := None, polling := (polling m1)(n := None)\<rparr>"
  have "(meter_step ovf readers)\<^sup>*\<^sup>* m m2"
    using rtranclp.rtrancl_into_rtrancl [OF r_into_rtranclp [of "meter_step ovf readers", OF s1] s2]
    by (simp add: m2_def)
  then show ?thesis by (intro exI [of _ m2]) (simp add: m1_def m2_def)
qed

lemma pollers_end:
  assumes "finite A" "dom (polling m) = A" "A \<subseteq> cancelled m"
  shows "\<exists>m'. (meter_step ovf readers)\<^sup>*\<^sup>* m m' \<and> polling m' = Map.empty"
  using assms
proof (induction A arbitrary: m rule: finite_induct)
  case empty
  then show ?case by (intro exI [of _ m]) simp
next
  case (insert n A)
  then have "n \<in> dom (polling m)" by simp
  then obtain pc where "polling m n = Some pc" by blast
  with insert.prems obtain m1 where m1: "(meter_step ovf readers)\<^sup>*\<^sup>* m m1"
      "polling m1 = (polling m)(n := None)" "cancelled m1 = cancelled m"
    using poller_ends [of m n pc ovf readers] by auto
  then have "dom (polling m1) = A" "A \<subseteq> cancelled m1" using insert by auto
  then obtain m' where "(meter_step ovf readers)\<^sup>*\<^sup>* m1 m'" "polling m' = Map.empty"
    using insert.IH by blast
  with m1(1) show ?case by (meson rtranclp_trans)
qed

section \<open>Properties\<close>

text \<open>Once every poller has ended, the meter is empty and \<open>GetStats\<close> reports zeros; a poller
  whose session is cancelled and that waits can always end; and what is shown at any time are
  totals read from the counters of some session.\<close>

lemma meter_cleared:
  assumes "meter_reach ovf readers m"
  shows "(polling m = Map.empty \<longrightarrow> stats_json (shown m) = stats_json None)
    \<and> (\<forall>n p. polling m n = Some (Waiting p) \<and> n \<in> cancelled m \<longrightarrow>
          (\<exists>m'. meter_step ovf readers m m' \<and> polling m' n = None))
    \<and> (\<forall>s. shown m = Some s \<longrightarrow> (\<exists>n. totals_of readers n s))"
proof (intro conjI impI allI)
  show "stats_json (shown m) = stats_json None" if "polling m = Map.empty"
  proof -
    have "shown m = None"
      using reach_shown_inv [OF assms] that by (simp add: shown_inv_def split: if_splits)
    then show ?thesis by simp
  qed
  show "\<exists>m'. meter_step ovf readers m m' \<and> polling m' n = None"
    if "polling m n = Some (Waiting p) \<and> n \<in> cancelled m" for n p
    using poll_done [of m n p ovf readers] that by (intro exI) auto
  show "\<exists>n. totals_of readers n s" if "shown m = Some s" for s
    using reach_source_inv [OF assms] that by (simp add: source_inv_def)
qed

definition poll_result :: poller where
  "poll_result = poll_tick (\<lambda>_. 0) (\<lambda>_. 250) 5 new_poller"

lemma poll_result_total: "total (up (last_snap poll_result)) = 500"
  by (simp add: poll_result_def poll_tick_def read_totals_eq new_poller_def Let_def)

text \<open>Two sessions of which only the first carried traffic.\<close>

definition two_sessions :: "nat \<Rightarrow> stats_reader set" where
  "two_sessions n = (if n = 0 then {\<lambda>_. 250} else {\<lambda>_. 0})"

end
