(* ===== verification/Engine_Meter.thy ===== *)
theory Engine_Meter
  imports Meter
begin

text \<open>
  The engine library as a whole: the calls of the user interface on the engine
  (engine_controller.go) beside the poller goroutines that sample the traffic of each run
  (traffic.go). A call that starts an instance starts its poller, stopping cancels the context
  the poller waits on, and the meter the pollers write is what \<open>GetStats\<close> reads. Calls hold the
  engine's mutex and neither read nor write the meter, so a call is one step beside the pollers.
\<close>

section \<open>Contexts and pollers of the engine\<close>

lemma pollers_simps [simp]:
  "pollers (set_status s e) = pollers e" "pollers (set_error m e) = pollers e"
  "pollers (cancel_ctx n e) = pollers e"
  by (simp_all add: set_status_def set_error_def cancel_ctx_def)

lemma traffic_simps [simp]:
  "traffic (set_status s e) = traffic e" "traffic (set_error m e) = traffic e"
  "traffic (cancel_ctx n e) = traffic e"
  by (simp_all add: set_status_def set_error_def cancel_ctx_def)

lemma force_cleanup_keeps: "force_cleanup c e = Done e' \<Longrightarrow> pollers e' = pollers e \<and> traffic e' = traffic e"
  by (auto simp: force_cleanup_def run_bind_Done split: option.splits close_outcome.splits)

lemma recovered_keeps:
  "recovered c m e = Done (r, e') \<Longrightarrow> pollers e' = pollers e \<and> traffic e' = traffic e"
  by (auto simp: recovered_def Let_def run_bind_Done dest: force_cleanup_keeps)

text \<open>What starting does to them: the context of the attempt stays alive or is cancelled, and the
  poller is started exactly for an instance that is then held.\<close>

definition start_effect :: "engine \<Rightarrow> engine \<Rightarrow> bool" where
  "start_effect e e' \<longleftrightarrow> traffic e' = traffic e
     \<and> live_ctxs e' - {attempts e} = live_ctxs e - {attempts e}
     \<and> (pollers e' = pollers e \<or> pollers e' = insert (attempts e) (pollers e) \<and> instance_of e' = Some (attempts e))"

lemma start_effectI:
  assumes "traffic e' = traffic e" "live_ctxs e' - {attempts e} = live_ctxs e - {attempts e}" "pollers e' = pollers e"
  shows "start_effect e e'"
  using assms by (simp add: start_effect_def)

lemma recovered_effect:
  assumes "recovered c m e1 = Done (r, e')" "cancel_of e1 = instance_of e1" "instance_of e1 \<in> {None, Some (attempts e)}"
    and "traffic e1 = traffic e" "live_ctxs e1 - {attempts e} = live_ctxs e - {attempts e}" "pollers e1 = pollers e"
  shows "start_effect e e'"
proof (rule start_effectI)
  have "live_ctxs e' = live_ctxs e1 - set_option (instance_of e1)" using recovered_Done [OF assms(1,2)] by simp
  then show "live_ctxs e' - {attempts e} = live_ctxs e - {attempts e}" using assms(3,5)
    by (cases "instance_of e1") simp_all
qed (use recovered_keeps [OF assms(1)] assms(4,6) in simp_all)

lemma start_effect:
  assumes "start c config e = Done (r, e')" "instance_of e = None" "cancel_of e = None"
  shows "start_effect e e'"
proof -
  define n where "n = attempts e"
  define e1 where "e1 = (set_status Starting e)\<lparr>attempts := Suc n, live_ctxs := insert n (live_ctxs e)\<rparr>"
  define e2 where "e2 = e1\<lparr>live_boxes := insert n (live_boxes e1)\<rparr>"
  define e3 where "e3 = e2\<lparr>live_boxes := live_boxes e2 - {n}\<rparr>"
  have e1: "instance_of e1 = None" "cancel_of e1 = None" "traffic e1 = traffic e" "pollers e1 = pollers e"
    "live_ctxs e1 = insert n (live_ctxs e)"
    using assms(2,3) by (simp_all add: e1_def)
  have rec: "start_effect e e'" if "recovered c m x = Done (r, e')" "x = e1 \<or> x = e2" for m x
    by (rule recovered_effect [OF that(1)]) (use that(2) e1 in \<open>auto simp: e2_def n_def\<close>)
  have fail: "start_effect e e'" if "failed n m x = Done (r, e')" "x = e1 \<or> x = e3" for m x
    using that e1 by (auto simp: failed_def e2_def e3_def n_def intro!: start_effectI)
  have fin: "start_effect e e'" if "start_finish c n e2 = Done (r, e')"
  proof (cases "core_stats c n")
    case (Panics m)
    let ?e = "set_status Running (e2\<lparr>instance_of := Some n, cancel_of := Some n, last_error := []\<rparr>)"
    from Panics that have "recovered c m ?e = Done (r, e')" by (simp add: start_finish_def Let_def)
    then show ?thesis by (rule recovered_effect) (use e1 in \<open>auto simp: e2_def n_def\<close>)
  qed (use that e1 in \<open>auto simp: start_finish_def Let_def start_effect_def e2_def n_def\<close>)
  from assms(1,2) show ?thesis
    unfolding start_def start_box_def
    by (auto simp: Let_def n_def [symmetric] e1_def [symmetric] e2_def [symmetric] e3_def [symmetric]
        split: outcome.splits close_outcome.splits dest: rec fail fin)
qed

lemma stop_keeps: "stop c e = Done e' \<Longrightarrow> pollers e' = pollers e \<and> traffic e' = traffic e"
  by (auto simp: stop_def run_bind_Done split: if_splits dest: force_cleanup_keeps)

lemma close_ends_keeps: "close_ends c b e = Done e' \<Longrightarrow> attempts e' = attempts e \<and> live_ctxs e' = live_ctxs e
  \<and> pollers e' = pollers e \<and> traffic e' = traffic e \<and> instance_of e' = instance_of e"
  by (auto simp: close_ends_def split: if_splits close_outcome.splits)

section \<open>The library\<close>

record lib =
  lb_engine :: engine
  lb_meter :: meter

definition new_lib :: lib where
  "new_lib = \<lparr>lb_engine = new_engine, lb_meter = new_meter\<rparr>"

text \<open>After \<open>cancel\<close> the pollers find the contexts done that were made and are not alive.\<close>

definition contexts_cancelled :: "engine \<Rightarrow> meter \<Rightarrow> meter" where
  "contexts_cancelled e' m = m\<lparr>cancelled := {..<attempts e'} - live_ctxs e'\<rparr>"

text \<open>\<open>startTrafficPoller\<close> starts a goroutine for the context it found a reader for.\<close>

definition pollers_started :: "engine \<Rightarrow> engine \<Rightarrow> meter \<Rightarrow> meter" where
  "pollers_started e e' m =
     m\<lparr>polling := (\<lambda>n. if n \<in> pollers e' - pollers e then Some (Waiting new_poller) else polling m n)\<rparr>"

definition after_call :: "engine \<Rightarrow> engine \<Rightarrow> meter \<Rightarrow> meter" where
  "after_call e e' m = contexts_cancelled e' (pollers_started e e' m)"

lemma after_call_def':
  "after_call e e' m =
     m\<lparr>cancelled := {..<attempts e'} - live_ctxs e',
       polling := (\<lambda>n. if n \<in> pollers e' - pollers e then Some (Waiting new_poller) else polling m n)\<rparr>"
  by (simp add: after_call_def contexts_cancelled_def pollers_started_def)

text \<open>A poller moves: neither starting nor cancelling is its step.\<close>

inductive lib_step :: "(rat \<Rightarrow> 64 word) \<Rightarrow> (nat \<Rightarrow> stats_reader set) \<Rightarrow> core \<Rightarrow> lib \<Rightarrow> lib \<Rightarrow> bool"
  for ovf :: "rat \<Rightarrow> 64 word" and readers :: "nat \<Rightarrow> stats_reader set" and c :: core where
  api_call: "engine_call c k (lb_engine l) = Done e \<Longrightarrow>
    lib_step ovf readers c l \<lparr>lb_engine = e, lb_meter = after_call (lb_engine l) e (lb_meter l)\<rparr>"
| poller_moves: "meter_step ovf readers (lb_meter l) m \<Longrightarrow> cancelled m = cancelled (lb_meter l) \<Longrightarrow>
    dom (polling m) \<subseteq> dom (polling (lb_meter l)) \<Longrightarrow>
    lib_step ovf readers c l \<lparr>lb_engine = (lb_engine l)\<lparr>traffic := shown m\<rparr>, lb_meter = m\<rparr>"

inductive lib_reach :: "(rat \<Rightarrow> 64 word) \<Rightarrow> (nat \<Rightarrow> stats_reader set) \<Rightarrow> core \<Rightarrow> lib \<Rightarrow> bool"
  for ovf :: "rat \<Rightarrow> 64 word" and readers :: "nat \<Rightarrow> stats_reader set" and c :: core where
  lib_new: "lib_reach ovf readers c new_lib"
| lib_next: "lib_reach ovf readers c l \<Longrightarrow> lib_step ovf readers c l l' \<Longrightarrow> lib_reach ovf readers c l'"

interpretation lib_runs: runs new_lib "lib_step ovf readers c" "lib_reach ovf readers c"
  by unfold_locales (rule lib_new, erule (1) lib_next, erule lib_reach.induct, blast+)

section \<open>How engine and meter agree\<close>

definition lib_inv :: "lib \<Rightarrow> bool" where
  "lib_inv l \<longleftrightarrow> engine_inv (lb_engine l)
     \<and> live_ctxs (lb_engine l) \<subseteq> {..<attempts (lb_engine l)}
     \<and> pollers (lb_engine l) \<subseteq> {..<attempts (lb_engine l)}
     \<and> pollers (lb_engine l) \<inter> live_ctxs (lb_engine l) \<subseteq> set_option (instance_of (lb_engine l))
     \<and> cancelled (lb_meter l) = {..<attempts (lb_engine l)} - live_ctxs (lb_engine l)
     \<and> dom (polling (lb_meter l)) \<subseteq> pollers (lb_engine l)
     \<and> traffic (lb_engine l) = shown (lb_meter l)"

definition measures :: "lib \<Rightarrow> meter \<Rightarrow> bool" where
  "measures l m \<longleftrightarrow> m = lb_meter l \<and> lib_inv l"

lemma engine_inv_traffic [simp]: "engine_inv (e\<lparr>traffic := t\<rparr>) = engine_inv e"
  by (simp add: engine_inv_def)

text \<open>A call that changes neither contexts nor pollers leaves the meter as it is.\<close>

lemma call_unchanged:
  assumes "lib_inv l" "engine_inv e" "attempts e = attempts (lb_engine l)" "live_ctxs e = live_ctxs (lb_engine l)"
    and "pollers e = pollers (lb_engine l)" "traffic e = traffic (lb_engine l)" "instance_of e = instance_of (lb_engine l)"
  shows "after_call (lb_engine l) e (lb_meter l) = lb_meter l \<and> lib_inv \<lparr>lb_engine = e, lb_meter = lb_meter l\<rparr>"
  using assms by (simp add: lib_inv_def after_call_def')

lemma call_stop:
  assumes "lib_inv l" "stop c (lb_engine l) = Done e"
  shows "(meter_step ovf readers)\<^sup>*\<^sup>* (lb_meter l) (after_call (lb_engine l) e (lb_meter l))
    \<and> lib_inv \<lparr>lb_engine = e, lb_meter = after_call (lb_engine l) e (lb_meter l)\<rparr>"
proof -
  let ?e = "lb_engine l" and ?m = "lb_meter l"
  have cancel: "cancel_of ?e = instance_of ?e" using assms(1) by (simp add: lib_inv_def engine_inv_def)
  note s = stop_Done [OF assms(2) cancel] and k = stop_keeps [OF assms(2)]
  have inv: "engine_inv e"
    using engine_inv_call [of c CallStop ?e e] assms by (simp add: StopEngine_def lib_inv_def)
  show ?thesis
  proof (cases "instance_of ?e")
    case None
    with s k inv call_unchanged [OF assms(1) inv] show ?thesis by simp
  next
    case (Some b)
    then have b: "b < attempts ?e" "b \<in> live_ctxs ?e" using assms(1) by (simp_all add: lib_inv_def engine_inv_def)
    have c: "{..<attempts ?e} - (live_ctxs ?e - {b}) = insert b (cancelled ?m)"
      using b assms(1) by (auto simp: lib_inv_def)
    have "after_call ?e e ?m = ?m\<lparr>cancelled := insert b (cancelled ?m)\<rparr>"
      using s k Some by (simp add: after_call_def' c)
    moreover have "lib_inv \<lparr>lb_engine = e, lb_meter = ?m\<lparr>cancelled := insert b (cancelled ?m)\<rparr>\<rparr>"
      using s k Some inv assms(1) by (auto simp: lib_inv_def c)
    ultimately show ?thesis using session_stop [of ovf readers ?m b] by auto
  qed
qed

lemma call_start:
  assumes "lib_inv l" "start c config (lb_engine l) = Done (r, e)"
  shows "(meter_step ovf readers)\<^sup>*\<^sup>* (lb_meter l) (after_call (lb_engine l) e (lb_meter l))
    \<and> lib_inv \<lparr>lb_engine = e, lb_meter = after_call (lb_engine l) e (lb_meter l)\<rparr>"
proof (cases "instance_of (lb_engine l)")
  case (Some b)
  with assms(2) have "e = lb_engine l" by (simp add: start_running)
  with call_unchanged [OF assms(1)] assms(1) show ?thesis by (simp add: lib_inv_def)
next
  case None
  let ?e = "lb_engine l" and ?m = "lb_meter l" and ?n = "attempts (lb_engine l)"
  have inv: "engine_inv ?e" using assms(1) by (simp add: lib_inv_def)
  with None have cancel: "cancel_of ?e = None" by (simp add: engine_inv_def)
  have n: "attempts e = Suc ?n"
    using start_Done [OF assms(2) None cancel] by (auto simp: start_failed_def start_succeeded_def)
  note f = start_effect [OF assms(2) None cancel, unfolded start_effect_def]
  from f have live: "live_ctxs e = live_ctxs ?e \<union> (live_ctxs e \<inter> {?n})"
    using assms(1) by (auto simp: lib_inv_def)
  have inv': "engine_inv e" by (rule start_inv [OF assms(2) None inv])
  have fresh: "polling ?m ?n = None" "?n \<notin> cancelled ?m" "?n \<notin> pollers ?e" "?n \<notin> live_ctxs ?e"
    using assms(1) by (auto simp: lib_inv_def)
  have "pollers ?e \<inter> live_ctxs ?e = {}" using assms(1) None by (auto simp: lib_inv_def)
  with live fresh(3) have old: "pollers ?e \<inter> live_ctxs e = {}" by blast
  have range: "live_ctxs ?e \<subseteq> {..<?n}" "pollers ?e \<subseteq> {..<?n}" "dom (polling ?m) \<subseteq> pollers ?e"
      "cancelled ?m = {..<?n} - live_ctxs ?e" "traffic e = shown ?m"
    using assms(1) f by (simp_all add: lib_inv_def)
  have "live_ctxs e \<subseteq> insert ?n (live_ctxs ?e)" using live by blast
  with range(1) have bound: "live_ctxs e \<subseteq> {..<Suc ?n}" by auto
  have grown: "pollers ?e \<subseteq> {..<Suc ?n}" using range(2) by auto
  show ?thesis
  proof (cases "pollers e = pollers ?e")
    case True
    have c: "{..<Suc ?n} - live_ctxs e = (if ?n \<in> live_ctxs e then cancelled ?m else insert ?n (cancelled ?m))"
      using live range(1,4) by auto
    have a: "after_call ?e e ?m = ?m\<lparr>cancelled := {..<Suc ?n} - live_ctxs e\<rparr>"
      by (simp add: after_call_def' True n)
    have "(meter_step ovf readers)\<^sup>*\<^sup>* ?m (?m\<lparr>cancelled := {..<Suc ?n} - live_ctxs e\<rparr>)"
      unfolding c using session_stop [of ovf readers ?m ?n] by auto
    moreover have "lib_inv \<lparr>lb_engine = e, lb_meter = ?m\<lparr>cancelled := {..<Suc ?n} - live_ctxs e\<rparr>\<rparr>"
      using inv' n range old True bound grown by (simp add: lib_inv_def)
    ultimately show ?thesis by (simp add: a)
  next
    case False
    with f have p: "pollers e = insert ?n (pollers ?e)" "instance_of e = Some ?n" by auto
    then have l: "?n \<in> live_ctxs e" using inv' by (simp add: engine_inv_def)
    then have c: "{..<Suc ?n} - live_ctxs e = cancelled ?m" using live range(1,4) by auto
    have a: "after_call ?e e ?m = ?m\<lparr>polling := (polling ?m)(?n \<mapsto> Waiting new_poller)\<rparr>"
      using fresh(3) by (auto simp: after_call_def' p n c fun_eq_iff)
    have "meter_step ovf readers ?m (?m\<lparr>polling := (polling ?m)(?n \<mapsto> Waiting new_poller)\<rparr>)"
      by (rule poll_start [OF fresh(1,2)])
    moreover have "lib_inv \<lparr>lb_engine = e, lb_meter = ?m\<lparr>polling := (polling ?m)(?n \<mapsto> Waiting new_poller)\<rparr>\<rparr>"
      using inv' n range old p c bound grown by (auto simp: lib_inv_def)
    ultimately show ?thesis by (auto simp: a)
  qed
qed

lemma measures_step:
  assumes "measures l m" "lib_step ovf readers c l l'"
  shows "measures l' (lb_meter l') \<and> (meter_step ovf readers)\<^sup>*\<^sup>* m (lb_meter l')"
  using assms(2)
proof (cases rule: lib_step.cases)
  case (api_call k e)
  have inv: "lib_inv l" and m: "m = lb_meter l" using assms(1) by (simp_all add: measures_def)
  show ?thesis
  proof (cases k)
    case (CallStart config)
    with api_call obtain r where "start c (c_string config) (lb_engine l) = Done (r, e)"
      by (auto simp: run_bind_Done StartEngine_Done)
    from call_start [OF inv this, of ovf readers] api_call m show ?thesis by (simp add: measures_def)
  next
    case CallStop
    with api_call have "stop c (lb_engine l) = Done e" by (simp add: StopEngine_def)
    from call_stop [OF inv this, of ovf readers] api_call m show ?thesis by (simp add: measures_def)
  next
    case (CallSetTunFd fd)
    with api_call have e: "e = SetTunFd fd (lb_engine l)" by simp
    have "engine_inv e" using engine_inv_call [OF api_call(2)] inv by (simp add: lib_inv_def)
    from call_unchanged [OF inv this] api_call e m show ?thesis by (simp add: measures_def SetTunFd_def)
  next
    case (CloseEnds b)
    have "engine_inv e" using engine_inv_call [OF api_call(2)] inv by (simp add: lib_inv_def)
    from call_unchanged [OF inv this] api_call CloseEnds close_ends_keeps [of c b "lb_engine l" e] m show ?thesis
      by (simp add: measures_def)
  qed
next
  case (poller_moves m')
  have "dom (polling m') \<subseteq> pollers (lb_engine l)"
    using subset_trans [OF poller_moves(4)] assms(1) by (simp add: measures_def lib_inv_def)
  with poller_moves assms(1) show ?thesis by (simp add: measures_def lib_inv_def r_into_rtranclp)
qed

interpretation lib_measures: simulation new_lib "lib_step ovf readers c" "lib_reach ovf readers c"
    new_meter "meter_step ovf readers" "meter_reach ovf readers" measures
proof unfold_locales
  show "measures new_lib new_meter"
    by (simp add: measures_def lib_inv_def new_lib_def new_meter_def engine_inv_def new_engine_def)
qed (use measures_step in blast)

lemma lib_reach_inv:
  "lib_reach ovf readers c l \<Longrightarrow> meter_reach ovf readers (lb_meter l) \<and> lib_inv l"
  using lib_measures.reach_related by (auto simp: measures_def)

section \<open>Draining\<close>

lemma lib_poller_ends:
  assumes "polling (lb_meter l) n = Some pc" "n \<in> cancelled (lb_meter l)"
  shows "\<exists>m. (lib_step ovf readers c)\<^sup>*\<^sup>* l \<lparr>lb_engine = (lb_engine l)\<lparr>traffic := shown m\<rparr>, lb_meter = m\<rparr>
    \<and> polling m = (polling (lb_meter l))(n := None) \<and> cancelled m = cancelled (lb_meter l)"
proof -
  have ends: "lib_step ovf readers c k \<lparr>lb_engine = (lb_engine k)\<lparr>traffic := None\<rparr>,
      lb_meter = (lb_meter k)\<lparr>shown := None, polling := (polling (lb_meter k))(n := None)\<rparr>\<rparr>"
    if "polling (lb_meter k) n = Some (Waiting p)" "n \<in> cancelled (lb_meter k)" for k p
    using poller_moves [OF poll_done [OF that]] by auto
  show ?thesis
  proof (cases pc)
    case (Waiting p)
    with ends [of l p] assms show ?thesis
      by (intro exI [of _ "(lb_meter l)\<lparr>shown := None, polling := (polling (lb_meter l))(n := None)\<rparr>"]) auto
  next
    case (Publishing p)
    let ?m = "(lb_meter l)\<lparr>shown := Some (last_snap p), polling := (polling (lb_meter l))(n \<mapsto> Waiting p)\<rparr>"
    let ?k = "\<lparr>lb_engine = (lb_engine l)\<lparr>traffic := shown ?m\<rparr>, lb_meter = ?m\<rparr>"
    have "lib_step ovf readers c l ?k"
      by (rule poller_moves [OF poll_publish]) (use assms Publishing in auto)
    with ends [of ?k p] assms(2) show ?thesis
      by (intro exI [of _ "?m\<lparr>shown := None, polling := (polling ?m)(n := None)\<rparr>"]) auto
  qed
qed

lemma lib_pollers_end:
  assumes "finite A" "dom (polling (lb_meter l)) = A" "A \<subseteq> cancelled (lb_meter l)" "traffic (lb_engine l) = shown (lb_meter l)"
  shows "\<exists>m. (lib_step ovf readers c)\<^sup>*\<^sup>* l \<lparr>lb_engine = (lb_engine l)\<lparr>traffic := shown m\<rparr>, lb_meter = m\<rparr>
    \<and> polling m = Map.empty"
  using assms
proof (induction A arbitrary: l rule: finite_induct)
  case empty
  then have "l = \<lparr>lb_engine = (lb_engine l)\<lparr>traffic := shown (lb_meter l)\<rparr>, lb_meter = lb_meter l\<rparr>"
    by (cases l; cases "lb_engine l") simp
  then have "(lib_step ovf readers c)\<^sup>*\<^sup>* l \<lparr>lb_engine = (lb_engine l)\<lparr>traffic := shown (lb_meter l)\<rparr>, lb_meter = lb_meter l\<rparr>"
    by (metis rtranclp.rtrancl_refl)
  with empty show ?case by (intro exI [of _ "lb_meter l"]) simp
next
  case (insert n A)
  then obtain pc where "polling (lb_meter l) n = Some pc" by blast
  with insert.prems obtain m where m: "(lib_step ovf readers c)\<^sup>*\<^sup>* l \<lparr>lb_engine = (lb_engine l)\<lparr>traffic := shown m\<rparr>, lb_meter = m\<rparr>"
      "polling m = (polling (lb_meter l))(n := None)" "cancelled m = cancelled (lb_meter l)"
    using lib_poller_ends [of l n pc ovf readers c] by auto
  let ?k = "\<lparr>lb_engine = (lb_engine l)\<lparr>traffic := shown m\<rparr>, lb_meter = m\<rparr>"
  have "dom (polling (lb_meter ?k)) = A" "A \<subseteq> cancelled (lb_meter ?k)" "traffic (lb_engine ?k) = shown (lb_meter ?k)"
    using insert m by auto
  from insert.IH [OF this] m(1) show ?case by auto (meson rtranclp_trans)
qed

text \<open>What is shown was counted by the reader of a run whose poller was started.\<close>

definition counted :: "(nat \<Rightarrow> stats_reader set) \<Rightarrow> lib \<Rightarrow> bool" where
  "counted readers l \<longleftrightarrow> (\<forall>s. traffic (lb_engine l) = Some s \<longrightarrow> (\<exists>n \<in> pollers (lb_engine l). totals_of readers n s))"

lemma call_keeps:
  assumes "engine_call c k e = Done e'" "engine_inv e"
  shows "traffic e' = traffic e \<and> pollers e \<subseteq> pollers e'"
proof (cases k)
  case (CallStart config)
  with assms(1) obtain r where r: "start c (c_string config) e = Done (r, e')"
    by (auto simp: run_bind_Done StartEngine_Done)
  show ?thesis
  proof (cases "instance_of e")
    case None
    with start_effect [OF r] assms(2) show ?thesis by (auto simp: engine_inv_def start_effect_def)
  next
    case (Some b)
    with r show ?thesis by (simp add: start_running)
  qed
next
  case CallStop
  with assms(1) stop_keeps show ?thesis by (auto simp: StopEngine_def)
next
  case (CallSetTunFd fd)
  with assms(1) show ?thesis by (auto simp: SetTunFd_def)
next
  case (CloseEnds b)
  with assms(1) close_ends_keeps [of c b e e'] show ?thesis by simp
qed

lemma lib_reach_counted: "lib_reach ovf readers c l \<Longrightarrow> counted readers l"
proof (induction rule: lib_runs.run_induct)
  case start
  show ?case by (simp add: counted_def new_lib_def new_engine_def)
next
  case (move l l')
  note inv = lib_reach_inv [OF move(1)]
  from move(2) show ?case
  proof (cases rule: lib_step.cases)
    case (api_call k e)
    with call_keeps [of c k "lb_engine l" e] inv move.IH show ?thesis
      by (fastforce simp: counted_def lib_inv_def)
  next
    case (poller_moves m)
    have "\<exists>n \<in> pollers (lb_engine l). totals_of readers n s" if "shown m = Some s" for s
      using poller_moves(2)
    proof (cases rule: meter_step.cases)
      case (poll_publish n p)
      then have "n \<in> pollers (lb_engine l)" using inv by (auto simp: lib_inv_def)
      with poll_publish that inv reach_source_inv [of ovf readers "lb_meter l"] show ?thesis
        by (auto simp: source_inv_def)
    qed (use that inv move.IH in \<open>auto simp: counted_def lib_inv_def\<close>)
    with poller_moves show ?thesis by (simp add: counted_def)
  qed
qed

section \<open>Two runs\<close>

text \<open>An engine whose core behaves, with the instance it holds if any.\<close>

definition run_engine :: "nat option \<Rightarrow> nat \<Rightarrow> nat set \<Rightarrow> engine_status list \<Rightarrow> snapshot option \<Rightarrow> engine" where
  "run_engine i n ps ss t = \<lparr>instance_of = i, cancel_of = i, status = status_code (last (Stopped # ss)),
     last_error = [], tun_fd = -1, traffic = t, attempts = n, live_boxes = set_option i, closing = {}, live_ctxs = set_option i,
     pollers = ps, statuses = ss\<rparr>"

lemma run_engine_new: "run_engine None 0 {} [] None = new_engine"
  by (simp add: run_engine_def new_engine_def)

lemma run_engine_start:
  "engine_call good_core (CallStart ''cfg'') (run_engine None n ps ss t)
     = Done (run_engine (Some n) (Suc n) (insert n ps) (ss @ [Starting, Running]) t)"
  by (simp add: run_engine_def StartEngine_def start_def start_box_def start_finish_def good_core_def set_status_def Let_def)

lemma run_engine_stop:
  "engine_call good_core CallStop (run_engine (Some b) n ps ss t)
     = Done (run_engine None n ps (ss @ [Stopping, Stopped]) t)"
  by (simp add: run_engine_def StopEngine_def stop_def force_cleanup_def good_core_def set_status_def cancel_ctx_def)

lemma run_engine_sel [simp]:
  "instance_of (run_engine i n ps ss t) = i" "attempts (run_engine i n ps ss t) = n"
  "live_ctxs (run_engine i n ps ss t) = set_option i" "pollers (run_engine i n ps ss t) = ps"
  "traffic (run_engine i n ps ss t) = t" "(run_engine i n ps ss t)\<lparr>traffic := t'\<rparr> = run_engine i n ps ss t'"
  "statuses (run_engine i n ps ss t) = ss"
  by (simp_all add: run_engine_def)

text \<open>A first run whose poller has read its counters when the engine stops.\<close>

lemma reach_stopped_run:
  "lib_reach (\<lambda>_. 0) two_sessions good_core
     \<lparr>lb_engine = run_engine None 1 {0} [Starting, Running, Stopping, Stopped] None,
      lb_meter = \<lparr>shown = None, cancelled = {0}, polling = [0 \<mapsto> Publishing poll_result]\<rparr>\<rparr>"
proof -
  let ?r = "lib_reach (\<lambda>_. 0) two_sessions good_core"
  have "?r \<lparr>lb_engine = run_engine (Some 0) 1 {0} [Starting, Running] None,
      lb_meter = \<lparr>shown = None, cancelled = {}, polling = [0 \<mapsto> Waiting new_poller]\<rparr>\<rparr>"
    by (rule lib_runs.run_to [OF lib_new api_call [where k = "CallStart ''cfg''"]])
      (use run_engine_start [of 0 "{}" "[]" None] in \<open>auto simp: new_lib_def run_engine_new [symmetric] after_call_def'
         new_meter_def fun_eq_iff simp del: engine_call.simps\<close>)
  then have "?r \<lparr>lb_engine = run_engine (Some 0) 1 {0} [Starting, Running] None,
      lb_meter = \<lparr>shown = None, cancelled = {}, polling = [0 \<mapsto> Publishing poll_result]\<rparr>\<rparr>"
    by (rule lib_runs.run_to [OF _ poller_moves [OF poll_read [where n = 0 and rd = "\<lambda>_. 250" and now = 5 and p = new_poller]]])
      (simp_all add: two_sessions_def poll_result_def)
  then show ?thesis
    by (rule lib_runs.run_to [OF _ api_call [where k = CallStop]])
      (use run_engine_stop [of 0 1 "{0}" "[Starting, Running]" None] in \<open>auto simp: after_call_def' simp del: engine_call.simps\<close>)
qed

section \<open>Properties\<close>

text \<open>C21. At most one poller runs for a context that is not cancelled, and it is that of the instance
  the engine holds; the totals that are shown were read from the counters of a run whose poller
  was started; and before any poller was started \<open>GetStats\<close> reports zeros.\<close>

theorem one_live_poller:
  assumes "lib_reach ovf readers c l"
  shows "dom (polling (lb_meter l)) - cancelled (lb_meter l) \<subseteq> set_option (instance_of (lb_engine l))
    \<and> (case traffic (lb_engine l) of
        None \<Rightarrow> GetStats (lb_engine l) = GetStats new_engine
      | Some s \<Rightarrow> \<exists>n \<in> pollers (lb_engine l). totals_of readers n s)"
proof -
  note inv = lib_reach_inv [OF assms, THEN conjunct2, unfolded lib_inv_def]
  then have "dom (polling (lb_meter l)) - cancelled (lb_meter l) \<subseteq> set_option (instance_of (lb_engine l))" by auto
  with lib_reach_counted [OF assms] show ?thesis
    by (auto simp: counted_def GetStats_def new_engine_def split: option.splits)
qed

theorem one_live_poller_witness:
  "\<exists>l. lib_reach (\<lambda>_. 0) two_sessions good_core l \<and> polling (lb_meter l) 0 \<noteq> None
     \<and> GetStats (lb_engine l) = GetStats new_engine"
proof -
  let ?l = "\<lparr>lb_engine = run_engine None 1 {0} [Starting, Running, Stopping, Stopped] None,
     lb_meter = \<lparr>shown = None, cancelled = {0}, polling = [0 \<mapsto> Publishing poll_result]\<rparr>\<rparr>"
  from one_live_poller [OF reach_stopped_run] reach_stopped_run show ?thesis
    by (intro exI [of _ ?l]) simp
qed

text \<open>C22. After the engine was stopped the meter falls to zero, whatever the core did: from every state
  in which the engine holds no instance the pollers that still run can all end, without any
  call, and then \<open>GetStats\<close> answers what it answered before the first start.\<close>

theorem stopped_engine_meter_drains:
  assumes "lib_reach ovf readers c l" "instance_of (lb_engine l) = None"
  shows "\<exists>l'. (lib_step ovf readers c)\<^sup>*\<^sup>* l l' \<and> polling (lb_meter l') = Map.empty
    \<and> lb_engine l' = (lb_engine l)\<lparr>traffic := None\<rparr> \<and> GetStats (lb_engine l') = GetStats new_engine"
proof -
  note inv = lib_reach_inv [OF assms(1)]
  then have "dom (polling (lb_meter l)) \<subseteq> cancelled (lb_meter l)" "traffic (lb_engine l) = shown (lb_meter l)"
    using assms(2) by (auto simp: lib_inv_def)
  then obtain m where m: "(lib_step ovf readers c)\<^sup>*\<^sup>* l \<lparr>lb_engine = (lb_engine l)\<lparr>traffic := shown m\<rparr>, lb_meter = m\<rparr>"
      "polling m = Map.empty"
    using lib_pollers_end [of _ l, OF reach_finite refl] inv by blast
  from lib_runs.run_steps [OF m(1) assms(1)] have "meter_reach ovf readers m"
    using lib_reach_inv by fastforce
  from reach_shown_inv [OF this] m(2) have "shown m = None" by (simp add: shown_inv_def split: if_splits)
  with m show ?thesis
    by (intro exI [of _ "\<lparr>lb_engine = (lb_engine l)\<lparr>traffic := shown m\<rparr>, lb_meter = m\<rparr>"])
      (simp add: GetStats_def new_engine_def)
qed

theorem stopped_engine_meter_drains_witness:
  "\<exists>l l'. lib_reach (\<lambda>_. 0) two_sessions good_core l \<and> polling (lb_meter l) 0 \<noteq> None
     \<and> (lib_step (\<lambda>_. 0) two_sessions good_core)\<^sup>*\<^sup>* l l' \<and> polling (lb_meter l') = Map.empty"
proof -
  let ?l = "\<lparr>lb_engine = run_engine None 1 {0} [Starting, Running, Stopping, Stopped] None,
     lb_meter = \<lparr>shown = None, cancelled = {0}, polling = [0 \<mapsto> Publishing poll_result]\<rparr>\<rparr>"
  have "instance_of (lb_engine ?l) = None" by simp
  from stopped_engine_meter_drains [OF reach_stopped_run this] obtain l' where
      "(lib_step (\<lambda>_. 0) two_sessions good_core)\<^sup>*\<^sup>* ?l l'" "polling (lb_meter l') = Map.empty"
    by blast
  with reach_stopped_run show ?thesis by (intro exI [of _ ?l] exI [of _ l']) simp
qed

text \<open>C38. The meter does not belong to one run: start, stop and start again, with a poller that had
  read its counters before the stop and publishes them after the second start. \<open>GetStats\<close> then
  shows the totals of the first run in the second, which carried nothing.\<close>

theorem old_session_shown:
  "\<exists>l s. lib_reach (\<lambda>_. 0) two_sessions good_core l \<and> instance_of (lb_engine l) = Some 1
     \<and> statuses (lb_engine l) = [Starting, Running, Stopping, Stopped, Starting, Running]
     \<and> traffic (lb_engine l) = Some s \<and> total (up s) = 500 \<and> \<not> totals_of two_sessions 1 s"
proof -
  let ?r = "lib_reach (\<lambda>_. 0) two_sessions good_core"
  let ?ss = "[Starting, Running, Stopping, Stopped, Starting, Running]"
  let ?l = "\<lparr>lb_engine = run_engine (Some 1) 2 {0, 1} ?ss (Some (last_snap poll_result)),
     lb_meter = \<lparr>shown = Some (last_snap poll_result), cancelled = {0},
       polling = [0 \<mapsto> Waiting poll_result, 1 \<mapsto> Waiting new_poller]\<rparr>\<rparr>"
  have "?r \<lparr>lb_engine = run_engine (Some 1) 2 {0, 1} ?ss None,
      lb_meter = \<lparr>shown = None, cancelled = {0}, polling = [0 \<mapsto> Publishing poll_result, 1 \<mapsto> Waiting new_poller]\<rparr>\<rparr>"
    by (rule lib_runs.run_to [OF reach_stopped_run api_call [where k = "CallStart ''cfg''"]])
      (use run_engine_start [of 1 "{0}" "[Starting, Running, Stopping, Stopped]" None] in
        \<open>auto simp: after_call_def' numeral_2_eq_2 insert_commute fun_eq_iff simp del: engine_call.simps\<close>)
  then have "?r ?l"
    by (rule lib_runs.run_to [OF _ poller_moves [OF poll_publish [where n = 0 and p = poll_result]]])
      (auto simp: fun_eq_iff)
  moreover have "\<not> totals_of two_sessions 1 (last_snap poll_result)"
    by (simp add: totals_of_def two_sessions_def read_totals_eq poll_result_total)
  ultimately show ?thesis
    using poll_result_total by (intro exI [of _ ?l] exI [of _ "last_snap poll_result"]) simp
qed

end
