(* ===== verification/Custom_Transports.thy ===== *)
theory Custom_Transports
  imports Go_Format
begin

text \<open>
  The injection point for proprietary transports (vpn_engine/custom_transports/registry.go), a
  template in this version: nothing is registered, so a registry of outbound constructors is
  what it was, and the constructor only returns an error. The dialer options it embeds belong
  to the core.
\<close>

definition custom_transport_type :: string where
  "custom_transport_type = ''custom-fastflow''"

record 'd custom_outbound_options =
  co_dialer :: 'd
  co_server :: string
  co_server_port :: "16 word"
  co_password :: string
  co_magic :: string

definition err_not_implemented :: "(nat \<Rightarrow> bool) \<Rightarrow> string \<Rightarrow> string" where
  "err_not_implemented isprint tag =
     ''custom_transports: outbound '' @ go_quote isprint tag @ '' is a template and not implemented''"

definition new_custom_outbound ::
  "(nat \<Rightarrow> bool) \<Rightarrow> string \<Rightarrow> 'd custom_outbound_options \<Rightarrow> 'o result" where
  "new_custom_outbound isprint tag options = Inl (err_not_implemented isprint tag)"

definition register_placeholder :: "(string \<rightharpoonup> 'c) \<Rightarrow> (string \<rightharpoonup> 'c)" where
  "register_placeholder reg = reg"

text \<open>\<open>init\<close>.\<close>

definition init_transports :: "(string \<rightharpoonup> 'c) \<Rightarrow> (string \<rightharpoonup> 'c)" where
  "init_transports = register_placeholder"

text \<open>After \<open>init\<close> the transport type is as unknown as before.\<close>

lemma custom_type_not_registered:
  "init_transports Map.empty custom_transport_type = None"
  by (simp add: init_transports_def register_placeholder_def)

end
