(* ===== verification/Spec2Isabelle.thy ===== *)
theory Spec2Isabelle
  imports Service Serial_Daemon Peer_Processes Authenticode Netif_Locks Engine_Meter Custom_Transports
begin

text \<open>
  A verification library for the Go code of the FastFlow VPN client: the privileged Windows
  helper daemon (windows_daemon/) and the engine library that wraps sing-box for the user
  interface (data/vpn_engine/). The definitions follow the code function by function; this
  text says which theory holds what, what the lemmas show, and what is left out.

  The program. The daemon is a Windows service. \<open>main\<close> (main.go) selects installation, console
  or service; \<open>Execute\<close> (service.go) starts a server, which loads the shared secret (security.go)
  from a directory it first secures (acl.go), and then runs an accept goroutine (ipc.go,
  pipe.go). Each client of the pipe is checked by the path of its process (\<open>verifyClient\<close>); an
  accepted one gets a handler goroutine that reads JSON requests line by line, compares their
  token, and runs netsh or route (firewall.go, routing.go). The library exports C functions
  that start and stop one instance of the core (engine_controller.go); a poller goroutine per
  run samples the traffic (traffic.go) for \<open>GetStats\<close>; on Android the platform thread feeds a
  registry of networks which the core reads and listens to (platform_android.go,
  netif_export_android.go).

  The Go library. \<open>Prelude\<close> has the result type, the rule collections, the codec locale and
  the locales of step systems: \<open>runs\<close> (reachable states as a least set), interpreted on every
  step relation below, and \<open>simulation\<close> of one by another;
  \<open>Go_Strings\<close>, \<open>Go_Utf8\<close>, \<open>Go_Format\<close>, \<open>Go_Net\<close>, \<open>Go_Filepath\<close>, \<open>Go_Json\<close> and \<open>Go_Float\<close>
  are the parts of Go's strings, utf8, strconv, fmt, net, netip, filepath, encoding/json and
  float64 arithmetic that the program calls, byte by byte; \<open>Go_Json_Roundtrip\<close> shows that
  parsing inverts encoding and that an encoded document is one line. A Go string is a list of
  bytes, an error its text on the left of a sum or in an option, an int a 64-bit word.

  The daemon.
  \<^item> \<open>Daemon_Exec\<close>, \<open>Firewall\<close>, \<open>Routing\<close>: operations in the state monad over the log of
    commands; the outcome of a command is any function of the log. \<open>confined ok m\<close> says that
    \<open>m\<close> only appends commands satisfying \<open>ok\<close>; its introduction rules carry the safety proofs.
  \<^item> \<open>Wire\<close>, \<open>Ipc\<close>: request and response records, decoding with Go's case-insensitive field
    matching, dispatch, and the buffered read loop. The locale \<open>line_server\<close> (answering a line
    runs allowed commands and gives one line) is interpreted on \<open>answer\<close>; \<open>serve\<close> is the
    specification of a session that \<open>handle\<close> refines; the locale \<open>line_protocol\<close> is the
    client's framing, interpreted on the JSON codec.
  \<^item> \<open>Data_Dir\<close>, \<open>Peer\<close>, \<open>Authenticode\<close>: the disk as a map from paths to owned objects, the
    token, the peer check with its calls, and the signature checks.
  \<^item> \<open>Pipe_Server\<close>: accept goroutine, \<open>stop\<close>, handlers, clients and the rest of the process as one
    step relation over the open handles; a step is what runs under the mutex or one system call.
    \<open>ConnectNamedPipe\<close> blocks: the goroutine leaves it when a client comes (\<open>client_step\<close>, which
    nothing promises) or when its handle was closed. The invariants are proved by rule induction over \<open>server_reach\<close>; the locale \<open>peer_check\<close> gives
    that every handler's path was accepted.
  \<^item> \<open>Peer_Processes\<close>: the server among processes that start, end and take over each other's
    numbers. \<open>named\<close> relates the handlers to the processes that connected, which the daemon cannot
    see.
  \<^item> \<open>Handlers\<close>: the whole daemon with all its handlers side by side. An operation that waits
    for its commands is resumed with the outcomes they have had (\<open>resume\<close>, sound for every
    operation that satisfies \<open>waits\<close>); \<open>daemon_step\<close> interleaves the server, the lines a handler
    takes from its reader (\<open>read_bytes\<close>, as in \<open>handle\<close>), the start and the end of single commands
    over one shared log, and the answers. A call that blocks is a step not taken, and no progress
    is claimed for the handlers. \<open>reads_inv\<close> ties the lines taken to the bytes delivered.
  \<^item> \<open>Switch_State\<close>: the firewall read off the log, the specification of serial requests, and
    the interleavings of two of them.
  \<^item> \<open>Serial_Daemon\<close>: the runs of the interleaved daemon in which no line arrives while another is
    being answered, the sequential daemon that answers a list of lines, and the contract of the
    daemon, stated apart from its code: what a request asks for (\<open>demand_of\<close>) and the answers and
    commands that meet a list of lines (\<open>meet_lines\<close>). What is left of a line (\<open>continues\<close>) leads to
    where the sequential operation leads, which meets the contract.
  \<^item> \<open>Service\<close>: control loop, command line and installation, with the disk they leave.

  The library.
  \<^item> \<open>Engine\<close>: the engine record with \<open>start\<close> and \<open>stop\<close>; a call is \<open>Done\<close>, \<open>Blocks\<close> or
    \<open>Crashes\<close>. The core is the record \<open>core\<close>, which gives the outcome of each of its calls per
    start attempt, panics included, and whether a Close ends within the five seconds that stopping
    waits, later (the event \<open>CloseEnds\<close>), or never; the sets of live instances and contexts are
    what the code cannot see and the leak properties are about.
  \<^item> \<open>Traffic\<close>, \<open>Meter\<close>: reading a counter by reflection, totals and rates, and the pollers of
    several runs as a step relation.
  \<^item> \<open>Engine_Meter\<close>: calls of the engine and pollers side by side. The locale \<open>simulation\<close> relates
    this system to the meter alone, which gives it the invariants of the meter; the agreement of
    the engine's contexts with the pollers is \<open>lib_inv\<close>.
  \<^item> \<open>Netif\<close>: the registry, the default network and its callbacks, protection of sockets, and
    the tunnel descriptor. The locale \<open>keyed_store\<close> (lookup after put and delete) is interpreted
    on the tracked networks.
  \<^item> \<open>Netif_Threads\<close>: the threads that use the registry, atomically. An operation is one section
    (\<open>locked\<close>) and then its calls, one step each; the sequential registry is its specification.
  \<^item> \<open>Netif_Locks\<close>: the same methods as the statements they execute around a mutex with a writer
    and readers, any of which a thread can be stopped after. The places where they lock and unlock
    (\<open>well_locked\<close>) give that this system is simulated by the atomic one, so that the atomicity of
    \<open>Netif_Threads\<close> is a result.
  \<^item> \<open>Custom_Transports\<close>: the template of a proprietary transport.

  What is shown. Safety of what runs elevated, also with all handlers interleaved
  (\<open>daemon_gate\<close>, \<open>enable_fails_closed\<close>, \<open>add_route_validates\<close>), that
  requests answered one at a time get what the contract gives them (\<open>one_line_at_a_time\<close>) and leave
  the kill switch as they asked (\<open>one_at_a_time_switch\<close>), refinement and
  round trips of the session, the life of the secret, ownership of pipe handles and the end of
  the accept goroutine, whom a handler serves (\<open>peer_identity\<close>), the engine's
  invariant, its state machine and the absence of leaks, equivalence of the tracked networks
  with a reference function, linearizability of the registry and the calls of the callbacks,
  well-formed networks, and the draining of the meter. Some properties state where the code
  misses its intent: \<open>verify_client_accepts_other_directory\<close>,
  \<open>reclaim_keeps_held_token\<close>, \<open>peer_pid_reused\<close>,
  \<open>kill_switch_race\<close>, \<open>stop_closes_foreign_handle\<close>,
  \<open>panicking_start_leaks\<close>, \<open>close_panic_crashes\<close>,
  \<open>hung_close\<close>, \<open>old_session_shown\<close> and
  \<open>callbacks_cross\<close>.

  Bounds. All recursions terminate, no fuel is used except in folding a rune: the orbit of a
  rune under \<open>unicode.SimpleFold\<close> has at most four elements, and \<open>fold_loop\<close> and \<open>fold_rune\<close> take
  eight rounds. The JSON nesting limit is Go's 10000. \<open>float_overflows\<close> caps a decimal exponent at
  10000, far beyond the range of float64. A stopped accept goroutine makes at most five steps.

  Assumptions. The tables of package unicode outside the Latin ranges (\<open>uni_fold\<close>,
  \<open>uni_print\<close>), the environment, the results of Windows, of the tools and of the core are
  arguments of the definitions. The word a float64 out of range converts to is the argument
  \<open>ovf\<close>. A command takes effect at one point of the
  log, where its outcome is fixed; the effect on the firewall is read off a log only where all
  its commands succeeded. Calls of the library that take the engine's mutex are sequences, since
  they hold it throughout; those of the registry are interleaved at every statement, memory is
  sequentially consistent there, the walk over the callback list is one statement, and a
  callback that uses the registry counts as another thread. \<open>ConnectNamedPipe\<close> on a handle that was
  closed fails, which is what the comment in \<open>stop\<close> relies on. The core's callback list behaves as
  Go's container/list. Handles are unique among those that are open. The file system compares the paths the
  daemon builds as byte strings.

  Not modelled. Log output; the memory of C strings (\<open>FreeString\<close>) and the empty \<open>main\<close> of the
  library; \<open>svc.Run\<close>; errors of \<open>WriteFile\<close> on the pipe, which the code drops; the timer of the
  poller beyond the time of a tick; the context of the core, into which
  \<open>withPlatformInterface\<close> puts the platform by a function of its library; the bits of security descriptors
  (a directory is protected or not); sing-box itself; and the client in Dart, Kotlin
  and C++.
\<close>

section \<open>Properties that span components\<close>

text \<open>The token the daemon draws is text a client can send.\<close>

lemma hex_valid_utf8: "valid_utf8 (hex_encode s)"
  using hex_encode_plain [of s] by (intro ascii_valid_utf8) (auto simp: is_ascii_def plain_char_def)

text \<open>C1. From the service to a command: let the service have started its server with a token,
  and let the server and all its handlers run in any order, for any clients. Every command that
  was ever run is a kill-switch command for the image path of its handler's client or a
  well-formed route command, that path is one the peer check accepts, and the command was run
  for a line that decodes to a request with the token. Every handler serves the path of an
  accepted process, and has answered each line it took with one line, but for the one it is
  answering. The token has at least 32 bytes and is the content of the token file.\<close>

theorem daemon_gate:
  assumes "ServerStarted tok \<in> set (fst (execute b d cmds ended))"
    and "daemon_reach (\<lambda>pid. fst (verify_client a pid)) os tok dm"
  shows "list_all (\<lambda>(path, l, c). client_path_ok a path \<and> authorised os tok l \<and> daemon_cmd os path c) (dm_trace dm)
    \<and> list_all (\<lambda>x. client_path_ok a (ss_path x) \<and> session_inv x) (dm_sessions dm) \<and> 32 \<le> length tok
    \<and> (\<exists>content. Option.bind (snd (load_or_create_token b d) (token_path b)) o_data = Some content
          \<and> tok = trim_space content)"
proof -
  obtain d' where load: "load_or_create_token b d = (Inr tok, d')"
    using execute_started [OF assms(1)] by (metis prod.collapse)
  have "list_all (\<lambda>x. client_path_ok a (ss_path x)) (dm_sessions dm)"
    using gui.handlers_acceptable daemon_server [OF assms(2)] by (fastforce simp: list_all_iff handler_of_def)
  with daemon_sessions [OF assms(2)] have "list_all (\<lambda>x. client_path_ok a (ss_path x) \<and> session_inv x) (dm_sessions dm)"
    by (simp add: list_all_iff)
  with load_token_on_disk [OF load] load gui.daemon_trace [OF assms(2)] show ?thesis
    by (simp add: trace_ok_def)
qed

theorem daemon_gate_witness:
  "\<exists>tok path dm. ServerStarted tok \<in> set (fst (execute calm_api Map.empty [] False))
     \<and> dm_log dm = enable_plan plain_os path @ disable_plan plain_os
     \<and> list_all (\<lambda>(path, l, c). authorised plain_os tok l \<and> daemon_cmd plain_os path c) (dm_trace dm)
     \<and> 32 \<le> length tok"
proof -
  let ?t = "hex_encode (rand_buf [])" and ?p = "expected_client_path calm_api"
  let ?a = "peer_at ?p"
  obtain d where "load_or_create_token calm_api Map.empty = (Inr ?t, d)" using calm_first_start by blast
  then have start: "ServerStarted ?t \<in> set (fst (execute calm_api Map.empty [] False))"
    by (simp add: execute_def server_start_def)
  have p: "fst (verify_client ?a 4) = Inr ?p" by (rule peer_at_accepted)
  have ok: "all_succeed plain_os" by (simp add: all_succeed_def plain_os_def)
  have "enable_plan plain_os ?p @ disable_plan plain_os \<in> shuffles (disable_plan plain_os) (enable_plan plain_os ?p)"
    using append_in_shuffles [of "enable_plan plain_os ?p" "disable_plan plain_os"] by (simp add: shuffles_commutes)
  from answered_interleaving [of plain_os "\<lambda>pid. fst (verify_client ?a pid)" 4 ?p ?t, OF ok p hex_valid_utf8 this]
  obtain dm where reach: "daemon_reach (\<lambda>pid. fst (verify_client ?a pid)) plain_os ?t dm"
      and log: "dm_log dm = enable_plan plain_os ?p @ disable_plan plain_os"
    by blast
  have "list_all (\<lambda>(path, l, c). authorised plain_os ?t l \<and> daemon_cmd plain_os path c) (dm_trace dm) \<and> 32 \<le> length ?t"
    using daemon_gate [OF start reach] by (auto simp: list_all_iff)
  with start log show ?thesis
    by (intro exI [of _ ?t] exI [of _ ?p] exI [of _ dm]) simp
qed

end
